(* ===== verification/Kernel_Prelude.thy ===== *)
theory Kernel_Prelude
  imports Main "HOL-Library.Word"
begin

text \<open>
  Shared ground of the development: 64-bit unsigned arithmetic, the rounding macros of
  \<^verbatim>\<open>include/linux/kernel.h\<close>, overlapping copies inside an array (\<^verbatim>\<open>memmove\<close>) and the
  outcome type of code that can stop in a \<^verbatim>\<open>BUG_ON\<close> or a \<^verbatim>\<open>panic\<close>.

  An unsigned 64-bit quantity (\<^verbatim>\<open>phys_addr_t\<close>, \<^verbatim>\<open>unsigned long\<close>, \<^verbatim>\<open>u64\<close> on arm64) is a
  \<^typ>\<open>nat\<close>; every addition and subtraction of the source that can leave the range is
  written with \<open>u64_add\<close> and \<open>u64_sub\<close>, which wrap around at \<open>2 ^ 64\<close>.
\<close>

unbundle bit_operations_syntax

named_theorems u64_simps \<open>wrap-around arithmetic that stays in range\<close>

type_synonym u64 = nat

definition u64_lim :: nat where
  "u64_lim = 2 ^ 64"

definition u64_add :: "u64 \<Rightarrow> u64 \<Rightarrow> u64" where
  "u64_add a b = (a + b) mod u64_lim"

definition u64_sub :: "u64 \<Rightarrow> u64 \<Rightarrow> u64" where
  "u64_sub a b = (a + (u64_lim - b mod u64_lim)) mod u64_lim"

definition u64_not :: "u64 \<Rightarrow> u64" where
  "u64_not a = mask 64 XOR a"

definition ULLONG_MAX :: u64 where
  "ULLONG_MAX = u64_lim - 1"

definition PHYS_ADDR_MAX :: u64 where
  "PHYS_ADDR_MAX = u64_lim - 1"

definition round_mask :: "u64 \<Rightarrow> u64" where
  "round_mask y = u64_sub y 1"

definition round_up :: "u64 \<Rightarrow> u64 \<Rightarrow> u64" where
  "round_up x y = u64_add (u64_sub x 1 OR round_mask y) 1"

definition round_down :: "u64 \<Rightarrow> u64 \<Rightarrow> u64" where
  "round_down x y = x AND u64_not (round_mask y)"

definition clamp :: "u64 \<Rightarrow> u64 \<Rightarrow> u64 \<Rightarrow> u64" where
  "clamp val lo hi = min (max val lo) hi"

definition PAGE_SIZE :: u64 where
  "PAGE_SIZE = 4096"

definition PFN_UP :: "u64 \<Rightarrow> u64" where
  "PFN_UP x = u64_add x (PAGE_SIZE - 1) div PAGE_SIZE"

definition PFN_DOWN :: "u64 \<Rightarrow> u64" where
  "PFN_DOWN x = x div PAGE_SIZE"

definition PFN_PHYS :: "u64 \<Rightarrow> u64" where
  "PFN_PHYS x = (x * PAGE_SIZE) mod u64_lim"

definition ALIGN :: "u64 \<Rightarrow> u64 \<Rightarrow> u64" where
  "ALIGN x a = u64_add x (u64_sub a 1) AND u64_not (u64_sub a 1)"

definition PAGE_ALIGN :: "u64 \<Rightarrow> u64" where
  "PAGE_ALIGN addr = ALIGN addr PAGE_SIZE"

text \<open>
  \<open>memmove xs d s n\<close> copies \<open>n\<close> elements starting at index \<open>s\<close> to index \<open>d\<close>; the
  regions may overlap.
\<close>

definition memmove :: "'a list \<Rightarrow> nat \<Rightarrow> nat \<Rightarrow> nat \<Rightarrow> 'a list" where
  "memmove xs d s n = take d xs @ take n (drop s xs) @ drop (d + n) xs"

text \<open>
  Code that can stop the machine returns \<open>fault + 'a\<close>: \<open>Bug_on\<close> for a failed \<^verbatim>\<open>BUG_ON\<close>,
  \<open>Panic\<close> for a call of \<^verbatim>\<open>panic\<close>, \<open>No_fuel\<close> where a recursion bound of the model is used
  up, \<open>Bad_access\<close> for a read or write outside the array it is meant for.  An error number is returned negated, as in C.
\<close>

definition ENOMEM :: int where
  "ENOMEM = 12"

definition EBUSY :: int where
  "EBUSY = 16"

definition EINVAL :: int where
  "EINVAL = 22"

datatype fault = Bug_on | Panic | No_fuel | Bad_access

type_synonym 'a run = "fault + 'a"

fun run_bind :: "'a run \<Rightarrow> ('a \<Rightarrow> 'b run) \<Rightarrow> 'b run" where
  "run_bind (Inl e) f = Inl e"
| "run_bind (Inr x) f = f x"

subsection \<open>Arithmetic that does not wrap\<close>

lemma u64_lim_pos [simp]: "0 < u64_lim"
  by (simp add: u64_lim_def)

lemma pow2_less_u64_lim: "k < 64 \<Longrightarrow> 2 ^ k < u64_lim"
  unfolding u64_lim_def by (rule power_strict_increasing) auto

lemma less_u64_lim_iff: "a < u64_lim \<longleftrightarrow> a \<le> PHYS_ADDR_MAX"
  by (auto simp: PHYS_ADDR_MAX_def u64_lim_def)

lemma u64_add_eq [u64_simps]: "a + b < u64_lim \<Longrightarrow> u64_add a b = a + b"
  by (simp add: u64_add_def)

lemma u64_add_max [u64_simps]: "a + b \<le> PHYS_ADDR_MAX \<Longrightarrow> u64_add a b = a + b"
  by (simp add: u64_add_def flip: less_u64_lim_iff)

lemma u64_sub_eq [u64_simps]: "b \<le> a \<Longrightarrow> a < u64_lim \<Longrightarrow> u64_sub a b = a - b"
  by (auto simp: u64_sub_def mod_if)

lemma u64_sub_max [u64_simps]: "b \<le> a \<Longrightarrow> a \<le> PHYS_ADDR_MAX \<Longrightarrow> u64_sub a b = a - b"
  by (simp add: u64_sub_eq flip: less_u64_lim_iff)

lemma u64_add_less [simp]: "u64_add a b < u64_lim"
  by (simp add: u64_add_def)

lemma u64_sub_less [simp]: "u64_sub a b < u64_lim"
  by (simp add: u64_sub_def)

lemma clamp_bounds: "lo \<le> hi \<Longrightarrow> lo \<le> clamp v lo hi \<and> clamp v lo hi \<le> hi"
  by (auto simp: clamp_def)

subsection \<open>Rounding to a power of two\<close>

lemma round_mask_pow2: "k < 64 \<Longrightarrow> round_mask (2 ^ k) = mask k"
  by (simp add: round_mask_def u64_sub_eq pow2_less_u64_lim mask_eq_exp_minus_1)

lemma round_down_pow2:
  assumes "x < u64_lim" "k < 64"
  shows "round_down x (2 ^ k) = x div 2 ^ k * 2 ^ k"
proof -
  have "x AND (mask 64 XOR mask k) = push_bit k (drop_bit k x)"
  proof (rule bit_eqI)
    fix n
    have "bit x n \<Longrightarrow> n < 64"
      using assms(1) by (metis bit_take_bit_iff take_bit_nat_eq_self u64_lim_def)
    then show "bit (x AND (mask 64 XOR mask k)) n = bit (push_bit k (drop_bit k x)) n"
      by (auto simp: bit_simps)
  qed
  then show ?thesis
    using assms by (simp add: round_down_def u64_not_def round_mask_pow2
        push_bit_eq_mult drop_bit_eq_div)
qed

lemma round_down_le: "x < u64_lim \<Longrightarrow> k < 64 \<Longrightarrow> round_down x (2 ^ k) \<le> x"
  by (simp add: round_down_pow2)

lemma round_down_dvd: "x < u64_lim \<Longrightarrow> k < 64 \<Longrightarrow> 2 ^ k dvd round_down x (2 ^ k)"
  by (simp add: round_down_pow2)

lemma round_down_greatest:
  assumes "x < u64_lim" "k < 64" "2 ^ k dvd c" "c \<le> x"
  shows "c \<le> round_down x (2 ^ k)"
proof -
  obtain q where q: "c = 2 ^ k * q" using assms(3) by blast
  have "q \<le> x div 2 ^ k" using assms(4) q by (simp add: less_eq_div_iff_mult_less_eq mult.commute)
  then show ?thesis using q assms by (simp add: round_down_pow2)
qed

lemma or_mask_eq: "(x::nat) OR mask k = x div 2 ^ k * 2 ^ k + (2 ^ k - 1)"
proof -
  have "x OR mask k = push_bit k (drop_bit k x) OR mask k"
    by (rule bit_eqI) (auto simp: bit_simps)
  also have "\<dots> = push_bit k (drop_bit k x) + mask k"
    by (rule disjunctive_add [symmetric]) (auto simp: bit_simps)
  finally show ?thesis
    by (simp add: push_bit_eq_mult drop_bit_eq_div mask_eq_exp_minus_1)
qed

lemma round_up_pow2:
  assumes "0 < x" "x < u64_lim" "k < 64"
  shows "round_up x (2 ^ k) = ((x - 1) div 2 ^ k + 1) * 2 ^ k mod u64_lim"
proof -
  have "u64_sub x 1 = x - 1" using assms by (simp add: u64_sub_eq)
  then show ?thesis
    using assms by (simp add: round_up_def round_mask_pow2 or_mask_eq u64_add_def algebra_simps)
qed

lemma round_up_0 [simp]:
  assumes "k < 64"
  shows "round_up 0 (2 ^ k) = 0"
proof -
  have "u64_sub 0 1 = mask 64"
    by (simp add: u64_sub_def u64_lim_def mask_eq_exp_minus_1)
  moreover have "(mask 64 :: nat) OR mask k = mask 64"
    by (rule bit_eqI) (use assms in \<open>auto simp: bit_simps\<close>)
  moreover have "u64_add (mask 64) 1 = 0"
    by (simp add: u64_add_def u64_lim_def mask_eq_exp_minus_1)
  ultimately show ?thesis
    using assms by (simp add: round_up_def round_mask_pow2)
qed

lemma round_up_cases:
  assumes "x < u64_lim" "k < 64"
  shows "round_up x (2 ^ k) = 0 \<or> x \<le> round_up x (2 ^ k) \<and> 2 ^ k dvd round_up x (2 ^ k)"
proof (cases "x = 0")
  case False
  let ?v = "((x - 1) div 2 ^ k + 1) * 2 ^ k"
  have ge: "x \<le> ?v"
  proof -
    have "(x - 1) mod 2 ^ k < 2 ^ k" by simp
    then show ?thesis
      using div_mult_mod_eq [of "x - 1" "2 ^ k"] by (simp only: distrib_right)
  qed
  have eq: "round_up x (2 ^ k) = ?v mod u64_lim"
    using round_up_pow2 [of x k] False assms by simp
  have "(2::nat) ^ 64 = 2 ^ k * 2 ^ (64 - k)" using assms(2) by (simp flip: power_add)
  then have lim: "u64_lim = 2 ^ k * 2 ^ (64 - k)" by (simp add: u64_lim_def)
  then have "(x - 1) div 2 ^ k < 2 ^ (64 - k)"
    using assms(1) by (simp add: less_mult_imp_div_less mult.commute)
  then have "(x - 1) div 2 ^ k + 1 \<le> 2 ^ (64 - k)" by simp
  then have "?v \<le> u64_lim" unfolding lim by (metis mult.commute mult_le_mono1)
  then show ?thesis using eq ge by (cases "?v = u64_lim") auto
qed (use assms in simp)

lemma ALIGN_pow2:
  assumes "x + 2 ^ k \<le> u64_lim" "k < 64"
  shows "ALIGN x (2 ^ k) = (x + (2 ^ k - 1)) div 2 ^ k * 2 ^ k"
proof -
  have "(1::nat) \<le> 2 ^ k" by simp
  then have l: "x + (2 ^ k - 1) < u64_lim" using assms(1) by linarith
  have "u64_sub (2 ^ k) 1 = 2 ^ k - 1"
    using assms(2) by (simp add: u64_sub_eq pow2_less_u64_lim)
  then show ?thesis
    using round_down_pow2 [OF l assms(2)] l
    by (simp add: ALIGN_def round_down_def round_mask_def u64_add_eq)
qed

lemma ALIGN_bounds:
  assumes "x + 2 ^ k \<le> u64_lim" "k < 64"
  shows "x \<le> ALIGN x (2 ^ k)" "ALIGN x (2 ^ k) < x + 2 ^ k" "2 ^ k dvd ALIGN x (2 ^ k)"
proof -
  let ?y = "x + (2 ^ k - 1)"
  have "?y div 2 ^ k * 2 ^ k + ?y mod 2 ^ k = ?y" by (rule div_mult_mod_eq)
  moreover have "?y mod 2 ^ k < 2 ^ k" "(1::nat) \<le> 2 ^ k" by simp_all
  ultimately show "x \<le> ALIGN x (2 ^ k)" "ALIGN x (2 ^ k) < x + 2 ^ k"
    unfolding ALIGN_pow2 [OF assms] by linarith+
  show "2 ^ k dvd ALIGN x (2 ^ k)" unfolding ALIGN_pow2 [OF assms] by simp
qed

lemma ALIGN_least:
  assumes "x + 2 ^ k \<le> u64_lim" "k < 64" "2 ^ k dvd c" "x \<le> c"
  shows "ALIGN x (2 ^ k) \<le> c"
proof -
  obtain q where q: "c = 2 ^ k * q" using assms(3) by blast
  obtain r where r: "ALIGN x (2 ^ k) = 2 ^ k * r" using ALIGN_bounds(3) [OF assms(1,2)] by blast
  have "2 ^ k * r < 2 ^ k * (q + 1)"
    using ALIGN_bounds(2) [OF assms(1,2)] assms(4) unfolding r q by simp
  then have "r \<le> q" by (simp only: mult_less_cancel1) simp
  then show ?thesis unfolding r q by simp
qed

end
