(* ===== verification/Memblock_Types.thy ===== *)
theory Memblock_Types
  imports Kernel_Prelude
begin

text \<open>
  The data of the boot-time memory manager (\<^verbatim>\<open>include/linux/memblock.h\<close>,
  \<^verbatim>\<open>mm/memblock.c\<close>) and the primitive operations on one region array: insertion, removal
  and merging, the overlap test and the binary search.

  A \<^verbatim>\<open>struct memblock_type\<close> keeps its C layout: an array of \<open>mt_max\<close> slots of which the
  first \<open>mt_cnt\<close> are in use. The abstraction has two steps: \<open>live\<close> reads the used slots
  as a list, and \<open>amap\<close> reads a region list as a partial map from physical addresses to
  the node and flags of the region that covers them. The lemmas relate each array
  operation to a list operation; \<open>Memblock_Update\<close> relates the list operations to maps.
\<close>

section \<open>Data\<close>

type_synonym memblock_flags = "32 word"

definition MEMBLOCK_NONE :: memblock_flags where
  "MEMBLOCK_NONE = 0"

definition MEMBLOCK_HOTPLUG :: memblock_flags where
  "MEMBLOCK_HOTPLUG = 1"

definition MEMBLOCK_MIRROR :: memblock_flags where
  "MEMBLOCK_MIRROR = 2"

definition MEMBLOCK_NOMAP :: memblock_flags where
  "MEMBLOCK_NOMAP = 4"

definition NUMA_NO_NODE :: int where
  "NUMA_NO_NODE = -1"

text \<open>\<^verbatim>\<open>1 << CONFIG_NODES_SHIFT\<close>, with the arm64 default shift of 2.\<close>

definition MAX_NUMNODES :: int where
  "MAX_NUMNODES = 4"

record memblock_region =
  mr_base :: u64
  mr_size :: u64
  mr_flags :: memblock_flags
  mr_nid :: int

text \<open>
  The pointer \<^verbatim>\<open>regions\<close> of a type is one of the two static arrays or an array that was
  allocated later, known by its physical address.
\<close>

datatype array_ptr = Memory_init_regions | Reserved_init_regions | Array_at u64

record memblock_type =
  mt_cnt :: nat
  mt_max :: nat
  mt_total_size :: u64
  mt_regions :: "memblock_region list"
  mt_array :: array_ptr
  mt_name :: string

record memblock =
  mb_bottom_up :: bool
  mb_current_limit :: u64
  mb_memory :: memblock_type
  mb_reserved :: memblock_type

text \<open>The static variables of \<^verbatim>\<open>mm/memblock.c\<close> beside the struct.\<close>

record memblock_state = memblock +
  system_has_some_mirror :: bool
  memblock_can_resize :: bool
  memblock_memory_in_slab :: bool
  memblock_reserved_in_slab :: bool

definition INIT_MEMBLOCK_REGIONS :: nat where
  "INIT_MEMBLOCK_REGIONS = 128"

definition MEMBLOCK_ALLOC_ANYWHERE :: u64 where
  "MEMBLOCK_ALLOC_ANYWHERE = PHYS_ADDR_MAX"

definition MEMBLOCK_ALLOC_ACCESSIBLE :: u64 where
  "MEMBLOCK_ALLOC_ACCESSIBLE = 0"

definition zero_region :: memblock_region where
  "zero_region = \<lparr>mr_base = 0, mr_size = 0, mr_flags = 0, mr_nid = 0\<rparr>"

definition memblock_init :: memblock_state where
  "memblock_init =
     \<lparr>mb_bottom_up = False,
      mb_current_limit = MEMBLOCK_ALLOC_ANYWHERE,
      mb_memory = \<lparr>mt_cnt = 1, mt_max = INIT_MEMBLOCK_REGIONS, mt_total_size = 0,
        mt_regions = replicate INIT_MEMBLOCK_REGIONS zero_region,
        mt_array = Memory_init_regions, mt_name = ''memory''\<rparr>,
      mb_reserved = \<lparr>mt_cnt = 1, mt_max = INIT_MEMBLOCK_REGIONS, mt_total_size = 0,
        mt_regions = replicate INIT_MEMBLOCK_REGIONS zero_region,
        mt_array = Reserved_init_regions, mt_name = ''reserved''\<rparr>,
      system_has_some_mirror = False, memblock_can_resize = False,
      memblock_memory_in_slab = False, memblock_reserved_in_slab = False\<rparr>"

definition memblock_is_hotpluggable :: "memblock_region \<Rightarrow> bool" where
  "memblock_is_hotpluggable m \<longleftrightarrow> mr_flags m AND MEMBLOCK_HOTPLUG \<noteq> 0"

definition memblock_is_mirror :: "memblock_region \<Rightarrow> bool" where
  "memblock_is_mirror m \<longleftrightarrow> mr_flags m AND MEMBLOCK_MIRROR \<noteq> 0"

definition memblock_is_nomap :: "memblock_region \<Rightarrow> bool" where
  "memblock_is_nomap m \<longleftrightarrow> mr_flags m AND MEMBLOCK_NOMAP \<noteq> 0"

definition memblock_set_region_flags :: "memblock_region \<Rightarrow> memblock_flags \<Rightarrow> memblock_region" where
  "memblock_set_region_flags r fl = r\<lparr>mr_flags := mr_flags r OR fl\<rparr>"

definition memblock_clear_region_flags :: "memblock_region \<Rightarrow> memblock_flags \<Rightarrow> memblock_region" where
  "memblock_clear_region_flags r fl = r\<lparr>mr_flags := mr_flags r AND NOT fl\<rparr>"

definition memblock_set_region_node :: "memblock_region \<Rightarrow> int \<Rightarrow> memblock_region" where
  "memblock_set_region_node r nid = r\<lparr>mr_nid := nid\<rparr>"

definition memblock_get_region_node :: "memblock_region \<Rightarrow> int" where
  "memblock_get_region_node r = mr_nid r"

section \<open>Operations on one region array\<close>

definition memblock_cap_size :: "u64 \<Rightarrow> u64 \<Rightarrow> u64" where
  "memblock_cap_size base sz = min sz (u64_sub PHYS_ADDR_MAX base)"

definition memblock_addrs_overlap :: "u64 \<Rightarrow> u64 \<Rightarrow> u64 \<Rightarrow> u64 \<Rightarrow> bool" where
  "memblock_addrs_overlap base1 size1 base2 size2 \<longleftrightarrow>
     base1 < u64_add base2 size2 \<and> base2 < u64_add base1 size1"

text \<open>The loop of \<^verbatim>\<open>memblock_overlaps_region\<close>: the index at which it stops.\<close>

function overlaps_scan :: "memblock_type \<Rightarrow> u64 \<Rightarrow> u64 \<Rightarrow> nat \<Rightarrow> nat" where
  "overlaps_scan t base sz i =
     (if i < mt_cnt t \<and>
         \<not> memblock_addrs_overlap base sz (mr_base (mt_regions t ! i)) (mr_size (mt_regions t ! i))
      then overlaps_scan t base sz (i + 1) else i)"
  by pat_completeness auto
termination
  by (relation "measure (\<lambda>(t, base, sz, i). mt_cnt t - i)") auto

declare overlaps_scan.simps [simp del]

definition memblock_overlaps_region :: "memblock_type \<Rightarrow> u64 \<Rightarrow> u64 \<Rightarrow> bool" where
  "memblock_overlaps_region t base sz \<longleftrightarrow> overlaps_scan t base sz 0 < mt_cnt t"

definition memblock_remove_region :: "memblock_type \<Rightarrow> nat \<Rightarrow> memblock_type" where
  "memblock_remove_region t r =
     (let t1 = t\<lparr>mt_total_size := u64_sub (mt_total_size t) (mr_size (mt_regions t ! r)),
                 mt_regions := memmove (mt_regions t) r (r + 1) (mt_cnt t - (r + 1)),
                 mt_cnt := mt_cnt t - 1\<rparr>
      in if mt_cnt t1 = 0
         then t1\<lparr>mt_cnt := 1,
                 mt_regions := (mt_regions t1)[0 := \<lparr>mr_base = 0, mr_size = 0, mr_flags = 0,
                                                     mr_nid = MAX_NUMNODES\<rparr>]\<rparr>
         else t1)"

text \<open>
  The loop of \<^verbatim>\<open>memblock_merge_regions\<close> from index \<open>i\<close>. The C condition is
  \<^verbatim>\<open>i < type->cnt - 1\<close>; \<^verbatim>\<open>cnt\<close> never goes below 1.
\<close>

function memblock_merge_from :: "nat \<Rightarrow> memblock_type \<Rightarrow> memblock_type run" where
  "memblock_merge_from i t =
     (if i + 1 < mt_cnt t then
        let this = mt_regions t ! i; next = mt_regions t ! (i + 1) in
        if u64_add (mr_base this) (mr_size this) \<noteq> mr_base next \<or>
           memblock_get_region_node this \<noteq> memblock_get_region_node next \<or>
           mr_flags this \<noteq> mr_flags next
        then if u64_add (mr_base this) (mr_size this) > mr_base next then Inl Bug_on
             else memblock_merge_from (i + 1) t
        else memblock_merge_from i
               (t\<lparr>mt_regions :=
                    memmove ((mt_regions t)[i := this\<lparr>mr_size := u64_add (mr_size this) (mr_size next)\<rparr>])
                      (i + 1) (i + 2) (mt_cnt t - (i + 2)),
                  mt_cnt := mt_cnt t - 1\<rparr>)
      else Inr t)"
  by pat_completeness auto
termination
  by (relation "measure (\<lambda>(i, t). mt_cnt t - i)") auto

declare memblock_merge_from.simps [simp del]

definition memblock_merge_regions :: "memblock_type \<Rightarrow> memblock_type run" where
  "memblock_merge_regions t = memblock_merge_from 0 t"

definition memblock_insert_region ::
  "memblock_type \<Rightarrow> nat \<Rightarrow> u64 \<Rightarrow> u64 \<Rightarrow> int \<Rightarrow> memblock_flags \<Rightarrow> memblock_type run" where
  "memblock_insert_region t idx base sz nid flags =
     (if mt_cnt t \<ge> mt_max t then Inl Bug_on
      else Inr (t\<lparr>mt_regions :=
                    (memmove (mt_regions t) (idx + 1) idx (mt_cnt t - idx))
                      [idx := \<lparr>mr_base = base, mr_size = sz, mr_flags = flags, mr_nid = nid\<rparr>],
                  mt_cnt := mt_cnt t + 1,
                  mt_total_size := u64_add (mt_total_size t) sz\<rparr>))"

text \<open>
  The binary search of \<^verbatim>\<open>memblock_search\<close>, a \<^verbatim>\<open>do ... while (left < right)\<close> loop; the result
  is the index of the region that holds the address, or -1.
\<close>

function memblock_search_loop :: "memblock_type \<Rightarrow> u64 \<Rightarrow> nat \<Rightarrow> nat \<Rightarrow> int" where
  "memblock_search_loop t addr left right =
     (let mid = (right + left) div 2 in
      if addr < mr_base (mt_regions t ! mid) then
        (if left < mid then memblock_search_loop t addr left mid else -1)
      else if addr \<ge> u64_add (mr_base (mt_regions t ! mid)) (mr_size (mt_regions t ! mid)) then
        (if mid + 1 < right then memblock_search_loop t addr (mid + 1) right else -1)
      else int mid)"
  by pat_completeness auto
termination
  by (relation "measure (\<lambda>(t, addr, left, right). right - left)") auto

declare memblock_search_loop.simps [simp del]

definition memblock_search :: "memblock_type \<Rightarrow> u64 \<Rightarrow> int" where
  "memblock_search t addr = memblock_search_loop t addr 0 (mt_cnt t)"

section \<open>Abstraction\<close>

definition live :: "memblock_type \<Rightarrow> memblock_region list" where
  "live t = take (mt_cnt t) (mt_regions t)"

definition mr_end :: "memblock_region \<Rightarrow> nat" where
  "mr_end r = mr_base r + mr_size r"

definition covers :: "memblock_region \<Rightarrow> u64 \<Rightarrow> bool" where
  "covers r a \<longleftrightarrow> mr_base r \<le> a \<and> a < mr_end r"

text \<open>Which node and flags a list of regions gives an address.\<close>

fun amap :: "memblock_region list \<Rightarrow> u64 \<rightharpoonup> int \<times> memblock_flags" where
  "amap [] a = None"
| "amap (r # rs) a = (if covers r a then Some (mr_nid r, mr_flags r) else amap rs a)"

definition sizes :: "memblock_region list \<Rightarrow> nat" where
  "sizes rs = sum_list (map mr_size rs)"

text \<open>
  Regions are kept sorted and disjoint, and none reaches past \<^const>\<open>PHYS_ADDR_MAX\<close>.
\<close>

definition ordered :: "memblock_region list \<Rightarrow> bool" where
  "ordered rs \<longleftrightarrow> sorted_wrt (\<lambda>r s. mr_end r \<le> mr_base s) rs \<and> (\<forall>r\<in>set rs. mr_end r \<le> PHYS_ADDR_MAX)"

definition nonempty :: "memblock_region list \<Rightarrow> bool" where
  "nonempty rs \<longleftrightarrow> (\<forall>r\<in>set rs. 0 < mr_size r)"

definition compatible :: "memblock_region \<Rightarrow> memblock_region \<Rightarrow> bool" where
  "compatible r s \<longleftrightarrow> mr_end r = mr_base s \<and> mr_nid r = mr_nid s \<and> mr_flags r = mr_flags s"

text \<open>No two neighbours can be merged.\<close>

fun minimal :: "memblock_region list \<Rightarrow> bool" where
  "minimal (r # s # rs) \<longleftrightarrow> \<not> compatible r s \<and> minimal (s # rs)"
| "minimal _ \<longleftrightarrow> True"

text \<open>
  The array is as long as its capacity says, the used part fits, and the recorded total
  is the sum of the sizes (modulo the word size).
\<close>

definition wf_array :: "memblock_type \<Rightarrow> bool" where
  "wf_array t \<longleftrightarrow> length (mt_regions t) = mt_max t \<and> mt_cnt t \<le> mt_max t \<and>
     mt_total_size t = sizes (live t) mod u64_lim"

text \<open>An array that holds no region keeps one dummy entry.\<close>

definition is_dummy :: "memblock_region list \<Rightarrow> bool" where
  "is_dummy rs \<longleftrightarrow> (\<exists>r. rs = [r] \<and> mr_base r = 0 \<and> mr_size r = 0)"

definition wf_type :: "memblock_type \<Rightarrow> bool" where
  "wf_type t \<longleftrightarrow> wf_array t \<and> 0 < mt_cnt t \<and> ordered (live t) \<and>
     (is_dummy (live t) \<or> nonempty (live t))"

text \<open>\<open>t'\<close> is \<open>t\<close> with the live regions \<open>L\<close>, in the same array.\<close>

definition arr_upd :: "memblock_type \<Rightarrow> memblock_region list \<Rightarrow> memblock_type \<Rightarrow> bool" where
  "arr_upd t L t' \<longleftrightarrow> wf_array t' \<and> live t' = L \<and> mt_max t' = mt_max t \<and>
     mt_array t' = mt_array t \<and> mt_name t' = mt_name t"

section \<open>From arrays to lists\<close>

lemma length_memmove:
  "d + n \<le> length xs \<Longrightarrow> s + n \<le> length xs \<Longrightarrow> length (memmove xs d s n) = length xs"
  by (simp add: memmove_def)

lemma memmove_insert:
  assumes "idx \<le> n" "n < length xs"
  shows "take (n + 1) ((memmove xs (idx + 1) idx (n - idx))[idx := x]) =
    take idx (take n xs) @ x # drop idx (take n xs)"
proof -
  have "take (n + 1) (memmove xs (idx + 1) idx (n - idx)) =
      take idx xs @ xs ! idx # take (n - idx) (drop idx xs)"
    using assms by (simp add: memmove_def take_Suc_conv_app_nth Suc_diff_le)
  then show ?thesis
    using assms by (simp add: take_update_swap list_update_append drop_take min_def)
qed

lemma memmove_remove:
  assumes "r < n" "n \<le> length xs"
  shows "take (n - 1) (memmove xs r (r + 1) (n - (r + 1))) =
    take r (take n xs) @ drop (r + 1) (take n xs)"
proof -
  obtain m where n: "n = r + 1 + m"
    using assms(1) less_iff_Suc_add [of r n] by auto
  show ?thesis
    using assms(2) unfolding n by (simp add: memmove_def drop_take)
qed

lemma length_live [simp]: "wf_array t \<Longrightarrow> length (live t) = mt_cnt t"
  by (simp add: wf_array_def live_def)

lemma regions_nth_live: "i < mt_cnt t \<Longrightarrow> mt_regions t ! i = live t ! i"
  by (simp add: live_def)

lemma sizes_simps [simp]:
  "sizes [] = 0" "sizes (r # rs) = mr_size r + sizes rs" "sizes (xs @ ys) = sizes xs + sizes ys"
  by (simp_all add: sizes_def)

lemma arr_updD:
  assumes "arr_upd t L t'"
  shows "wf_array t'" "live t' = L" "mt_cnt t' = length L" "mt_max t' = mt_max t"
    "mt_array t' = mt_array t" "mt_name t' = mt_name t"
  using assms length_live [of t'] by (auto simp: arr_upd_def)

lemma arr_upd_refl: "wf_array t \<Longrightarrow> arr_upd t (live t) t"
  by (simp add: arr_upd_def)

lemma arr_upd_trans: "arr_upd t L t' \<Longrightarrow> arr_upd t' L' t'' \<Longrightarrow> arr_upd t L' t''"
  by (simp add: arr_upd_def)

lemma insert_region_full:
  "mt_max t \<le> mt_cnt t \<Longrightarrow> memblock_insert_region t i b sz nid fl = Inl Bug_on"
  by (simp add: memblock_insert_region_def)

lemma insert_region_arr:
  assumes "wf_array t" "i \<le> mt_cnt t" "mt_cnt t < mt_max t"
  obtains t' where "memblock_insert_region t i b sz nid fl = Inr t'"
    "arr_upd t (take i (live t) @ \<lparr>mr_base = b, mr_size = sz, mr_flags = fl, mr_nid = nid\<rparr>
                # drop i (live t)) t'"
proof -
  let ?r = "\<lparr>mr_base = b, mr_size = sz, mr_flags = fl, mr_nid = nid\<rparr>"
  let ?L = "take i (live t) @ ?r # drop i (live t)"
  define t' where "t' = t\<lparr>mt_regions := (memmove (mt_regions t) (i + 1) i (mt_cnt t - i))[i := ?r],
      mt_cnt := mt_cnt t + 1, mt_total_size := u64_add (mt_total_size t) sz\<rparr>"
  have len: "length (mt_regions t) = mt_max t"
    and tot: "mt_total_size t = sizes (live t) mod u64_lim"
    using assms(1) by (auto simp: wf_array_def)
  have L: "live t' = ?L"
    using memmove_insert [of i "mt_cnt t" "mt_regions t" ?r] assms len
    by (simp add: live_def t'_def)
  have "sizes ?L = sizes (live t) + sz"
    using sizes_simps(3) [of "take i (live t)" "drop i (live t)"] by simp
  then have "mt_total_size t' = sizes ?L mod u64_lim"
    by (simp add: t'_def u64_add_def tot mod_add_left_eq del: sizes_simps)
  then have "arr_upd t ?L t'"
    using assms len unfolding arr_upd_def wf_array_def L by (simp add: t'_def length_memmove)
  moreover have "memblock_insert_region t i b sz nid fl = Inr t'"
    using assms by (simp add: memblock_insert_region_def t'_def)
  ultimately show ?thesis using that by blast
qed

lemma u64_sub_mod: "u64_sub ((a + b) mod u64_lim) b = a mod u64_lim"
proof -
  have "b = b div u64_lim * u64_lim + b mod u64_lim" and "b mod u64_lim < u64_lim"
    by simp_all
  then have "(a + b) + (u64_lim - b mod u64_lim) = a + (b div u64_lim + 1) * u64_lim"
    by (simp only: distrib_right)
  then show ?thesis
    by (simp only: u64_sub_def mod_add_left_eq mod_mult_self1)
qed

lemma remove_region_arr:
  assumes "wf_array t" "r < mt_cnt t" "1 < mt_cnt t"
  shows "arr_upd t (take r (live t) @ drop (r + 1) (live t)) (memblock_remove_region t r)"
proof -
  have len: "length (mt_regions t) = mt_max t" "mt_cnt t \<le> mt_max t"
    and tot: "mt_total_size t = sizes (live t) mod u64_lim"
    using assms(1) by (auto simp: wf_array_def)
  have live_eq: "live t = take r (live t) @ live t ! r # drop (r + 1) (live t)"
    using assms id_take_nth_drop [of r "live t"] by simp
  have "sizes (live t) = sizes (take r (live t) @ drop (r + 1) (live t)) + mr_size (mt_regions t ! r)"
    by (subst live_eq) (use assms in \<open>simp add: regions_nth_live\<close>)
  then show ?thesis
    using assms len memmove_remove [of r "mt_cnt t" "mt_regions t"]
    by (simp add: memblock_remove_region_def Let_def arr_upd_def wf_array_def live_def
        length_memmove tot u64_sub_mod)
qed

lemma remove_region_last:
  assumes "wf_array t" "mt_cnt t = 1"
  shows "wf_array (memblock_remove_region t 0)" "is_dummy (live (memblock_remove_region t 0))"
    "mt_max (memblock_remove_region t 0) = mt_max t"
    "mt_array (memblock_remove_region t 0) = mt_array t"
    "mt_name (memblock_remove_region t 0) = mt_name t"
proof -
  have len: "length (mt_regions t) = mt_max t" "1 \<le> mt_max t"
    and tot: "mt_total_size t = sizes (live t) mod u64_lim"
    using assms by (auto simp: wf_array_def)
  then obtain x xs where xs: "mt_regions t = x # xs" by (cases "mt_regions t") auto
  have "u64_sub (mr_size x mod u64_lim) (mr_size x) = 0"
    using u64_sub_mod [of 0 "mr_size x"] by simp
  then have "u64_sub (mt_total_size t) (mr_size (mt_regions t ! 0)) = 0"
    using tot assms xs by (simp add: live_def)
  then show "wf_array (memblock_remove_region t 0)" "is_dummy (live (memblock_remove_region t 0))"
    using assms len xs
    by (auto simp: memblock_remove_region_def wf_array_def live_def memmove_def is_dummy_def)
  show "mt_max (memblock_remove_region t 0) = mt_max t"
    "mt_array (memblock_remove_region t 0) = mt_array t"
    "mt_name (memblock_remove_region t 0) = mt_name t"
    using assms by (simp_all add: memblock_remove_region_def)
qed

section \<open>Ordered region lists\<close>

lemma ordered_Nil [simp]: "ordered []"
  by (simp add: ordered_def)

lemma ordered_Cons:
  "ordered (r # rs) \<longleftrightarrow> mr_end r \<le> PHYS_ADDR_MAX \<and> (\<forall>s\<in>set rs. mr_end r \<le> mr_base s) \<and> ordered rs"
  by (auto simp: ordered_def)

lemma ordered_append:
  "ordered (xs @ ys) \<longleftrightarrow> ordered xs \<and> ordered ys \<and> (\<forall>x\<in>set xs. \<forall>y\<in>set ys. mr_end x \<le> mr_base y)"
  by (auto simp: ordered_def sorted_wrt_append)

lemma ordered_dummy: "is_dummy rs \<Longrightarrow> ordered rs"
  by (auto simp: is_dummy_def ordered_def mr_end_def)

lemma mr_base_le_end [simp]: "mr_base r \<le> mr_end r"
  by (simp add: mr_end_def)

lemma u64_add_mr_end: "mr_end r \<le> PHYS_ADDR_MAX \<Longrightarrow> u64_add (mr_base r) (mr_size r) = mr_end r"
  by (simp add: u64_add_max mr_end_def)

lemma ordered_end_le: "ordered rs \<Longrightarrow> r \<in> set rs \<Longrightarrow> mr_end r \<le> PHYS_ADDR_MAX"
  by (simp add: ordered_def)

lemma ordered_nth_end: "ordered rs \<Longrightarrow> i < length rs \<Longrightarrow> mr_end (rs ! i) \<le> PHYS_ADDR_MAX"
  by (simp add: ordered_def)

lemma ordered_base_least: "ordered (m # ms) \<Longrightarrow> r \<in> set (m # ms) \<Longrightarrow> mr_base m \<le> mr_base r"
  by (auto simp: ordered_Cons intro: le_trans [OF mr_base_le_end])

lemma ordered_nth_less:
  "ordered rs \<Longrightarrow> i < j \<Longrightarrow> j < length rs \<Longrightarrow> mr_end (rs ! i) \<le> mr_base (rs ! j)"
  by (simp add: ordered_def sorted_wrt_iff_nth_less)

lemma sizes_le_end:
  "ordered rs \<Longrightarrow> \<forall>r\<in>set rs. lo \<le> mr_base r \<Longrightarrow> lo \<le> PHYS_ADDR_MAX \<Longrightarrow> lo + sizes rs \<le> PHYS_ADDR_MAX"
proof (induction rs arbitrary: lo)
  case (Cons r rs)
  have "mr_end r + sizes rs \<le> PHYS_ADDR_MAX"
    using Cons by (intro Cons.IH) (auto simp: ordered_Cons)
  then show ?case using Cons.prems by (simp add: mr_end_def)
qed simp

text \<open>The recorded total is exact: the sum of the sizes never wraps.\<close>

lemma wf_type_total:
  assumes "wf_type t"
  shows "mt_total_size t = sizes (live t)"
proof -
  have "sizes (live t) < u64_lim"
    using assms sizes_le_end [of "live t" 0] by (simp add: wf_type_def less_u64_lim_iff)
  then show ?thesis using assms by (simp add: wf_type_def wf_array_def)
qed

lemma amap_append: "amap (xs @ ys) a = (case amap xs a of None \<Rightarrow> amap ys a | Some v \<Rightarrow> Some v)"
  by (induction xs) auto

lemma amap_eq_None: "amap rs a = None \<longleftrightarrow> (\<forall>r\<in>set rs. \<not> covers r a)"
  by (induction rs) auto

lemma amap_below: "\<forall>r\<in>set rs. a < mr_base r \<Longrightarrow> amap rs a = None"
  by (auto simp: amap_eq_None covers_def)

lemma amap_above: "\<forall>r\<in>set rs. mr_end r \<le> a \<Longrightarrow> amap rs a = None"
  by (auto simp: amap_eq_None covers_def)

lemma amap_dummy: "is_dummy rs \<Longrightarrow> amap rs a = None"
  by (auto simp: is_dummy_def covers_def mr_end_def)

lemma amap_nth:
  assumes "ordered rs" "i < length rs" "covers (rs ! i) a"
  shows "amap rs a = Some (mr_nid (rs ! i), mr_flags (rs ! i))"
  using assms
proof (induction rs arbitrary: i)
  case (Cons r rs)
  show ?case
  proof (cases i)
    case (Suc j)
    with Cons.prems have "mr_end r \<le> mr_base (rs ! j)" by (auto simp: ordered_Cons)
    with Cons.prems Suc have "\<not> covers r a" by (auto simp: covers_def)
    with Cons Suc show ?thesis by (simp add: ordered_Cons)
  qed (use Cons in simp)
qed simp

section \<open>Merging\<close>

fun merge_list :: "memblock_region list \<Rightarrow> memblock_region list" where
  "merge_list (r # s # rs) =
     (if compatible r s then merge_list (r\<lparr>mr_size := mr_size r + mr_size s\<rparr> # rs)
      else r # merge_list (s # rs))"
| "merge_list rs = rs"

lemma mr_end_grow: "compatible r s \<Longrightarrow> mr_end (r\<lparr>mr_size := mr_size r + mr_size s\<rparr>) = mr_end s"
  by (simp add: compatible_def mr_end_def)

lemma merge_list_Cons: "\<exists>s' rs'. merge_list (s # rs) = s' # rs' \<and> mr_base s' = mr_base s \<and>
    mr_nid s' = mr_nid s \<and> mr_flags s' = mr_flags s"
proof (induction "s # rs" arbitrary: s rs rule: merge_list.induct)
  case (1 r s rs)
  then show ?case by (cases "compatible r s") auto
qed auto

lemma merge_list_minimal: "minimal (merge_list rs)"
proof (induction rs rule: merge_list.induct)
  case (1 r s rs)
  show ?case
  proof (cases "compatible r s")
    case False
    obtain s' rs' where "merge_list (s # rs) = s' # rs'" "mr_base s' = mr_base s"
      "mr_nid s' = mr_nid s" "mr_flags s' = mr_flags s"
      using merge_list_Cons by blast
    with "1.IH"(2) [OF False] False show ?thesis by (simp add: compatible_def [of r s']) (simp add: compatible_def)
  qed (use 1 in simp)
qed auto

lemma merge_list_sizes [simp]: "sizes (merge_list rs) = sizes rs"
  by (induction rs rule: merge_list.induct) auto

lemma merge_list_amap: "ordered rs \<Longrightarrow> amap (merge_list rs) a = amap rs a"
proof (induction rs rule: merge_list.induct)
  case (1 r s rs)
  show ?case
  proof (cases "compatible r s")
    case True
    then have "ordered (r\<lparr>mr_size := mr_size r + mr_size s\<rparr> # rs)"
      using "1.prems" by (auto simp: ordered_Cons mr_end_grow)
    moreover have "covers (r\<lparr>mr_size := mr_size r + mr_size s\<rparr>) a \<longleftrightarrow> covers r a \<or> covers s a"
      using True by (auto simp: covers_def compatible_def mr_end_def)
    ultimately show ?thesis using "1.IH"(1) True by (auto simp: compatible_def)
  qed (use 1 in \<open>auto simp: ordered_Cons\<close>)
qed auto

lemma merge_list_bases: "mr_base ` set (merge_list rs) \<subseteq> mr_base ` set rs"
proof (induction rs rule: merge_list.induct)
  case (1 r s rs)
  then show ?case by (cases "compatible r s") auto
qed auto

lemma merge_list_ordered: "ordered rs \<Longrightarrow> ordered (merge_list rs)"
proof (induction rs rule: merge_list.induct)
  case (1 r s rs)
  show ?case
  proof (cases "compatible r s")
    case True
    then have "ordered (r\<lparr>mr_size := mr_size r + mr_size s\<rparr> # rs)"
      using "1.prems" by (auto simp: ordered_Cons mr_end_grow)
    then show ?thesis using "1.IH"(1) True by simp
  next
    case False
    with 1 have "ordered (s # rs)" "ordered (merge_list (s # rs))" by (simp_all add: ordered_Cons)
    moreover have "\<forall>x\<in>set (s # rs). mr_end r \<le> mr_base x" using "1.prems" by (simp add: ordered_Cons)
    moreover have "\<forall>x\<in>set (merge_list (s # rs)). mr_end r \<le> mr_base x"
      using calculation(3) merge_list_bases [of "s # rs"] by force
    ultimately show ?thesis
      using False "1.prems" by (simp add: ordered_Cons [of r])
  qed
qed auto

lemma merge_list_nonempty: "nonempty rs \<Longrightarrow> nonempty (merge_list rs)"
  by (induction rs rule: merge_list.induct) (auto simp: nonempty_def)

lemma merge_list_neq_Nil [simp]: "merge_list rs = [] \<longleftrightarrow> rs = []"
  by (induction rs rule: merge_list.induct) auto

lemma live_split_nth:
  assumes "wf_array t" "live t = pre @ r # suf" "length pre = i"
  shows "i < mt_cnt t" "mt_regions t ! i = r" "mt_cnt t = Suc (i + length suf)"
proof -
  show "mt_cnt t = Suc (i + length suf)" using length_live [OF assms(1)] assms by simp
  then show "i < mt_cnt t" by simp
  then show "mt_regions t ! i = r" using assms by (simp add: regions_nth_live nth_append)
qed

lemma merge_step_arr:
  assumes "wf_array t" "live t = pre @ r # s # suf" "length pre = i"
    and "t' = t\<lparr>mt_regions := memmove ((mt_regions t)[i := r\<lparr>mr_size := u64_add (mr_size r) (mr_size s)\<rparr>])
           (i + 1) (i + 2) (mt_cnt t - (i + 2)), mt_cnt := mt_cnt t - 1\<rparr>"
    and "mr_size r + mr_size s < u64_lim"
  shows "arr_upd t (pre @ r\<lparr>mr_size := mr_size r + mr_size s\<rparr> # suf) t'"
proof -
  let ?r = "r\<lparr>mr_size := u64_add (mr_size r) (mr_size s)\<rparr>"
  have cnt: "mt_cnt t = Suc (Suc (i + length suf))"
    using live_split_nth(3) [OF assms(1-3)] by simp
  have len: "length (mt_regions t) = mt_max t" "mt_cnt t \<le> mt_max t"
    and tot: "mt_total_size t = sizes (live t) mod u64_lim"
    using assms(1) by (auto simp: wf_array_def)
  have "take (mt_cnt t) ((mt_regions t)[i := ?r]) = pre @ ?r # s # suf"
    using assms(2,3) by (simp add: take_update_swap live_def list_update_append)
  then have "live t' = pre @ ?r # suf"
    using memmove_remove [of "i + 1" "mt_cnt t" "(mt_regions t)[i := ?r]"] cnt len assms(3,4)
    by (simp add: live_def)
  then show ?thesis
    using assms(2,4,5) cnt len tot
    by (simp add: arr_upd_def wf_array_def u64_add_eq length_memmove add.assoc)
qed

lemma merge_from_arr:
  assumes "wf_array t" "live t = pre @ suf" "length pre = i" "ordered suf"
  shows "\<exists>t'. memblock_merge_from i t = Inr t' \<and> arr_upd t (pre @ merge_list suf) t'"
  using assms
proof (induction suf arbitrary: t pre i rule: merge_list.induct)
  case (1 r s rs)
  have i: "mt_regions t ! i = r" "mt_cnt t = Suc (Suc (i + length rs))"
    using live_split_nth [OF "1.prems"(1-3)] by auto
  have i1: "mt_regions t ! (i + 1) = s"
    using live_split_nth(2) [of t "pre @ [r]" s rs] "1.prems" by simp
  have e: "u64_add (mr_base r) (mr_size r) = mr_end r" "mr_end r \<le> mr_base s"
    using "1.prems"(4) by (auto simp: ordered_Cons u64_add_mr_end)
  show ?case
  proof (cases "compatible r s")
    case True
    define t1 where "t1 = t\<lparr>mt_regions := memmove ((mt_regions t)
        [i := r\<lparr>mr_size := u64_add (mr_size r) (mr_size s)\<rparr>]) (i + 1) (i + 2) (mt_cnt t - (i + 2)),
      mt_cnt := mt_cnt t - 1\<rparr>"
    let ?r = "r\<lparr>mr_size := mr_size r + mr_size s\<rparr>"
    have "mr_end s \<le> PHYS_ADDR_MAX" using "1.prems"(4) by (simp add: ordered_Cons)
    then have "mr_size r + mr_size s < u64_lim"
      using True by (simp add: compatible_def mr_end_def less_u64_lim_iff)
    then have u: "arr_upd t (pre @ ?r # rs) t1"
      using merge_step_arr [OF "1.prems"(1-3)] t1_def by blast
    moreover have "ordered (?r # rs)"
      using "1.prems"(4) True by (auto simp: ordered_Cons mr_end_grow)
    ultimately obtain t' where "memblock_merge_from i t1 = Inr t'" "arr_upd t1 (pre @ merge_list (?r # rs)) t'"
      using "1.IH"(1) [OF True, of t1 pre i] "1.prems"(3) by (auto dest: arr_updD)
    moreover have "memblock_merge_from i t = memblock_merge_from i t1"
      using True i i1 e t1_def
      by (subst memblock_merge_from.simps) (simp add: Let_def compatible_def memblock_get_region_node_def)
    ultimately show ?thesis using u True by (auto intro: arr_upd_trans)
  next
    case False
    then have "memblock_merge_from i t = memblock_merge_from (i + 1) t"
      using i i1 e by (subst memblock_merge_from.simps)
        (auto simp: Let_def compatible_def memblock_get_region_node_def)
    moreover have "ordered (s # rs)" using "1.prems"(4) by (simp add: ordered_Cons)
    ultimately show ?thesis
      using "1.IH"(2) [OF False, of t "pre @ [r]" "i + 1"] "1.prems" False by simp
  qed
next
  case "2_1"
  then show ?case
    using arr_upd_refl [of t] length_live [of t] by (subst memblock_merge_from.simps) simp
next
  case "2_2"
  then show ?case
    using arr_upd_refl [of t] length_live [of t] by (subst memblock_merge_from.simps) simp
qed

lemma merge_regions_arr:
  assumes "wf_array t" "ordered (live t)"
  obtains t' where "memblock_merge_regions t = Inr t'" "arr_upd t (merge_list (live t)) t'"
  using merge_from_arr [of t "[]" "live t" 0] assms by (auto simp: memblock_merge_regions_def)

section \<open>Searching\<close>

lemma overlaps_scan_less:
  "overlaps_scan t b sz i < mt_cnt t \<longleftrightarrow>
    (\<exists>j\<ge>i. j < mt_cnt t \<and> memblock_addrs_overlap b sz (mr_base (mt_regions t ! j)) (mr_size (mt_regions t ! j)))"
proof (induction t b sz i rule: overlaps_scan.induct)
  case (1 t b sz i)
  let ?ov = "\<lambda>j. memblock_addrs_overlap b sz (mr_base (mt_regions t ! j)) (mr_size (mt_regions t ! j))"
  show ?case
  proof (cases "i < mt_cnt t \<and> \<not> ?ov i")
    case True
    then have "(\<exists>j\<ge>i + 1. j < mt_cnt t \<and> ?ov j) \<longleftrightarrow> (\<exists>j\<ge>i. j < mt_cnt t \<and> ?ov j)"
      by (metis Suc_eq_plus1 Suc_leD Suc_leI le_neq_implies_less)
    with 1 True show ?thesis by (simp add: overlaps_scan.simps [of t b sz i])
  qed (auto simp: overlaps_scan.simps [of t b sz i])
qed

lemma search_loop_correct:
  assumes "wf_array t" "ordered (live t)" "left < right" "right \<le> mt_cnt t"
    and "\<forall>j<left. mr_end (live t ! j) \<le> a" "\<forall>j\<ge>right. j < mt_cnt t \<longrightarrow> a < mr_base (live t ! j)"
  shows "(\<exists>i<mt_cnt t. memblock_search_loop t a left right = int i \<and> covers (live t ! i) a) \<or>
    (memblock_search_loop t a left right = -1 \<and> (\<forall>i<mt_cnt t. \<not> covers (live t ! i) a))"
  using assms
proof (induction t a left right rule: memblock_search_loop.induct)
  case (1 t a left right)
  let ?m = "(right + left) div 2"
  let ?r = "live t ! ?m"
  have m: "left \<le> ?m" "?m < right" "?m < mt_cnt t" using "1.prems"(3,4) by auto
  have nth: "mt_regions t ! ?m = ?r" using m by (simp add: regions_nth_live)
  have len: "length (live t) = mt_cnt t" using "1.prems"(1) by simp
  have e: "u64_add (mr_base ?r) (mr_size ?r) = mr_end ?r"
    using "1.prems"(2) m len by (simp add: ordered_end_le u64_add_mr_end)
  consider "a < mr_base ?r" | "mr_end ?r \<le> a" "\<not> a < mr_base ?r" | "covers ?r a"
    unfolding covers_def by linarith
  then show ?case
  proof cases
    case 1
    have up: "\<forall>j\<ge>?m. j < mt_cnt t \<longrightarrow> a < mr_base (live t ! j)"
    proof (intro allI impI)
      fix j assume "?m \<le> j" "j < mt_cnt t"
      then have "?m = j \<or> mr_end ?r \<le> mr_base (live t ! j)"
        using ordered_nth_less [OF "1.prems"(2), of ?m j] len by linarith
      then show "a < mr_base (live t ! j)"
        using 1 mr_base_le_end [of ?r] by (metis order.strict_trans2)
    qed
    show ?thesis
    proof (cases "left < ?m")
      case True
      then show ?thesis
        using "1.IH"(1) [of ?m] 1 nth "1.prems" m up
        by (subst (1 2) memblock_search_loop.simps) (simp add: Let_def)
    next
      case False
      with m(1) have "?m = left" by simp
      then have "\<forall>i<mt_cnt t. \<not> covers (live t ! i) a"
        using up "1.prems"(5) by (metis covers_def leD not_less)
      then show ?thesis
        using False 1 nth by (subst (1 2) memblock_search_loop.simps) (simp add: Let_def)
    qed
  next
    case 2
    have down: "\<forall>j<Suc ?m. mr_end (live t ! j) \<le> a"
    proof (intro allI impI)
      fix j assume "j < Suc ?m"
      then have "j = ?m \<or> mr_end (live t ! j) \<le> mr_base ?r"
        using ordered_nth_less [OF "1.prems"(2), of j ?m] len m by linarith
      then show "mr_end (live t ! j) \<le> a"
        using 2 mr_base_le_end [of ?r] by (metis order.trans)
    qed
    show ?thesis
    proof (cases "?m + 1 < right")
      case True
      then show ?thesis
        using "1.IH"(2) [of ?m] 2 nth e "1.prems" m down
        by (subst (1 2) memblock_search_loop.simps) (simp add: Let_def)
    next
      case False
      with m(2) have "Suc ?m = right" by simp
      then have "\<forall>i<mt_cnt t. \<not> covers (live t ! i) a"
        using down "1.prems"(6) by (metis covers_def leD not_less)
      then show ?thesis
        using False 2 nth e by (subst (1 2) memblock_search_loop.simps) (simp add: Let_def)
    qed
  next
    case 3
    then have "memblock_search_loop t a left right = int ?m"
      using nth e by (subst memblock_search_loop.simps) (auto simp: Let_def covers_def)
    then show ?thesis using 3 m(3) by blast
  qed
qed

lemma search_correct:
  assumes "wf_type t"
  shows "(\<exists>i<mt_cnt t. memblock_search t a = int i \<and> covers (live t ! i) a) \<or>
    (memblock_search t a = -1 \<and> amap (live t) a = None)"
  using search_loop_correct [of t 0 "mt_cnt t" a] assms
  by (auto simp: wf_type_def memblock_search_def amap_eq_None in_set_conv_nth)

section \<open>A small machine\<close>

text \<open>
  A machine with two banks of memory on two nodes and one reservation; the arrays have a few
  free slots. It serves as the concrete input of the theorems below.
\<close>

definition demo_memory :: memblock_type where
  "demo_memory = \<lparr>mt_cnt = 2, mt_max = 6, mt_total_size = 0x6000,
     mt_regions = [\<lparr>mr_base = 0x10000, mr_size = 0x4000, mr_flags = 0, mr_nid = 0\<rparr>,
                   \<lparr>mr_base = 0x18000, mr_size = 0x2000, mr_flags = 0, mr_nid = 1\<rparr>,
                   zero_region, zero_region, zero_region, zero_region],
     mt_array = Memory_init_regions, mt_name = ''memory''\<rparr>"

definition demo_reserved :: memblock_type where
  "demo_reserved = \<lparr>mt_cnt = 1, mt_max = 4, mt_total_size = 0x1000,
     mt_regions = [\<lparr>mr_base = 0x12000, mr_size = 0x1000, mr_flags = 0, mr_nid = MAX_NUMNODES\<rparr>,
                   zero_region, zero_region, zero_region],
     mt_array = Reserved_init_regions, mt_name = ''reserved''\<rparr>"

definition demo_state :: memblock_state where
  "demo_state = memblock_init\<lparr>mb_memory := demo_memory, mb_reserved := demo_reserved\<rparr>"

definition demo_full :: memblock_type where
  "demo_full = \<lparr>mt_cnt = 1, mt_max = 1, mt_total_size = 0x1000,
     mt_regions = [\<lparr>mr_base = 0x12000, mr_size = 0x1000, mr_flags = 0, mr_nid = MAX_NUMNODES\<rparr>],
     mt_array = Reserved_init_regions, mt_name = ''reserved''\<rparr>"

lemma max_numerals: "PHYS_ADDR_MAX = 18446744073709551615" "u64_lim = 18446744073709551616"
  by (simp_all add: PHYS_ADDR_MAX_def u64_lim_def)

lemma demo_state_simps [simp]:
  "mb_memory demo_state = demo_memory" "mb_reserved demo_state = demo_reserved"
  "mb_current_limit demo_state = PHYS_ADDR_MAX" "mb_bottom_up demo_state = False"
  "memblock_can_resize demo_state = False" "system_has_some_mirror demo_state = False"
  by (simp_all add: demo_state_def memblock_init_def MEMBLOCK_ALLOC_ANYWHERE_def PHYS_ADDR_MAX_def)

lemma demo_live:
  "live demo_memory = [\<lparr>mr_base = 0x10000, mr_size = 0x4000, mr_flags = 0, mr_nid = 0\<rparr>,
                       \<lparr>mr_base = 0x18000, mr_size = 0x2000, mr_flags = 0, mr_nid = 1\<rparr>]"
  "live demo_reserved = [\<lparr>mr_base = 0x12000, mr_size = 0x1000, mr_flags = 0, mr_nid = MAX_NUMNODES\<rparr>]"
  by (simp_all add: live_def demo_memory_def demo_reserved_def)

lemma demo_cnt [simp]:
  "mt_cnt demo_memory = 2" "mt_max demo_memory = 6" "mt_cnt demo_reserved = 1" "mt_max demo_reserved = 4"
  by (simp_all add: demo_memory_def demo_reserved_def)

lemma demo_full_live:
  "live demo_full = [\<lparr>mr_base = 0x12000, mr_size = 0x1000, mr_flags = 0, mr_nid = MAX_NUMNODES\<rparr>]"
  by (simp add: live_def demo_full_def)

lemma demo_full_wf: "wf_type demo_full"
  by (simp add: wf_type_def wf_array_def demo_full_live ordered_Cons nonempty_def mr_end_def max_numerals)
    (simp add: demo_full_def)

lemma demo_wf: "wf_type demo_memory" "wf_type demo_reserved"
proof -
  have "wf_array demo_memory" "wf_array demo_reserved"
    by (simp_all add: wf_array_def demo_live max_numerals) (simp_all add: demo_memory_def demo_reserved_def)
  then show "wf_type demo_memory" "wf_type demo_reserved"
    by (simp_all add: wf_type_def demo_live ordered_Cons nonempty_def mr_end_def max_numerals)
qed

section \<open>Properties\<close>

text \<open>
  C22: The binary search of \<^verbatim>\<open>memblock_search\<close> returns the index of the region that holds the
  address, and \<^verbatim>\<open>-1\<close> exactly when no region does.
\<close>

theorem memblock_search_correct:
  assumes "wf_type t"
  shows "(\<exists>i<mt_cnt t. memblock_search t a = int i \<and> covers (live t ! i) a \<and>
      amap (live t) a = Some (mr_nid (live t ! i), mr_flags (live t ! i))) \<or>
    (memblock_search t a = -1 \<and> amap (live t) a = None)"
  using search_correct [OF assms, of a] amap_nth [of "live t" _ a] assms by (auto simp: wf_type_def)

theorem memblock_search_correct_witness:
  "(\<exists>i<mt_cnt demo_memory. memblock_search demo_memory 0x18001 = int i \<and> covers (live demo_memory ! i) 0x18001 \<and>
      amap (live demo_memory) 0x18001 = Some (mr_nid (live demo_memory ! i), mr_flags (live demo_memory ! i))) \<or>
    (memblock_search demo_memory 0x18001 = -1 \<and> amap (live demo_memory) 0x18001 = None)"
  by (rule memblock_search_correct) (rule demo_wf)

text \<open>
  C23: \<^verbatim>\<open>memblock_merge_regions\<close> never stops in its \<^verbatim>\<open>BUG_ON\<close> on a sorted array; it leaves no two
  neighbours that could be merged, and keeps the node and flags of every address, the order
  and the recorded total.
\<close>

theorem memblock_merge_regions_correct:
  assumes "wf_array t" "ordered (live t)"
  shows "\<exists>t'. memblock_merge_regions t = Inr t' \<and> wf_array t' \<and> minimal (live t') \<and> ordered (live t') \<and>
    amap (live t') = amap (live t) \<and> mt_total_size t' = mt_total_size t"
proof -
  obtain t' where t': "memblock_merge_regions t = Inr t'" "arr_upd t (merge_list (live t)) t'"
    using merge_regions_arr [OF assms] .
  then show ?thesis
    using merge_list_minimal [of "live t"] merge_list_ordered [OF assms(2)] merge_list_amap [OF assms(2)] assms(1)
    by (intro exI [of _ t']) (auto simp: arr_upd_def wf_array_def)
qed

theorem memblock_merge_regions_correct_witness:
  "\<exists>t'. memblock_merge_regions demo_memory = Inr t' \<and> wf_array t' \<and> minimal (live t') \<and> ordered (live t') \<and>
    amap (live t') = amap (live demo_memory) \<and> mt_total_size t' = mt_total_size demo_memory"
  by (rule memblock_merge_regions_correct) (use demo_wf in \<open>simp_all add: wf_type_def\<close>)

end
