(* ===== verification/Memblock_Find.thy ===== *)
theory Memblock_Find
  imports Memblock_Types
begin

text \<open>
  The iterators over free memory and the search for a free area (\<^verbatim>\<open>mm/memblock.c\<close>):
  \<^verbatim>\<open>__next_mem_range\<close> and \<^verbatim>\<open>__next_mem_range_rev\<close> walk the memory regions and the gaps between
  reserved regions in lockstep and keep both positions in one 64-bit index;
  \<^verbatim>\<open>memblock_find_in_range_node\<close> and its callers run them until an area fits.

  The lemmas relate the walk to \<open>isect\<close>, an intersection of two sorted lists, and
  \<open>isect\<close> to the set of free addresses.
\<close>

section \<open>The surroundings\<close>

text \<open>
  What the code takes from outside \<^verbatim>\<open>mm/memblock.c\<close>: the end of the kernel image (a linker
  symbol), the \<^verbatim>\<open>movable_node\<close> option, the slab allocator (whether it is up, and the
  physical address a \<^verbatim>\<open>kmalloc\<close> of a given size yields, 0 for none), the cache line size,
  and a bound for the mutual recursion of \<^verbatim>\<open>memblock_double_array\<close> and
  \<^verbatim>\<open>memblock_add_range\<close>.
\<close>

record boot_env =
  env_kernel_end :: u64
  env_movable_node :: bool
  env_slab_is_available :: bool
  env_kmalloc :: "u64 \<Rightarrow> u64"
  env_kzalloc_node :: "u64 \<Rightarrow> int \<Rightarrow> u64"
  env_smp_cache_bytes :: u64
  env_fuel :: nat

definition demo_env :: boot_env where
  "demo_env = \<lparr>env_kernel_end = 0x11000, env_movable_node = False, env_slab_is_available = False,
     env_kmalloc = (\<lambda>_. 0), env_kzalloc_node = (\<lambda>_ _. 0), env_smp_cache_bytes = 64, env_fuel = 3\<rparr>"

section \<open>Iterators\<close>

text \<open>A 32-bit value read as a C \<^verbatim>\<open>int\<close>, and the two indices packed into a \<^verbatim>\<open>u64\<close>.\<close>

definition s32_of :: "nat \<Rightarrow> int" where
  "s32_of n = (let k = n mod 2 ^ 32 in if k < 2 ^ 31 then int k else int k - 2 ^ 32)"

definition pack_idx :: "int \<Rightarrow> int \<Rightarrow> u64" where
  "pack_idx idx_a idx_b = nat (idx_a mod 2 ^ 32) OR push_bit 32 (nat (idx_b mod 2 ^ 32))"

definition idx_a_of :: "u64 \<Rightarrow> int" where
  "idx_a_of idx = s32_of (idx AND 0xffffffff)"

definition idx_b_of :: "u64 \<Rightarrow> int" where
  "idx_b_of idx = s32_of (drop_bit 32 idx)"

text \<open>The four tests that make the iterators pass over a memory region.\<close>

definition mem_range_skip :: "boot_env \<Rightarrow> int \<Rightarrow> memblock_flags \<Rightarrow> memblock_region \<Rightarrow> bool" where
  "mem_range_skip env nid flags m \<longleftrightarrow>
     (nid \<noteq> NUMA_NO_NODE \<and> nid \<noteq> memblock_get_region_node m) \<or>
     (env_movable_node env \<and> memblock_is_hotpluggable m) \<or>
     (flags AND MEMBLOCK_MIRROR \<noteq> 0 \<and> \<not> memblock_is_mirror m) \<or>
     (\<not> (flags AND MEMBLOCK_NOMAP \<noteq> 0) \<and> memblock_is_nomap m)"

text \<open>The area before reservation number \<open>idx_b\<close>, or after the last one.\<close>

definition area_start :: "memblock_type \<Rightarrow> int \<Rightarrow> u64" where
  "area_start type_b idx_b =
     (if idx_b \<noteq> 0 then u64_add (mr_base (mt_regions type_b ! nat (idx_b - 1)))
                          (mr_size (mt_regions type_b ! nat (idx_b - 1)))
      else 0)"

definition area_end :: "memblock_type \<Rightarrow> int \<Rightarrow> u64" where
  "area_end type_b idx_b =
     (if idx_b < int (mt_cnt type_b) then mr_base (mt_regions type_b ! nat idx_b) else PHYS_ADDR_MAX)"

text \<open>
  The inner loop of \<^verbatim>\<open>__next_mem_range\<close>: the index it stops at, and the area if it
  intersects the memory region. The comparisons of an \<^verbatim>\<open>int\<close> index with the unsigned
  \<^verbatim>\<open>cnt\<close> fail for negative indices.
\<close>

function scan_areas :: "memblock_type \<Rightarrow> u64 \<Rightarrow> u64 \<Rightarrow> int \<Rightarrow> int \<times> (u64 \<times> u64) option" where
  "scan_areas type_b m_start m_end idx_b =
     (if 0 \<le> idx_b \<and> idx_b < int (mt_cnt type_b) + 1 then
        let r_start = area_start type_b idx_b; r_end = area_end type_b idx_b in
        if r_start \<ge> m_end then (idx_b, None)
        else if m_start < r_end then (idx_b, Some (r_start, r_end))
        else scan_areas type_b m_start m_end (idx_b + 1)
      else (idx_b, None))"
  by pat_completeness auto
termination
  by (relation "measure (\<lambda>(t, s, e, b). nat (int (mt_cnt t) + 1 - b))") auto

declare scan_areas.simps [simp del]

function next_mem_range_from :: "boot_env \<Rightarrow> int \<Rightarrow> memblock_flags \<Rightarrow> memblock_type \<Rightarrow>
    memblock_type option \<Rightarrow> int \<Rightarrow> int \<Rightarrow> u64 \<times> (u64 \<times> u64 \<times> int) option" where
  "next_mem_range_from env nid flags type_a type_b idx_a idx_b =
     (if 0 \<le> idx_a \<and> idx_a < int (mt_cnt type_a) then
        let m = mt_regions type_a ! nat idx_a;
            m_start = mr_base m;
            m_end = u64_add (mr_base m) (mr_size m);
            m_nid = memblock_get_region_node m in
        if mem_range_skip env nid flags m
        then next_mem_range_from env nid flags type_a type_b (idx_a + 1) idx_b
        else (case type_b of
           None \<Rightarrow> (pack_idx (idx_a + 1) idx_b, Some (m_start, m_end, m_nid))
         | Some tb \<Rightarrow>
             (case scan_areas tb m_start m_end idx_b of
                (b, Some (r_start, r_end)) \<Rightarrow>
                  (if m_end \<le> r_end then pack_idx (idx_a + 1) b else pack_idx idx_a (b + 1),
                   Some (max m_start r_start, min m_end r_end, m_nid))
              | (b, None) \<Rightarrow> next_mem_range_from env nid flags type_a type_b (idx_a + 1) b))
      else (ULLONG_MAX, None))"
  by pat_completeness auto
termination
  by (relation "measure (\<lambda>(env, nid, flags, ta, tb, a, b). nat (int (mt_cnt ta) - a))") auto

declare next_mem_range_from.simps [simp del]

definition next_mem_range :: "boot_env \<Rightarrow> int \<Rightarrow> memblock_flags \<Rightarrow> memblock_type \<Rightarrow>
    memblock_type option \<Rightarrow> u64 \<Rightarrow> u64 \<times> (u64 \<times> u64 \<times> int) option" where
  "next_mem_range env nid flags type_a type_b idx =
     next_mem_range_from env (if nid = MAX_NUMNODES then NUMA_NO_NODE else nid) flags type_a type_b
       (idx_a_of idx) (idx_b_of idx)"

text \<open>The same two loops running downwards.\<close>

function scan_areas_rev :: "memblock_type \<Rightarrow> u64 \<Rightarrow> u64 \<Rightarrow> int \<Rightarrow> int \<times> (u64 \<times> u64) option" where
  "scan_areas_rev type_b m_start m_end idx_b =
     (if idx_b \<ge> 0 then
        let r_start = area_start type_b idx_b; r_end = area_end type_b idx_b in
        if r_end \<le> m_start then (idx_b, None)
        else if m_end > r_start then (idx_b, Some (r_start, r_end))
        else scan_areas_rev type_b m_start m_end (idx_b - 1)
      else (idx_b, None))"
  by pat_completeness auto
termination
  by (relation "measure (\<lambda>(t, s, e, b). nat (b + 1))") auto

declare scan_areas_rev.simps [simp del]

function next_mem_range_rev_from :: "boot_env \<Rightarrow> int \<Rightarrow> memblock_flags \<Rightarrow> memblock_type \<Rightarrow>
    memblock_type option \<Rightarrow> int \<Rightarrow> int \<Rightarrow> u64 \<times> (u64 \<times> u64 \<times> int) option" where
  "next_mem_range_rev_from env nid flags type_a type_b idx_a idx_b =
     (if idx_a \<ge> 0 then
        let m = mt_regions type_a ! nat idx_a;
            m_start = mr_base m;
            m_end = u64_add (mr_base m) (mr_size m);
            m_nid = memblock_get_region_node m in
        if mem_range_skip env nid flags m
        then next_mem_range_rev_from env nid flags type_a type_b (idx_a - 1) idx_b
        else (case type_b of
           None \<Rightarrow> (pack_idx (idx_a - 1) idx_b, Some (m_start, m_end, m_nid))
         | Some tb \<Rightarrow>
             (case scan_areas_rev tb m_start m_end idx_b of
                (b, Some (r_start, r_end)) \<Rightarrow>
                  (if m_start \<ge> r_start then pack_idx (idx_a - 1) b else pack_idx idx_a (b - 1),
                   Some (max m_start r_start, min m_end r_end, m_nid))
              | (b, None) \<Rightarrow> next_mem_range_rev_from env nid flags type_a type_b (idx_a - 1) b))
      else (ULLONG_MAX, None))"
  by pat_completeness auto
termination
  by (relation "measure (\<lambda>(env, nid, flags, ta, tb, a, b). nat (a + 1))") auto

declare next_mem_range_rev_from.simps [simp del]

definition next_mem_range_rev :: "boot_env \<Rightarrow> int \<Rightarrow> memblock_flags \<Rightarrow> memblock_type \<Rightarrow>
    memblock_type option \<Rightarrow> u64 \<Rightarrow> u64 \<times> (u64 \<times> u64 \<times> int) option" where
  "next_mem_range_rev env nid flags type_a type_b idx =
     (let nid' = (if nid = MAX_NUMNODES then NUMA_NO_NODE else nid) in
      if idx = ULLONG_MAX
      then next_mem_range_rev_from env nid' flags type_a type_b (int (mt_cnt type_a) - 1)
             (case type_b of Some tb \<Rightarrow> int (mt_cnt tb) | None \<Rightarrow> 0)
      else next_mem_range_rev_from env nid' flags type_a type_b (idx_a_of idx) (idx_b_of idx))"

text \<open>
  The loops \<^verbatim>\<open>for_each_mem_range\<close> and \<^verbatim>\<open>for_each_mem_range_rev\<close>: call the step function until
  it signals the end with \<^const>\<open>ULLONG_MAX\<close> or the loop body returns a value. The first
  argument bounds the number of steps.
\<close>

fun for_each_mem_range :: "nat \<Rightarrow> (u64 \<Rightarrow> u64 \<times> (u64 \<times> u64 \<times> int) option) \<Rightarrow>
    (u64 \<Rightarrow> u64 \<Rightarrow> u64 option) \<Rightarrow> u64 \<Rightarrow> u64 run" where
  "for_each_mem_range 0 next_range body i = Inl No_fuel"
| "for_each_mem_range (Suc n) next_range body i =
     (case next_range i of
        (i', Some (this_start, this_end, _)) \<Rightarrow>
          (if i' = ULLONG_MAX then Inr 0
           else (case body this_start this_end of
                   Some ret \<Rightarrow> Inr ret
                 | None \<Rightarrow> for_each_mem_range n next_range body i'))
      | (i', None) \<Rightarrow> Inr 0)"

definition range_steps :: "memblock_state \<Rightarrow> nat" where
  "range_steps s = mt_cnt (mb_memory s) + mt_cnt (mb_reserved s) + 3"

section \<open>Finding a free area\<close>

definition choose_memblock_flags :: "memblock_state \<Rightarrow> memblock_flags" where
  "choose_memblock_flags s = (if system_has_some_mirror s then MEMBLOCK_MIRROR else MEMBLOCK_NONE)"

definition memblock_find_range_bottom_up :: "boot_env \<Rightarrow> memblock_state \<Rightarrow> u64 \<Rightarrow> u64 \<Rightarrow> u64 \<Rightarrow>
    u64 \<Rightarrow> int \<Rightarrow> memblock_flags \<Rightarrow> u64 run" where
  "memblock_find_range_bottom_up env s start end sz align nid flags =
     for_each_mem_range (range_steps s)
       (next_mem_range env nid flags (mb_memory s) (Some (mb_reserved s)))
       (\<lambda>this_start this_end.
          let this_start = clamp this_start start end;
              this_end = clamp this_end start end;
              cand = round_up this_start align in
          if cand < this_end \<and> u64_sub this_end cand \<ge> sz then Some cand else None)
       0"

definition memblock_find_range_top_down :: "boot_env \<Rightarrow> memblock_state \<Rightarrow> u64 \<Rightarrow> u64 \<Rightarrow> u64 \<Rightarrow>
    u64 \<Rightarrow> int \<Rightarrow> memblock_flags \<Rightarrow> u64 run" where
  "memblock_find_range_top_down env s start end sz align nid flags =
     for_each_mem_range (range_steps s)
       (next_mem_range_rev env nid flags (mb_memory s) (Some (mb_reserved s)))
       (\<lambda>this_start this_end.
          let this_start = clamp this_start start end;
              this_end = clamp this_end start end in
          if this_end < sz then None
          else let cand = round_down (u64_sub this_end sz) align in
               if cand \<ge> this_start then Some cand else None)
       ULLONG_MAX"

definition memblock_find_in_range_node :: "boot_env \<Rightarrow> memblock_state \<Rightarrow> u64 \<Rightarrow> u64 \<Rightarrow> u64 \<Rightarrow> u64 \<Rightarrow>
    int \<Rightarrow> memblock_flags \<Rightarrow> u64 run" where
  "memblock_find_in_range_node env s sz align start end nid flags =
     (let end = (if end = MEMBLOCK_ALLOC_ACCESSIBLE then mb_current_limit s else end);
          start = max start PAGE_SIZE;
          end = max start end;
          kernel_end = env_kernel_end env;
          top_down = memblock_find_range_top_down env s start end sz align nid flags in
      if mb_bottom_up s \<and> end > kernel_end then
        run_bind (memblock_find_range_bottom_up env s (max start kernel_end) end sz align nid flags)
          (\<lambda>ret. if ret \<noteq> 0 then Inr ret else top_down)
      else top_down)"

definition memblock_find_in_range :: "boot_env \<Rightarrow> memblock_state \<Rightarrow> u64 \<Rightarrow> u64 \<Rightarrow> u64 \<Rightarrow> u64 \<Rightarrow> u64 run" where
  "memblock_find_in_range env s start end sz align =
     (let flags = choose_memblock_flags s in
      run_bind (memblock_find_in_range_node env s sz align start end NUMA_NO_NODE flags)
        (\<lambda>ret. if ret = 0 \<and> flags AND MEMBLOCK_MIRROR \<noteq> 0
               then memblock_find_in_range_node env s sz align start end NUMA_NO_NODE
                      (flags AND NOT MEMBLOCK_MIRROR)
               else Inr ret))"

section \<open>The walk as an intersection of sorted lists\<close>

fun gaps_from :: "u64 \<Rightarrow> memblock_region list \<Rightarrow> (u64 \<times> u64) list" where
  "gaps_from lo [] = [(lo, PHYS_ADDR_MAX)]"
| "gaps_from lo (r # rs) = (lo, mr_base r) # gaps_from (mr_end r) rs"

definition piece :: "memblock_region \<Rightarrow> u64 \<times> u64 \<Rightarrow> u64 \<times> u64 \<times> int" where
  "piece m g = (max (mr_base m) (fst g), min (mr_end m) (snd g), mr_nid m)"

fun isect :: "(memblock_region \<Rightarrow> bool) \<Rightarrow> memblock_region list \<Rightarrow> (u64 \<times> u64) list \<Rightarrow>
    (u64 \<times> u64 \<times> int) list" where
  "isect skip (m # ms) (g # gs) =
     (if skip m \<or> fst g \<ge> mr_end m then isect skip ms (g # gs)
      else if mr_base m < snd g then
        piece m g #
        (if mr_end m \<le> snd g then isect skip ms (g # gs) else isect skip (m # ms) gs)
      else isect skip (m # ms) gs)"
| "isect skip _ _ = []"

fun isect_rev :: "(memblock_region \<Rightarrow> bool) \<Rightarrow> memblock_region list \<Rightarrow> (u64 \<times> u64) list \<Rightarrow>
    (u64 \<times> u64 \<times> int) list" where
  "isect_rev skip (m # ms) (g # gs) =
     (if skip m \<or> snd g \<le> mr_base m then isect_rev skip ms (g # gs)
      else if mr_end m > fst g then
        piece m g #
        (if mr_base m \<ge> fst g then isect_rev skip ms (g # gs) else isect_rev skip (m # ms) gs)
      else isect_rev skip (m # ms) gs)"
| "isect_rev skip _ _ = []"

definition in_range :: "u64 \<Rightarrow> u64 \<times> u64 \<Rightarrow> bool" where
  "in_range x g \<longleftrightarrow> fst g \<le> x \<and> x < snd g"

subsection \<open>The packed index\<close>

lemma pack_idx_eq: "pack_idx a b = nat (a mod 2 ^ 32) + nat (b mod 2 ^ 32) * 2 ^ 32"
proof -
  have "nat (a mod 2 ^ 32) < 2 ^ 32" by simp
  then have "nat (a mod 2 ^ 32) = take_bit 32 (nat (a mod 2 ^ 32))"
    by (metis take_bit_nat_eq_self)
  then have low: "bit (nat (a mod 2 ^ 32)) n \<Longrightarrow> n < 32" for n
    by (metis bit_take_bit_iff)
  have "nat (a mod 2 ^ 32) OR push_bit 32 (nat (b mod 2 ^ 32)) =
      nat (a mod 2 ^ 32) + push_bit 32 (nat (b mod 2 ^ 32))"
  proof (rule disjunctive_add [symmetric])
    fix n
    show "\<not> bit (nat (a mod 2 ^ 32)) n \<or> \<not> bit (push_bit 32 (nat (b mod 2 ^ 32))) n"
      using low [of n] by (metis bit_push_bit_iff_nat not_less)
  qed
  then show ?thesis by (simp only: pack_idx_def push_bit_eq_mult)
qed

lemma s32_of_nat_mod:
  assumes "- (2 ^ 31) \<le> a" "a < 2 ^ 31"
  shows "s32_of (nat (a mod 2 ^ 32)) = a"
proof (cases "0 \<le> a")
  case True
  then have "a mod 2 ^ 32 = a" using assms by (simp add: mod_pos_pos_trivial)
  then show ?thesis using True assms by (simp add: s32_of_def Let_def nat_less_iff)
next
  case False
  have "a mod 2 ^ 32 = (a + 2 ^ 32) mod 2 ^ 32" by simp
  also have "\<dots> = a + 2 ^ 32" using False assms by (intro mod_pos_pos_trivial) auto
  finally show ?thesis using False assms by (simp add: s32_of_def Let_def nat_less_iff)
qed

lemma idx_a_of_pack: "- (2 ^ 31) \<le> a \<Longrightarrow> a < 2 ^ 31 \<Longrightarrow> idx_a_of (pack_idx a b) = a"
proof -
  assume a: "- (2 ^ 31) \<le> a" "a < 2 ^ 31"
  have "(0xffffffff :: nat) = mask 32" by (simp add: mask_eq_exp_minus_1)
  then have "pack_idx a b AND 0xffffffff = pack_idx a b mod 2 ^ 32"
    by (simp only: take_bit_eq_mask [symmetric] take_bit_eq_mod)
  also have "\<dots> = nat (a mod 2 ^ 32)" by (simp add: pack_idx_eq)
  finally show ?thesis by (simp only: idx_a_of_def s32_of_nat_mod [OF a])
qed

lemma idx_b_of_pack: "- (2 ^ 31) \<le> b \<Longrightarrow> b < 2 ^ 31 \<Longrightarrow> idx_b_of (pack_idx a b) = b"
proof -
  assume b: "- (2 ^ 31) \<le> b" "b < 2 ^ 31"
  have "drop_bit 32 (pack_idx a b) = nat (b mod 2 ^ 32)"
    by (simp add: pack_idx_eq drop_bit_eq_div)
  then show ?thesis by (simp only: idx_b_of_def s32_of_nat_mod [OF b])
qed

lemma pack_idx_neq_max:
  assumes "- (2 ^ 31) \<le> a" "a < 2 ^ 31" "- (2 ^ 31) \<le> b" "b < 2 ^ 31" "a \<noteq> -1 \<or> b \<noteq> -1"
  shows "pack_idx a b \<noteq> ULLONG_MAX"
proof
  assume "pack_idx a b = ULLONG_MAX"
  moreover have "ULLONG_MAX = pack_idx (-1) (-1)"
    by (simp add: ULLONG_MAX_def u64_lim_def pack_idx_eq)
  ultimately have "a = -1" "b = -1"
    using idx_a_of_pack [OF assms(1,2), of b] idx_a_of_pack [of "-1" "-1"]
      idx_b_of_pack [OF assms(3,4), of a] idx_b_of_pack [of "-1" "-1"] by simp_all
  with assms(5) show False by simp
qed

subsection \<open>Gaps between regions\<close>

lemma length_gaps_from [simp]: "length (gaps_from lo rs) = Suc (length rs)"
  by (induction rs arbitrary: lo) auto

lemma gaps_from_nth:
  "i \<le> length rs \<Longrightarrow> gaps_from lo rs ! i =
     (if i = 0 then lo else mr_end (rs ! (i - 1)), if i < length rs then mr_base (rs ! i) else PHYS_ADDR_MAX)"
proof (induction rs arbitrary: lo i)
  case (Cons r rs)
  then show ?case by (cases i) (auto simp: nth_Cons')
qed simp

definition gap_list :: "(u64 \<times> u64) list \<Rightarrow> bool" where
  "gap_list gs \<longleftrightarrow> sorted_wrt (\<lambda>g h. snd g \<le> fst h) gs \<and> (\<forall>g\<in>set gs. fst g \<le> snd g)"

lemma gap_list_Cons:
  "gap_list (g # gs) \<longleftrightarrow> fst g \<le> snd g \<and> (\<forall>h\<in>set gs. snd g \<le> fst h) \<and> gap_list gs"
  by (auto simp: gap_list_def)

lemma gaps_from_lower:
  "ordered rs \<Longrightarrow> \<forall>r\<in>set rs. lo \<le> mr_base r \<Longrightarrow> g \<in> set (gaps_from lo rs) \<Longrightarrow> lo \<le> fst g"
proof (induction rs arbitrary: lo)
  case (Cons r rs)
  have "lo \<le> mr_end r" using Cons.prems(2) mr_base_le_end [of r] by (metis le_trans list.set_intros(1))
  moreover have "g \<in> set (gaps_from (mr_end r) rs) \<Longrightarrow> mr_end r \<le> fst g"
    using Cons.prems by (intro Cons.IH) (auto simp: ordered_Cons)
  ultimately show ?case using Cons.prems(3) by auto
qed simp

lemma gap_list_gaps_from:
  "ordered rs \<Longrightarrow> \<forall>r\<in>set rs. lo \<le> mr_base r \<Longrightarrow> lo \<le> PHYS_ADDR_MAX \<Longrightarrow> gap_list (gaps_from lo rs)"
proof (induction rs arbitrary: lo)
  case (Cons r rs)
  have "gap_list (gaps_from (mr_end r) rs)"
    using Cons.prems by (intro Cons.IH) (auto simp: ordered_Cons)
  moreover have "\<forall>h\<in>set (gaps_from (mr_end r) rs). mr_base r \<le> fst h"
    using Cons.prems gaps_from_lower [of rs "mr_end r"] mr_base_le_end [of r]
    by (metis le_trans ordered_Cons)
  ultimately show ?case using Cons.prems by (simp add: gap_list_Cons)
qed (simp add: gap_list_def)

lemma in_gaps_from:
  "ordered rs \<Longrightarrow> \<forall>r\<in>set rs. lo \<le> mr_base r \<Longrightarrow>
    (\<exists>g\<in>set (gaps_from lo rs). in_range x g) \<longleftrightarrow> lo \<le> x \<and> x < PHYS_ADDR_MAX \<and> amap rs x = None"
proof (induction rs arbitrary: lo)
  case (Cons r rs)
  have "(\<exists>g\<in>set (gaps_from (mr_end r) rs). in_range x g) \<longleftrightarrow>
      mr_end r \<le> x \<and> x < PHYS_ADDR_MAX \<and> amap rs x = None"
    using Cons.prems by (intro Cons.IH) (auto simp: ordered_Cons)
  moreover have "x < mr_base r \<Longrightarrow> amap rs x = None \<and> x < PHYS_ADDR_MAX"
  proof -
    assume x: "x < mr_base r"
    moreover have "\<forall>s\<in>set rs. mr_base r \<le> mr_base s"
      using Cons.prems(1) mr_base_le_end [of r] by (metis le_trans ordered_Cons)
    ultimately have "\<forall>s\<in>set rs. x < mr_base s" by auto
    moreover have "mr_base r \<le> PHYS_ADDR_MAX"
      using Cons.prems(1) mr_base_le_end [of r] by (metis le_trans ordered_Cons)
    ultimately show ?thesis using x amap_below [of rs x] by simp
  qed
  moreover have "lo \<le> mr_end r"
    using Cons.prems(2) mr_base_le_end [of r] by (metis le_trans list.set_intros(1))
  ultimately show ?case by (auto simp: in_range_def covers_def)
qed (simp add: in_range_def)

subsection \<open>What the intersection covers\<close>

abbreviation in_out :: "u64 \<Rightarrow> u64 \<times> u64 \<times> int \<Rightarrow> bool" where
  "in_out x out \<equiv> in_range x (fst out, fst (snd out))"

lemma in_piece: "in_out x (piece m g) \<longleftrightarrow> covers m x \<and> in_range x g"
  by (auto simp: piece_def in_range_def covers_def)

text \<open>
  Every memory region and area that overlap yield a piece, and every piece is the overlap
  of a region and an area.
\<close>

definition overlap :: "memblock_region \<Rightarrow> u64 \<times> u64 \<Rightarrow> bool" where
  "overlap m g \<longleftrightarrow> mr_base m < mr_end m \<and> fst g < snd g \<and> mr_base m < snd g \<and> fst g < mr_end m"

lemma gap_list_least: "gap_list (g # gs) \<Longrightarrow> h \<in> set (g # gs) \<Longrightarrow> fst g \<le> fst h"
  by (auto simp: gap_list_Cons intro: le_trans)

lemma isect_complete:
  assumes "ordered ms" "gap_list gs" "m \<in> set ms" "g \<in> set gs" "\<not> skip m" "overlap m g"
  shows "piece m g \<in> set (isect skip ms gs)"
  using assms
proof (induction skip ms gs rule: isect.induct)
  case (1 skip n ms h gs)
  note o = \<open>ordered (n # ms)\<close> and gl = \<open>gap_list (h # gs)\<close>
  have o': "ordered ms" and gl': "gap_list gs"
    using o gl by (simp_all add: ordered_Cons gap_list_Cons)
  have least: "fst h \<le> fst g" "mr_base n \<le> mr_base m"
    using gap_list_least [OF gl] ordered_base_least [OF o] "1.prems"(3,4) by auto
  have later_m: "m = n \<or> mr_end n \<le> mr_base m" and later_g: "g = h \<or> snd h \<le> fst g"
    using o gl "1.prems"(3,4) by (auto simp: ordered_Cons gap_list_Cons)
  note ov = "1.prems"(6) [unfolded overlap_def]
  consider (drop) "skip n \<or> fst h \<ge> mr_end n"
    | (piece_m) "\<not> (skip n \<or> mr_end n \<le> fst h)" "mr_base n < snd h" "mr_end n \<le> snd h"
    | (piece_g) "\<not> (skip n \<or> mr_end n \<le> fst h)" "mr_base n < snd h" "\<not> mr_end n \<le> snd h"
    | (next_g) "\<not> (skip n \<or> mr_end n \<le> fst h)" "\<not> mr_base n < snd h"
    by blast
  then show ?case
  proof cases
    case drop
    then have "m \<noteq> n" using least ov "1.prems"(5) by auto
    with "1.IH"(1) [OF drop o' gl] "1.prems" drop show ?thesis by simp
  next
    case piece_m
    show ?thesis
    proof (cases "m = n")
      case True
      then have "g = h" using later_g ov piece_m by auto
      then show ?thesis using True piece_m by auto
    next
      case False
      with "1.IH"(2) [OF piece_m o' gl] "1.prems" piece_m show ?thesis by simp
    qed
  next
    case piece_g
    show ?thesis
    proof (cases "g = h")
      case True
      then have "m = n" using later_m ov piece_g by auto
      then show ?thesis using True piece_g by auto
    next
      case False
      with "1.IH"(3) [OF piece_g o gl'] "1.prems" piece_g show ?thesis by simp
    qed
  next
    case next_g
    then have "g \<noteq> h" using least ov by auto
    with "1.IH"(4) [OF next_g o gl'] "1.prems" next_g show ?thesis by simp
  qed
qed auto

lemma isect_sound:
  assumes "out \<in> set (isect skip ms gs)"
  obtains m g where "m \<in> set ms" "g \<in> set gs" "\<not> skip m" "out = piece m g"
    "mr_base m < snd g" "fst g < mr_end m"
proof -
  have "\<exists>m\<in>set ms. \<exists>g\<in>set gs. \<not> skip m \<and> out = piece m g \<and> mr_base m < snd g \<and> fst g < mr_end m"
    using assms by (induction skip ms gs rule: isect.induct) (auto split: if_splits)
  then show ?thesis using that by blast
qed

lemma isect_length: "length (isect skip ms gs) \<le> length ms + length gs"
  by (induction skip ms gs rule: isect.induct) auto

lemma ordered_rev_Cons:
  "ordered (rev (m # ms)) \<longleftrightarrow> ordered (rev ms) \<and> mr_end m \<le> PHYS_ADDR_MAX \<and> (\<forall>n\<in>set ms. mr_end n \<le> mr_base m)"
  by (auto simp: ordered_append ordered_Cons)

lemma gap_list_rev_Cons:
  "gap_list (rev (g # gs)) \<longleftrightarrow> gap_list (rev gs) \<and> fst g \<le> snd g \<and> (\<forall>h\<in>set gs. snd h \<le> fst g)"
  by (auto simp: gap_list_def sorted_wrt_append)

lemma isect_rev_complete:
  assumes "ordered (rev ms)" "gap_list (rev gs)" "m \<in> set ms" "g \<in> set gs" "\<not> skip m" "overlap m g"
  shows "piece m g \<in> set (isect_rev skip ms gs)"
  using assms
proof (induction skip ms gs rule: isect_rev.induct)
  case (1 skip n ms h gs)
  note o = \<open>ordered (rev (n # ms))\<close> and gl = \<open>gap_list (rev (h # gs))\<close>
  have o': "ordered (rev ms)" and gl': "gap_list (rev gs)"
    using o gl by (simp_all only: ordered_rev_Cons gap_list_rev_Cons)
  have later_m: "m = n \<or> mr_end m \<le> mr_base n" and later_g: "g = h \<or> snd g \<le> fst h"
    using o gl "1.prems"(3,4) unfolding ordered_rev_Cons gap_list_rev_Cons by auto
  have hh: "fst h \<le> snd h" using gl unfolding gap_list_rev_Cons by simp
  note ov = "1.prems"(6) [unfolded overlap_def] and nn = mr_base_le_end [of n]
  consider (drop) "skip n \<or> snd h \<le> mr_base n"
    | (piece_m) "\<not> (skip n \<or> snd h \<le> mr_base n)" "fst h < mr_end n" "fst h \<le> mr_base n"
    | (piece_g) "\<not> (skip n \<or> snd h \<le> mr_base n)" "fst h < mr_end n" "\<not> fst h \<le> mr_base n"
    | (next_g) "\<not> (skip n \<or> snd h \<le> mr_base n)" "\<not> fst h < mr_end n"
    by blast
  then show ?case
  proof cases
    case drop
    then have "m \<noteq> n" using later_g ov hh "1.prems"(5) by auto
    with "1.IH"(1) [OF drop o' gl] "1.prems" drop show ?thesis by simp
  next
    case piece_m
    show ?thesis
    proof (cases "m = n")
      case True
      then have "g = h" using later_g ov piece_m by auto
      then show ?thesis using True piece_m by auto
    next
      case False
      with "1.IH"(2) [OF piece_m o' gl] "1.prems" piece_m show ?thesis by simp
    qed
  next
    case piece_g
    show ?thesis
    proof (cases "g = h")
      case True
      then have "m = n" using later_m ov piece_g by auto
      then show ?thesis using True piece_g by auto
    next
      case False
      with "1.IH"(3) [OF piece_g o gl'] "1.prems" piece_g show ?thesis by simp
    qed
  next
    case next_g
    have "mr_end m \<le> mr_end n" using later_m nn by (metis le_trans order_refl)
    then have "g \<noteq> h" using next_g ov by auto
    with "1.IH"(4) [OF next_g o gl'] "1.prems" next_g show ?thesis by simp
  qed
qed auto

lemma isect_rev_sound:
  assumes "out \<in> set (isect_rev skip ms gs)"
  obtains m g where "m \<in> set ms" "g \<in> set gs" "\<not> skip m" "out = piece m g"
    "mr_base m < snd g" "fst g < mr_end m"
proof -
  have "\<exists>m\<in>set ms. \<exists>g\<in>set gs. \<not> skip m \<and> out = piece m g \<and> mr_base m < snd g \<and> fst g < mr_end m"
    using assms by (induction skip ms gs rule: isect_rev.induct) (auto split: if_splits)
  then show ?thesis using that by blast
qed

lemma isect_rev_length: "length (isect_rev skip ms gs) \<le> length ms + length gs"
  by (induction skip ms gs rule: isect_rev.induct) auto

text \<open>An interval that meets no region lies in one gap.\<close>

lemma interval_in_gap:
  assumes "\<forall>r\<in>set rs. mr_end r \<le> c \<or> c + n \<le> mr_base r" "lo \<le> c" "c + n \<le> PHYS_ADDR_MAX"
  shows "\<exists>g\<in>set (gaps_from lo rs). fst g \<le> c \<and> c + n \<le> snd g"
  using assms
proof (induction rs arbitrary: lo)
  case (Cons r rs)
  show ?case
  proof (cases "mr_end r \<le> c")
    case True
    with Cons show ?thesis by auto
  next
    case False
    with Cons.prems show ?thesis by auto
  qed
qed simp

subsection \<open>The forward walk\<close>

text \<open>Two arrays whose indices fit the packed index.\<close>

definition walkable :: "memblock_type \<Rightarrow> memblock_type \<Rightarrow> bool" where
  "walkable ta tb \<longleftrightarrow> wf_array ta \<and> ordered (live ta) \<and> int (mt_cnt ta) < 2 ^ 31 - 1 \<and>
     wf_array tb \<and> ordered (live tb) \<and> int (mt_cnt tb) < 2 ^ 31 - 1"

abbreviation areas :: "memblock_type \<Rightarrow> (u64 \<times> u64) list" where
  "areas tb \<equiv> gaps_from 0 (live tb)"

lemma walkable_areas:
  assumes "walkable ta tb"
  shows "gap_list (areas tb)" "length (areas tb) = Suc (mt_cnt tb)" "length (live ta) = mt_cnt ta"
  using assms gap_list_gaps_from [of "live tb" 0] by (simp_all add: walkable_def)

lemma area_nth:
  assumes "walkable ta tb" "b \<le> mt_cnt tb"
  shows "area_start tb (int b) = fst (areas tb ! b)" "area_end tb (int b) = snd (areas tb ! b)"
proof -
  have len: "length (live tb) = mt_cnt tb" using assms by (simp add: walkable_def)
  have e: "b \<noteq> 0 \<Longrightarrow> mr_end (live tb ! (b - 1)) \<le> PHYS_ADDR_MAX"
    using assms len by (intro ordered_nth_end) (auto simp: walkable_def)
  have "nat (int b - 1) = b - 1" by simp
  then show "area_start tb (int b) = fst (areas tb ! b)"
    using assms e len
    by (simp add: area_start_def gaps_from_nth regions_nth_live u64_add_mr_end)
  show "area_end tb (int b) = snd (areas tb ! b)"
    using assms len by (simp add: area_end_def gaps_from_nth regions_nth_live)
qed

lemma mem_nth:
  assumes "walkable ta tb" "a < mt_cnt ta"
  shows "mt_regions ta ! a = live ta ! a"
    "u64_add (mr_base (live ta ! a)) (mr_size (live ta ! a)) = mr_end (live ta ! a)"
    "drop a (live ta) = live ta ! a # drop (Suc a) (live ta)"
proof -
  have len: "length (live ta) = mt_cnt ta" using assms by (simp add: walkable_def)
  show "mt_regions ta ! a = live ta ! a" using assms by (simp add: regions_nth_live)
  show "u64_add (mr_base (live ta ! a)) (mr_size (live ta ! a)) = mr_end (live ta ! a)"
    using assms len by (intro u64_add_mr_end ordered_nth_end) (auto simp: walkable_def)
  show "drop a (live ta) = live ta ! a # drop (Suc a) (live ta)"
    using assms len by (simp add: Cons_nth_drop_Suc)
qed

lemma scan_areas_step:
  assumes "walkable ta tb" "b \<le> mt_cnt tb"
  shows "scan_areas tb ms me (int b) =
      (if fst (areas tb ! b) \<ge> me then (int b, None)
       else if ms < snd (areas tb ! b) then (int b, Some (areas tb ! b))
       else scan_areas tb ms me (int (Suc b)))"
    "drop b (areas tb) = areas tb ! b # drop (Suc b) (areas tb)"
proof -
  show "scan_areas tb ms me (int b) =
      (if fst (areas tb ! b) \<ge> me then (int b, None)
       else if ms < snd (areas tb ! b) then (int b, Some (areas tb ! b))
       else scan_areas tb ms me (int (Suc b)))"
    using assms(2) by (subst scan_areas.simps) (simp add: area_nth [OF assms] add.commute)
  show "drop b (areas tb) = areas tb ! b # drop (Suc b) (areas tb)"
    using assms walkable_areas(2) [OF assms(1)] by (simp add: Cons_nth_drop_Suc)
qed

text \<open>
  The inner loop moves over areas that the intersection moves over too, and stops either
  where the memory region is exhausted or at the next area that meets it.
\<close>

lemma scan_areas_isect:
  assumes w: "walkable ta tb" and a: "a < mt_cnt ta" and m: "m = live ta ! a" "\<not> skip m"
    and "b \<le> Suc (mt_cnt tb)"
  obtains b' where "b \<le> b'" "b' \<le> Suc (mt_cnt tb)"
    "isect skip (drop a (live ta)) (drop b (areas tb)) = isect skip (drop a (live ta)) (drop b' (areas tb))"
    "scan_areas tb (mr_base m) (mr_end m) (int b) = (int b', None) \<and>
      isect skip (drop a (live ta)) (drop b' (areas tb)) = isect skip (drop (Suc a) (live ta)) (drop b' (areas tb)) \<or>
     b' \<le> mt_cnt tb \<and> fst (areas tb ! b') < mr_end m \<and> mr_base m < snd (areas tb ! b') \<and>
      scan_areas tb (mr_base m) (mr_end m) (int b) = (int b', Some (areas tb ! b'))"
proof -
  note d = mem_nth(3) [OF w a]
  have "\<exists>b'\<ge>b. b' \<le> Suc (mt_cnt tb) \<and>
    isect skip (drop a (live ta)) (drop b (areas tb)) = isect skip (drop a (live ta)) (drop b' (areas tb)) \<and>
    (scan_areas tb (mr_base m) (mr_end m) (int b) = (int b', None) \<and>
      isect skip (drop a (live ta)) (drop b' (areas tb)) = isect skip (drop (Suc a) (live ta)) (drop b' (areas tb)) \<or>
     b' \<le> mt_cnt tb \<and> fst (areas tb ! b') < mr_end m \<and> mr_base m < snd (areas tb ! b') \<and>
      scan_areas tb (mr_base m) (mr_end m) (int b) = (int b', Some (areas tb ! b')))"
    using assms(5)
  proof (induction "Suc (mt_cnt tb) - b" arbitrary: b)
    case 0
    then have b: "b = Suc (mt_cnt tb)" by simp
    then have "scan_areas tb (mr_base m) (mr_end m) (int b) = (int b, None)"
      by (subst scan_areas.simps) simp
    moreover have "drop b (areas tb) = []" using b walkable_areas(2) [OF w] by simp
    ultimately show ?case using b by (intro exI [of _ b]) auto
  next
    case (Suc n)
    then have b: "b \<le> mt_cnt tb" by simp
    let ?g = "areas tb ! b"
    note s = scan_areas_step [OF w b]
    show ?case
    proof (cases "fst ?g < mr_end m \<and> \<not> mr_base m < snd ?g")
      case True
      then have "isect skip (drop a (live ta)) (drop b (areas tb)) =
          isect skip (drop a (live ta)) (drop (Suc b) (areas tb))"
        using s(2) m d by simp
      moreover have "scan_areas tb (mr_base m) (mr_end m) (int b) =
          scan_areas tb (mr_base m) (mr_end m) (int (Suc b))"
        using s(1) [of "mr_base m" "mr_end m"] True by simp
      moreover have "n = Suc (mt_cnt tb) - Suc b" using Suc.hyps(2) by simp
      ultimately show ?thesis using Suc.hyps(1) [of "Suc b"] b by (metis Suc_leD Suc_le_mono)
    next
      case False
      then show ?thesis
        using s(1) [of "mr_base m" "mr_end m"] s(2) b m d
        by (intro exI [of _ b]) (auto simp: not_less)
    qed
  qed
  then show ?thesis using that by blast
qed

lemma isect_Nil2 [simp]: "isect skip ms [] = []"
  by (cases ms) auto

lemma isect_skip: "skip m \<Longrightarrow> isect skip (m # ms) gs = isect skip ms gs"
  by (cases gs) auto

text \<open>The result \<open>res\<close> of one step when the outputs \<open>outs\<close> are still to come.\<close>

definition steps_to :: "memblock_type \<Rightarrow> memblock_type \<Rightarrow> (memblock_region \<Rightarrow> bool) \<Rightarrow>
    u64 \<times> (u64 \<times> u64 \<times> int) option \<Rightarrow> (u64 \<times> u64 \<times> int) list \<Rightarrow> bool" where
  "steps_to ta tb skip res outs \<longleftrightarrow> (case outs of
      [] \<Rightarrow> res = (ULLONG_MAX, None)
    | out # outs' \<Rightarrow> \<exists>a' b'. a' \<le> mt_cnt ta \<and> b' \<le> Suc (mt_cnt tb) \<and>
        res = (pack_idx (int a') (int b'), Some out) \<and>
        outs' = isect skip (drop a' (live ta)) (drop b' (areas tb)))"

lemma steps_toI:
  "a' \<le> mt_cnt ta \<Longrightarrow> b' \<le> Suc (mt_cnt tb) \<Longrightarrow> outs' = isect skip (drop a' (live ta)) (drop b' (areas tb)) \<Longrightarrow>
    steps_to ta tb skip (pack_idx (int a') (int b'), Some out) (out # outs')"
  by (auto simp: steps_to_def)

lemma next_from_isect:
  assumes w: "walkable ta tb" and "a \<le> mt_cnt ta" "b \<le> Suc (mt_cnt tb)"
    and skip: "skip = mem_range_skip env nid flags"
  shows "steps_to ta tb skip (next_mem_range_from env nid flags ta (Some tb) (int a) (int b))
    (isect skip (drop a (live ta)) (drop b (areas tb)))"
  using assms(2,3)
proof (induction "mt_cnt ta - a" arbitrary: a b)
  case 0
  then have a: "a = mt_cnt ta" by simp
  then have "drop a (live ta) = []" using walkable_areas(3) [OF w] by simp
  then show ?case using a by (subst next_mem_range_from.simps) (simp add: steps_to_def)
next
  case (Suc n)
  then have a: "a < mt_cnt ta" by simp
  let ?m = "live ta ! a"
  let ?next = "next_mem_range_from env nid flags ta (Some tb)"
  note mem = mem_nth [OF w a]
  have IH: "steps_to ta tb skip (?next (int (Suc a)) (int b'))
      (isect skip (drop (Suc a) (live ta)) (drop b' (areas tb)))" if "b' \<le> Suc (mt_cnt tb)" for b'
    using Suc.hyps(2) a that by (intro Suc.hyps(1)) auto
  have unf: "?next (int a) (int b) =
      (if skip ?m then ?next (int (Suc a)) (int b)
       else (case scan_areas tb (mr_base ?m) (mr_end ?m) (int b) of
              (b', Some (rs, re)) \<Rightarrow>
                (if mr_end ?m \<le> re then pack_idx (int (Suc a)) b' else pack_idx (int a) (b' + 1),
                 Some (max (mr_base ?m) rs, min (mr_end ?m) re, mr_nid ?m))
            | (b', None) \<Rightarrow> ?next (int (Suc a)) b'))"
    using a mem by (subst next_mem_range_from.simps)
      (simp add: Let_def skip memblock_get_region_node_def add.commute split: prod.splits option.splits)
  show ?case
  proof (cases "skip ?m")
    case True
    then show ?thesis using IH [of b] Suc.prems unf mem(3) by (simp add: isect_skip del: of_nat_Suc)
  next
    case False
    obtain b' where b': "b \<le> b'" "b' \<le> Suc (mt_cnt tb)"
      "isect skip (drop a (live ta)) (drop b (areas tb)) = isect skip (drop a (live ta)) (drop b' (areas tb))"
      and stop: "scan_areas tb (mr_base ?m) (mr_end ?m) (int b) = (int b', None) \<and>
          isect skip (drop a (live ta)) (drop b' (areas tb)) = isect skip (drop (Suc a) (live ta)) (drop b' (areas tb)) \<or>
        b' \<le> mt_cnt tb \<and> fst (areas tb ! b') < mr_end ?m \<and> mr_base ?m < snd (areas tb ! b') \<and>
          scan_areas tb (mr_base ?m) (mr_end ?m) (int b) = (int b', Some (areas tb ! b'))"
      using scan_areas_isect [where skip = skip, OF w a refl False Suc.prems(2)] .
    from stop show ?thesis
    proof (elim disjE conjE)
      assume "scan_areas tb (mr_base ?m) (mr_end ?m) (int b) = (int b', None)"
        "isect skip (drop a (live ta)) (drop b' (areas tb)) = isect skip (drop (Suc a) (live ta)) (drop b' (areas tb))"
      then show ?thesis using IH [OF b'(2)] unf b'(3) False by (simp del: of_nat_Suc)
    next
      let ?g = "areas tb ! b'"
      assume g: "b' \<le> mt_cnt tb" "fst ?g < mr_end ?m" "mr_base ?m < snd ?g"
        "scan_areas tb (mr_base ?m) (mr_end ?m) (int b) = (int b', Some ?g)"
      have eq: "isect skip (drop a (live ta)) (drop b' (areas tb)) = piece ?m ?g #
          (if mr_end ?m \<le> snd ?g then isect skip (drop (Suc a) (live ta)) (drop b' (areas tb))
           else isect skip (drop a (live ta)) (drop (Suc b') (areas tb)))"
        using g False mem(3) scan_areas_step(2) [OF w g(1)] by (simp add: not_le)
      have nx: "?next (int a) (int b) = (if mr_end ?m \<le> snd ?g then pack_idx (int (Suc a)) (int b')
          else pack_idx (int a) (int (Suc b')), Some (piece ?m ?g))"
        using unf False g(4) by (simp add: piece_def add.commute split: prod.splits)
      show ?thesis
        unfolding b'(3) eq nx using b' g(1) a by (auto intro!: steps_toI simp del: of_nat_Suc)
    qed
  qed
qed

subsection \<open>Iterators as an interface\<close>

text \<open>
  What a loop over ranges needs of its step function: an index that stands before a list
  of outputs yields them one by one and then ends the loop.
\<close>

fun first_hit :: "(u64 \<Rightarrow> u64 \<Rightarrow> u64 option) \<Rightarrow> (u64 \<times> u64 \<times> int) list \<Rightarrow> u64" where
  "first_hit body [] = 0"
| "first_hit body ((s, e, n) # outs) = (case body s e of Some r \<Rightarrow> r | None \<Rightarrow> first_hit body outs)"

locale range_iterator =
  fixes step :: "'c \<Rightarrow> u64 \<Rightarrow> u64 \<times> (u64 \<times> u64 \<times> int) option"
    and before :: "'c \<Rightarrow> u64 \<Rightarrow> (u64 \<times> u64 \<times> int) list \<Rightarrow> bool"
  assumes step_end: "before c i [] \<Longrightarrow> snd (step c i) = None"
    and step_next: "before c i (out # outs) \<Longrightarrow>
      \<exists>i'. step c i = (i', Some out) \<and> i' \<noteq> ULLONG_MAX \<and> before c i' outs"
begin

lemma for_each_runs:
  assumes "before c i outs" "length outs < n"
  shows "for_each_mem_range n (step c) body i = Inr (first_hit body outs)"
  using assms
proof (induction outs arbitrary: i n)
  case Nil
  obtain k where "n = Suc k" using Nil.prems(2) by (cases n) auto
  then show ?case using step_end [OF Nil.prems(1)] by (cases "step c i") simp
next
  case (Cons out outs)
  obtain k where n: "n = Suc k" using Cons.prems(2) by (cases n) auto
  obtain i' where i': "step c i = (i', Some out)" "i' \<noteq> ULLONG_MAX" "before c i' outs"
    using step_next [OF Cons.prems(1)] by blast
  with Cons.IH [OF i'(3), of k] Cons.prems(2) n show ?case
    by (cases out) (simp split: option.splits)
qed

end

definition walk_nid :: "int \<Rightarrow> int" where
  "walk_nid nid = (if nid = MAX_NUMNODES then NUMA_NO_NODE else nid)"

definition fwd_before :: "boot_env \<times> int \<times> memblock_flags \<times> memblock_type \<times> memblock_type \<Rightarrow> u64 \<Rightarrow>
    (u64 \<times> u64 \<times> int) list \<Rightarrow> bool" where
  "fwd_before c i outs \<longleftrightarrow> (case c of (env, nid, flags, ta, tb) \<Rightarrow>
     walkable ta tb \<and> (\<exists>a b. a \<le> mt_cnt ta \<and> b \<le> Suc (mt_cnt tb) \<and> i = pack_idx (int a) (int b) \<and>
       outs = isect (mem_range_skip env (walk_nid nid) flags) (drop a (live ta)) (drop b (areas tb))))"

lemma walkable_idx:
  assumes "walkable ta tb" "a \<le> mt_cnt ta" "b \<le> Suc (mt_cnt tb)"
  shows "idx_a_of (pack_idx (int a) (int b)) = int a" "idx_b_of (pack_idx (int a) (int b)) = int b"
    "pack_idx (int a) (int b) \<noteq> ULLONG_MAX"
proof -
  have "int a < 2 ^ 31" "int b < 2 ^ 31" using assms by (auto simp: walkable_def)
  then show "idx_a_of (pack_idx (int a) (int b)) = int a" "idx_b_of (pack_idx (int a) (int b)) = int b"
    "pack_idx (int a) (int b) \<noteq> ULLONG_MAX"
    by (simp_all add: idx_a_of_pack idx_b_of_pack pack_idx_neq_max)
qed

lemma fwd_beforeE:
  assumes "fwd_before (env, nid, flags, ta, tb) i outs"
  obtains "walkable ta tb"
    "steps_to ta tb (mem_range_skip env (walk_nid nid) flags) (next_mem_range env nid flags ta (Some tb) i) outs"
proof -
  obtain a b where ab: "walkable ta tb" "a \<le> mt_cnt ta" "b \<le> Suc (mt_cnt tb)" "i = pack_idx (int a) (int b)"
    "outs = isect (mem_range_skip env (walk_nid nid) flags) (drop a (live ta)) (drop b (areas tb))"
    using assms by (auto simp: fwd_before_def)
  then have "next_mem_range env nid flags ta (Some tb) i =
      next_mem_range_from env (walk_nid nid) flags ta (Some tb) (int a) (int b)"
    using walkable_idx [OF ab(1-3)] by (simp add: next_mem_range_def walk_nid_def)
  then show ?thesis
    using that next_from_isect [OF ab(1-3) refl, of env "walk_nid nid" flags] ab(1,5) by simp
qed

interpretation fwd: range_iterator
  "\<lambda>(env, nid, flags, ta, tb). next_mem_range env nid flags ta (Some tb)" fwd_before
proof (unfold_locales, goal_cases)
  case (1 c i)
  then show ?case by (cases c) (auto simp: steps_to_def elim!: fwd_beforeE)
next
  case (2 c i out outs)
  obtain env nid flags ta tb where c: "c = (env, nid, flags, ta, tb)" by (cases c) auto
  from 2 c obtain a' b' where "walkable ta tb" "a' \<le> mt_cnt ta" "b' \<le> Suc (mt_cnt tb)"
    "next_mem_range env nid flags ta (Some tb) i = (pack_idx (int a') (int b'), Some out)"
    "outs = isect (mem_range_skip env (walk_nid nid) flags) (drop a' (live ta)) (drop b' (areas tb))"
    by (auto simp: steps_to_def elim!: fwd_beforeE)
  with c walkable_idx(3) [of ta tb a' b'] show ?case by (auto simp: fwd_before_def)
qed

subsection \<open>The reverse walk\<close>

text \<open>
  The reverse walk stands at \<open>k\<close> when regions \<open>k - 1, \<dots>, 0\<close> are still to come, and
  likewise for the areas.
\<close>

abbreviation mems_to :: "memblock_type \<Rightarrow> nat \<Rightarrow> memblock_region list" where
  "mems_to ta k \<equiv> rev (take k (live ta))"

abbreviation areas_to :: "memblock_type \<Rightarrow> nat \<Rightarrow> (u64 \<times> u64) list" where
  "areas_to tb j \<equiv> rev (take j (areas tb))"

lemma rev_take_Suc: "k < length xs \<Longrightarrow> rev (take (Suc k) xs) = xs ! k # rev (take k xs)"
  by (simp add: take_Suc_conv_app_nth)

lemma scan_areas_rev_step:
  assumes "walkable ta tb" "j \<le> mt_cnt tb"
  shows "scan_areas_rev tb ms me (int j) =
      (if snd (areas tb ! j) \<le> ms then (int j, None)
       else if me > fst (areas tb ! j) then (int j, Some (areas tb ! j))
       else scan_areas_rev tb ms me (int j - 1))"
    "areas_to tb (Suc j) = areas tb ! j # areas_to tb j"
proof -
  show "scan_areas_rev tb ms me (int j) =
      (if snd (areas tb ! j) \<le> ms then (int j, None)
       else if me > fst (areas tb ! j) then (int j, Some (areas tb ! j))
       else scan_areas_rev tb ms me (int j - 1))"
    using assms(2) by (subst scan_areas_rev.simps) (simp add: area_nth [OF assms])
  show "areas_to tb (Suc j) = areas tb ! j # areas_to tb j"
    using assms walkable_areas(2) [OF assms(1)] by (simp add: rev_take_Suc)
qed

lemma isect_rev_Nil2 [simp]: "isect_rev skip ms [] = []"
  by (cases ms) auto

lemma isect_rev_skip: "skip m \<Longrightarrow> isect_rev skip (m # ms) gs = isect_rev skip ms gs"
  by (cases gs) auto

lemma scan_areas_rev_isect:
  assumes w: "walkable ta tb" and ms: "ms = m # ms'" "\<not> skip m" and "j \<le> Suc (mt_cnt tb)"
  obtains j' where "j' \<le> j"
    "isect_rev skip ms (areas_to tb j) = isect_rev skip ms (areas_to tb j')"
    "scan_areas_rev tb (mr_base m) (mr_end m) (int j - 1) = (int j' - 1, None) \<and>
      isect_rev skip ms (areas_to tb j') = isect_rev skip ms' (areas_to tb j') \<or>
     (\<exists>i. j' = Suc i \<and> snd (areas tb ! i) > mr_base m \<and> mr_end m > fst (areas tb ! i) \<and>
      scan_areas_rev tb (mr_base m) (mr_end m) (int j - 1) = (int i, Some (areas tb ! i)))"
proof -
  have "\<exists>j'\<le>j. isect_rev skip ms (areas_to tb j) = isect_rev skip ms (areas_to tb j') \<and>
    (scan_areas_rev tb (mr_base m) (mr_end m) (int j - 1) = (int j' - 1, None) \<and>
      isect_rev skip ms (areas_to tb j') = isect_rev skip ms' (areas_to tb j') \<or>
     (\<exists>i. j' = Suc i \<and> snd (areas tb ! i) > mr_base m \<and> mr_end m > fst (areas tb ! i) \<and>
      scan_areas_rev tb (mr_base m) (mr_end m) (int j - 1) = (int i, Some (areas tb ! i))))"
    using assms(4)
  proof (induction j)
    case 0
    have "scan_areas_rev tb (mr_base m) (mr_end m) (- 1) = (- 1, None)"
      by (subst scan_areas_rev.simps) simp
    then show ?case by simp
  next
    case (Suc j)
    then have j: "j \<le> mt_cnt tb" by simp
    let ?g = "areas tb ! j"
    note s = scan_areas_rev_step [OF w j]
    show ?case
    proof (cases "snd ?g > mr_base m \<and> \<not> mr_end m > fst ?g")
      case True
      then have "isect_rev skip ms (areas_to tb (Suc j)) = isect_rev skip ms (areas_to tb j)"
        using s(2) ms by simp
      moreover have "scan_areas_rev tb (mr_base m) (mr_end m) (int (Suc j) - 1) =
          scan_areas_rev tb (mr_base m) (mr_end m) (int j - 1)"
        using s(1) [of "mr_base m" "mr_end m"] True by simp
      ultimately show ?thesis using Suc.IH Suc.prems by (metis Suc_leD le_SucI)
    next
      case False
      then show ?thesis
        using s(1) [of "mr_base m" "mr_end m"] s(2) ms
        by (intro exI [of _ "Suc j"]) (auto simp: not_less)
    qed
  qed
  then show ?thesis using that by blast
qed

definition steps_to_rev :: "memblock_type \<Rightarrow> memblock_type \<Rightarrow> (memblock_region \<Rightarrow> bool) \<Rightarrow>
    u64 \<times> (u64 \<times> u64 \<times> int) option \<Rightarrow> (u64 \<times> u64 \<times> int) list \<Rightarrow> bool" where
  "steps_to_rev ta tb skip res outs \<longleftrightarrow> (case outs of
      [] \<Rightarrow> res = (ULLONG_MAX, None)
    | out # outs' \<Rightarrow> \<exists>k j. k \<le> mt_cnt ta \<and> j \<le> Suc (mt_cnt tb) \<and> (0 < k \<or> 0 < j) \<and>
        res = (pack_idx (int k - 1) (int j - 1), Some out) \<and>
        outs' = isect_rev skip (mems_to ta k) (areas_to tb j))"

lemma steps_to_revI:
  "k \<le> mt_cnt ta \<Longrightarrow> j \<le> Suc (mt_cnt tb) \<Longrightarrow> 0 < k \<or> 0 < j \<Longrightarrow>
    outs' = isect_rev skip (mems_to ta k) (areas_to tb j) \<Longrightarrow>
    steps_to_rev ta tb skip (pack_idx (int k - 1) (int j - 1), Some out) (out # outs')"
  by (auto simp: steps_to_rev_def)

lemma next_rev_from_isect:
  assumes w: "walkable ta tb" and "k \<le> mt_cnt ta" "j \<le> Suc (mt_cnt tb)"
    and skip: "skip = mem_range_skip env nid flags"
  shows "steps_to_rev ta tb skip (next_mem_range_rev_from env nid flags ta (Some tb) (int k - 1) (int j - 1))
    (isect_rev skip (mems_to ta k) (areas_to tb j))"
  using assms(2,3)
proof (induction k arbitrary: j)
  case 0
  then show ?case by (subst next_mem_range_rev_from.simps) (simp add: steps_to_rev_def)
next
  case (Suc k)
  let ?m = "live ta ! k"
  let ?next = "next_mem_range_rev_from env nid flags ta (Some tb)"
  have k: "k < mt_cnt ta" using Suc.prems by simp
  note mem = mem_nth [OF w k]
  have mt: "mems_to ta (Suc k) = ?m # mems_to ta k"
    using k walkable_areas(3) [OF w] by (simp add: rev_take_Suc)
  have unf: "?next (int k) (int j - 1) =
      (if skip ?m then ?next (int k - 1) (int j - 1)
       else (case scan_areas_rev tb (mr_base ?m) (mr_end ?m) (int j - 1) of
              (b', Some (rs, re)) \<Rightarrow>
                (if mr_base ?m \<ge> rs then pack_idx (int k - 1) b' else pack_idx (int k) (b' - 1),
                 Some (max (mr_base ?m) rs, min (mr_end ?m) re, mr_nid ?m))
            | (b', None) \<Rightarrow> ?next (int k - 1) b'))"
    using k mem by (subst next_mem_range_rev_from.simps)
      (simp add: Let_def skip memblock_get_region_node_def split: prod.splits option.splits)
  have IH: "steps_to_rev ta tb skip (?next (int k - 1) (int j' - 1))
      (isect_rev skip (mems_to ta k) (areas_to tb j'))" if "j' \<le> j" for j'
    using Suc that by simp
  have K: "int (Suc k) - 1 = int k" by simp
  show ?case
  proof (cases "skip ?m")
    case True
    then show ?thesis using IH [of j] unf mt K by (simp add: isect_rev_skip)
  next
    case False
    obtain j' where j': "j' \<le> j"
      "isect_rev skip (mems_to ta (Suc k)) (areas_to tb j) = isect_rev skip (mems_to ta (Suc k)) (areas_to tb j')"
      and stop: "scan_areas_rev tb (mr_base ?m) (mr_end ?m) (int j - 1) = (int j' - 1, None) \<and>
          isect_rev skip (mems_to ta (Suc k)) (areas_to tb j') = isect_rev skip (mems_to ta k) (areas_to tb j') \<or>
        (\<exists>i. j' = Suc i \<and> snd (areas tb ! i) > mr_base ?m \<and> mr_end ?m > fst (areas tb ! i) \<and>
          scan_areas_rev tb (mr_base ?m) (mr_end ?m) (int j - 1) = (int i, Some (areas tb ! i)))"
      using scan_areas_rev_isect [where skip = skip, OF w mt False Suc.prems(2)] .
    from stop show ?thesis
    proof (elim disjE exE conjE)
      assume "scan_areas_rev tb (mr_base ?m) (mr_end ?m) (int j - 1) = (int j' - 1, None)"
        "isect_rev skip (mems_to ta (Suc k)) (areas_to tb j') = isect_rev skip (mems_to ta k) (areas_to tb j')"
      then show ?thesis using IH [OF j'(1)] unf j'(2) False K by simp
    next
      fix i
      let ?g = "areas tb ! i"
      assume g: "j' = Suc i" "snd ?g > mr_base ?m" "mr_end ?m > fst ?g"
        "scan_areas_rev tb (mr_base ?m) (mr_end ?m) (int j - 1) = (int i, Some ?g)"
      have i: "i \<le> mt_cnt tb" using g(1) j'(1) Suc.prems(2) by simp
      have eq: "isect_rev skip (mems_to ta (Suc k)) (areas_to tb j') = piece ?m ?g #
          (if mr_base ?m \<ge> fst ?g then isect_rev skip (mems_to ta k) (areas_to tb (Suc i))
           else isect_rev skip (mems_to ta (Suc k)) (areas_to tb i))"
        using g False mt scan_areas_rev_step(2) [OF w i] by (simp add: not_le)
      have nx: "?next (int (Suc k) - 1) (int j - 1) = (if mr_base ?m \<ge> fst ?g then pack_idx (int k - 1) (int (Suc i) - 1)
          else pack_idx (int (Suc k) - 1) (int i - 1), Some (piece ?m ?g))"
        using unf False g(4) K by (simp add: piece_def split: prod.splits)
      show ?thesis
        unfolding j'(2) eq nx using i k
        by (cases "fst ?g \<le> mr_base ?m") (auto intro!: steps_to_revI simp del: of_nat_Suc)
    qed
  qed
qed

definition rev_before :: "boot_env \<times> int \<times> memblock_flags \<times> memblock_type \<times> memblock_type \<Rightarrow> u64 \<Rightarrow>
    (u64 \<times> u64 \<times> int) list \<Rightarrow> bool" where
  "rev_before c i outs \<longleftrightarrow> (case c of (env, nid, flags, ta, tb) \<Rightarrow>
     walkable ta tb \<and> (\<exists>k j. k \<le> mt_cnt ta \<and> j \<le> Suc (mt_cnt tb) \<and>
       (i = ULLONG_MAX \<and> k = mt_cnt ta \<and> j = Suc (mt_cnt tb) \<or>
        i \<noteq> ULLONG_MAX \<and> i = pack_idx (int k - 1) (int j - 1)) \<and>
       outs = isect_rev (mem_range_skip env (walk_nid nid) flags) (mems_to ta k) (areas_to tb j)))"

lemma walkable_idx_rev:
  assumes "walkable ta tb" "k \<le> mt_cnt ta" "j \<le> Suc (mt_cnt tb)"
  shows "idx_a_of (pack_idx (int k - 1) (int j - 1)) = int k - 1"
    "idx_b_of (pack_idx (int k - 1) (int j - 1)) = int j - 1"
    "0 < k \<or> 0 < j \<Longrightarrow> pack_idx (int k - 1) (int j - 1) \<noteq> ULLONG_MAX"
proof -
  have k: "- (2 ^ 31) \<le> int k - 1" "int k - 1 < 2 ^ 31"
    and j: "- (2 ^ 31) \<le> int j - 1" "int j - 1 < 2 ^ 31"
    using assms by (auto simp: walkable_def)
  show "idx_a_of (pack_idx (int k - 1) (int j - 1)) = int k - 1" by (rule idx_a_of_pack [OF k])
  show "idx_b_of (pack_idx (int k - 1) (int j - 1)) = int j - 1" by (rule idx_b_of_pack [OF j])
  show "pack_idx (int k - 1) (int j - 1) \<noteq> ULLONG_MAX" if "0 < k \<or> 0 < j"
    by (rule pack_idx_neq_max [OF k j]) (use that in auto)
qed

lemma rev_beforeE:
  assumes "rev_before (env, nid, flags, ta, tb) i outs"
  obtains "walkable ta tb"
    "steps_to_rev ta tb (mem_range_skip env (walk_nid nid) flags) (next_mem_range_rev env nid flags ta (Some tb) i) outs"
proof -
  obtain k j where kj: "walkable ta tb" "k \<le> mt_cnt ta" "j \<le> Suc (mt_cnt tb)"
    "i = ULLONG_MAX \<and> k = mt_cnt ta \<and> j = Suc (mt_cnt tb) \<or> i \<noteq> ULLONG_MAX \<and> i = pack_idx (int k - 1) (int j - 1)"
    "outs = isect_rev (mem_range_skip env (walk_nid nid) flags) (mems_to ta k) (areas_to tb j)"
    using assms by (auto simp: rev_before_def)
  then have "next_mem_range_rev env nid flags ta (Some tb) i =
      next_mem_range_rev_from env (walk_nid nid) flags ta (Some tb) (int k - 1) (int j - 1)"
    using walkable_idx_rev(1,2) [OF kj(1-3)] by (auto simp: next_mem_range_rev_def walk_nid_def Let_def)
  then show ?thesis
    using that next_rev_from_isect [OF kj(1-3) refl, of env "walk_nid nid" flags] kj(1,5) by simp
qed

interpretation bwd: range_iterator
  "\<lambda>(env, nid, flags, ta, tb). next_mem_range_rev env nid flags ta (Some tb)" rev_before
proof (unfold_locales, goal_cases)
  case (1 c i)
  then show ?case by (cases c) (auto simp: steps_to_rev_def elim!: rev_beforeE)
next
  case (2 c i out outs)
  obtain env nid flags ta tb where c: "c = (env, nid, flags, ta, tb)" by (cases c) auto
  from 2 c obtain k j where "walkable ta tb" "k \<le> mt_cnt ta" "j \<le> Suc (mt_cnt tb)" "0 < k \<or> 0 < j"
    "next_mem_range_rev env nid flags ta (Some tb) i = (pack_idx (int k - 1) (int j - 1), Some out)"
    "outs = isect_rev (mem_range_skip env (walk_nid nid) flags) (mems_to ta k) (areas_to tb j)"
    by (auto simp: steps_to_rev_def elim!: rev_beforeE)
  with c walkable_idx_rev(3) [of ta tb k j] show ?case by (auto simp: rev_before_def)
qed

section \<open>What a search returns\<close>

text \<open>An area inside one admissible memory region that meets no reserved region.\<close>

definition free_area :: "boot_env \<Rightarrow> int \<Rightarrow> memblock_flags \<Rightarrow> memblock_type \<Rightarrow> memblock_type \<Rightarrow>
    u64 \<Rightarrow> u64 \<Rightarrow> bool" where
  "free_area env nid flags mem res c sz \<longleftrightarrow>
     (\<exists>m\<in>set (live mem). \<not> mem_range_skip env (walk_nid nid) flags m \<and> mr_base m \<le> c \<and> c + sz \<le> mr_end m) \<and>
     (\<forall>r\<in>set (live res). mr_end r \<le> c \<or> c + sz \<le> mr_base r)"

lemma first_hit_cases:
  obtains s e n where "(s, e, n) \<in> set outs" "body s e = Some (first_hit body outs)"
  | "first_hit body outs = 0" "\<And>s e n. (s, e, n) \<in> set outs \<Longrightarrow> body s e = None"
proof -
  have "(\<exists>s e n. (s, e, n) \<in> set outs \<and> body s e = Some (first_hit body outs)) \<or>
    (first_hit body outs = 0 \<and> (\<forall>s e n. (s, e, n) \<in> set outs \<longrightarrow> body s e = None))"
    by (induction body outs rule: first_hit.induct) (fastforce split: option.splits)+
  then show ?thesis using that by blast
qed

lemma gap_piece_free:
  assumes "ordered (live res)" "g \<in> set (areas res)" "fst g \<le> c" "c + n \<le> snd g" "r \<in> set (live res)"
  shows "mr_end r \<le> c \<or> c + n \<le> mr_base r"
proof -
  have "g \<in> set (gaps_from lo rs) \<Longrightarrow> ordered rs \<Longrightarrow> r \<in> set rs \<Longrightarrow> mr_end r \<le> fst g \<or> snd g \<le> mr_base r"
    for lo rs
  proof (induction rs arbitrary: lo)
    case (Cons s rs)
    show ?case
    proof (cases "r = s")
      case True
      have "g \<in> set (gaps_from (mr_end s) rs) \<Longrightarrow> mr_end s \<le> fst g"
        using Cons.prems(2) by (intro gaps_from_lower [of rs]) (auto simp: ordered_Cons)
      then show ?thesis using Cons.prems(1) True by auto
    next
      case False
      then have "r \<in> set rs" using Cons.prems(3) by simp
      moreover have "g = (lo, mr_base s) \<Longrightarrow> snd g \<le> mr_base r"
        using ordered_base_least [OF Cons.prems(2), of r] \<open>r \<in> set rs\<close> by simp
      ultimately show ?thesis using Cons.prems(1,2) Cons.IH [of "mr_end s"] by (auto simp: ordered_Cons)
    qed
  qed simp
  then show ?thesis using assms by fastforce
qed

lemma piece_free_area:
  assumes "walkable mem res" "m \<in> set (live mem)" "g \<in> set (areas res)"
    "\<not> mem_range_skip env (walk_nid nid) flags m"
    "fst (piece m g) \<le> c" "c + n \<le> fst (snd (piece m g))"
  shows "free_area env nid flags mem res c n"
  using assms gap_piece_free [of res g c n] by (auto simp: free_area_def piece_def walkable_def)

lemma free_area_piece:
  assumes "walkable mem res" "free_area env nid flags mem res c n" "0 < n"
  obtains m g where "m \<in> set (live mem)" "g \<in> set (areas res)" "\<not> mem_range_skip env (walk_nid nid) flags m"
    "overlap m g" "fst (piece m g) \<le> c" "c + n \<le> fst (snd (piece m g))"
proof -
  obtain m where m: "m \<in> set (live mem)" "\<not> mem_range_skip env (walk_nid nid) flags m"
    "mr_base m \<le> c" "c + n \<le> mr_end m" using assms(2) by (auto simp: free_area_def)
  have "c + n \<le> PHYS_ADDR_MAX"
    using assms(1) m ordered_end_le [of "live mem" m] by (auto simp: walkable_def)
  then obtain g where "g \<in> set (areas res)" "fst g \<le> c" "c + n \<le> snd g"
    using interval_in_gap [of "live res" c n 0] assms(2) by (auto simp: free_area_def)
  then show ?thesis using that [of m g] m assms(3) by (auto simp: overlap_def piece_def)
qed

subsection \<open>Top-down\<close>

definition body_top_down :: "u64 \<Rightarrow> u64 \<Rightarrow> u64 \<Rightarrow> u64 \<Rightarrow> u64 \<Rightarrow> u64 \<Rightarrow> u64 option" where
  "body_top_down start end sz align this_start this_end =
     (let this_start = clamp this_start start end;
          this_end = clamp this_end start end in
      if this_end < sz then None
      else let cand = round_down (u64_sub this_end sz) align in
           if cand \<ge> this_start then Some cand else None)"

lemma body_top_down_Some:
  assumes "body_top_down start end sz (2 ^ k) s e = Some c"
    and "k < 64" "start \<le> end" "end \<le> PHYS_ADDR_MAX" "0 < sz"
  shows "s \<le> c" "c + sz \<le> e" "start \<le> c" "c + sz \<le> end" "2 ^ k dvd c"
proof -
  let ?ts = "clamp s start end" and ?te = "clamp e start end"
  have te: "?te \<le> end" "start \<le> ?ts" using assms(3) clamp_bounds by auto
  have c: "sz \<le> ?te" "c = round_down (?te - sz) (2 ^ k)" "?ts \<le> c"
    using assms(1,4) te(1) by (auto simp: body_top_down_def Let_def u64_sub_max split: if_splits)
  have lt: "?te - sz < u64_lim" using te(1) assms(4) by (simp add: less_u64_lim_iff)
  have up: "c + sz \<le> ?te" using c(1,2) round_down_le [OF lt assms(2)] by simp
  show "2 ^ k dvd c" using c(2) round_down_dvd [OF lt assms(2)] by simp
  show "start \<le> c" using te c by simp
  show "c + sz \<le> end" using te up by simp
  show "s \<le> c" "c + sz \<le> e" using c(3) up assms(3,5) by (auto simp: clamp_def)
qed

lemma body_top_down_None:
  assumes "body_top_down start end sz (2 ^ k) s e = None"
    and "k < 64" "end \<le> PHYS_ADDR_MAX" "2 ^ k dvd c"
    and "s \<le> c" "c + sz \<le> e" "start \<le> c" "c + sz \<le> end"
  shows False
proof -
  let ?ts = "clamp s start end" and ?te = "clamp e start end"
  have te: "c + sz \<le> ?te" "?ts \<le> c" "?te \<le> PHYS_ADDR_MAX"
    using assms(3,5-8) by (auto simp: clamp_def)
  have "c \<le> round_down (?te - sz) (2 ^ k)"
    using te assms(2,4) by (intro round_down_greatest) (auto simp: less_u64_lim_iff)
  then show False
    using assms(1) te by (auto simp: body_top_down_def Let_def u64_sub_max split: if_splits)
qed

lemma top_down_runs:
  assumes "walkable (mb_memory s) (mb_reserved s)"
  shows "memblock_find_range_top_down env s start end sz align nid flags =
    Inr (first_hit (body_top_down start end sz align)
      (isect_rev (mem_range_skip env (walk_nid nid) flags) (rev (live (mb_memory s))) (rev (areas (mb_reserved s)))))"
proof -
  let ?c = "(env, nid, flags, mb_memory s, mb_reserved s)"
  let ?outs = "isect_rev (mem_range_skip env (walk_nid nid) flags) (rev (live (mb_memory s))) (rev (areas (mb_reserved s)))"
  note wa = walkable_areas [OF assms]
  have "rev_before ?c ULLONG_MAX ?outs"
    using assms wa by (force simp: rev_before_def)
  moreover have "length ?outs < range_steps s"
    using isect_rev_length [of "mem_range_skip env (walk_nid nid) flags" "rev (live (mb_memory s))" "rev (areas (mb_reserved s))"] wa
    by (simp add: range_steps_def)
  ultimately show ?thesis
    using bwd.for_each_runs [of ?c ULLONG_MAX ?outs "range_steps s" "body_top_down start end sz align"]
    by (simp add: memblock_find_range_top_down_def body_top_down_def [abs_def])
qed

lemma top_down_spec:
  assumes w: "walkable (mb_memory s) (mb_reserved s)" and "k < 64" "0 < start" "start \<le> end" "end \<le> PHYS_ADDR_MAX" "0 < sz"
  obtains c where "memblock_find_range_top_down env s start end sz (2 ^ k) nid flags = Inr c"
    "c \<noteq> 0 \<longrightarrow> free_area env nid flags (mb_memory s) (mb_reserved s) c sz \<and> start \<le> c \<and> c + sz \<le> end \<and> 2 ^ k dvd c"
    "c = 0 \<longrightarrow> (\<forall>c'. free_area env nid flags (mb_memory s) (mb_reserved s) c' sz \<longrightarrow> start \<le> c' \<longrightarrow> c' + sz \<le> end \<longrightarrow> \<not> 2 ^ k dvd c')"
proof -
  let ?skip = "mem_range_skip env (walk_nid nid) flags"
  let ?outs = "isect_rev ?skip (rev (live (mb_memory s))) (rev (areas (mb_reserved s)))"
  let ?body = "body_top_down start end sz (2 ^ k)"
  have run: "memblock_find_range_top_down env s start end sz (2 ^ k) nid flags = Inr (first_hit ?body ?outs)"
    by (rule top_down_runs [OF w])
  show ?thesis
  proof (cases rule: first_hit_cases [of ?outs ?body])
    case (1 a b n)
    then obtain m g where mg: "m \<in> set (live (mb_memory s))" "g \<in> set (areas (mb_reserved s))" "\<not> ?skip m"
      "(a, b, n) = piece m g"
      by (auto elim: isect_rev_sound)
    let ?c = "first_hit ?body ?outs"
    note b = body_top_down_Some [OF 1(2) assms(2,4-6)]
    have "free_area env nid flags (mb_memory s) (mb_reserved s) ?c sz"
      using piece_free_area [OF w mg(1-3)] b mg(4) by (metis fst_conv snd_conv)
    then show ?thesis using that [of ?c] run b assms(3) by simp
  next
    case 2
    have "\<forall>c'. free_area env nid flags (mb_memory s) (mb_reserved s) c' sz \<longrightarrow> start \<le> c' \<longrightarrow> c' + sz \<le> end \<longrightarrow> \<not> 2 ^ k dvd c'"
    proof (intro allI impI notI)
      fix c' assume c': "free_area env nid flags (mb_memory s) (mb_reserved s) c' sz" "start \<le> c'" "c' + sz \<le> end" "2 ^ k dvd c'"
      obtain m g where mg: "m \<in> set (live (mb_memory s))" "g \<in> set (areas (mb_reserved s))" "\<not> ?skip m"
        "overlap m g" "fst (piece m g) \<le> c'" "c' + sz \<le> fst (snd (piece m g))"
        using free_area_piece [OF w c'(1) assms(6)] .
      have "piece m g \<in> set ?outs"
        using isect_rev_complete [of "rev (live (mb_memory s))" "rev (areas (mb_reserved s))" m g ?skip] w mg walkable_areas(1) [OF w]
        by (simp add: walkable_def)
      then have "?body (fst (piece m g)) (fst (snd (piece m g))) = None"
        using 2(2) by (metis prod.collapse)
      then show False
        using body_top_down_None [OF _ assms(2,5) c'(4) mg(5,6) c'(2,3)] by blast
    qed
    then show ?thesis using that [of 0] run 2(1) by simp
  qed
qed

subsection \<open>Bottom-up\<close>

definition body_bottom_up :: "u64 \<Rightarrow> u64 \<Rightarrow> u64 \<Rightarrow> u64 \<Rightarrow> u64 \<Rightarrow> u64 \<Rightarrow> u64 option" where
  "body_bottom_up start end sz align this_start this_end =
     (let this_start = clamp this_start start end;
          this_end = clamp this_end start end;
          cand = round_up this_start align in
      if cand < this_end \<and> u64_sub this_end cand \<ge> sz then Some cand else None)"

lemma body_bottom_up_Some:
  assumes "body_bottom_up start end sz (2 ^ k) s e = Some c" "c \<noteq> 0"
    and "k < 64" "start \<le> end" "end \<le> PHYS_ADDR_MAX" "0 < sz"
  shows "s \<le> c" "c + sz \<le> e" "start \<le> c" "c + sz \<le> end" "2 ^ k dvd c"
proof -
  let ?ts = "clamp s start end" and ?te = "clamp e start end"
  have te: "?te \<le> end" "start \<le> ?ts" "?ts \<le> end" using assms(4) clamp_bounds by auto
  have c: "c = round_up ?ts (2 ^ k)" "c < ?te" "sz \<le> ?te - c"
    using assms(1,5) te(1) by (auto simp: body_bottom_up_def Let_def u64_sub_max split: if_splits)
  have r: "?ts \<le> c" "2 ^ k dvd c"
    using round_up_cases [of ?ts k] te assms(2,3,5) c(1) by (auto simp: less_u64_lim_iff)
  show "2 ^ k dvd c" by (rule r(2))
  show "start \<le> c" "c + sz \<le> end" using te r(1) c(2,3) by linarith+
  show "s \<le> c" using r(1) c(2) te(1) by (simp add: clamp_def min_def max_def split: if_splits)
  show "c + sz \<le> e" using r(1) c(2,3) te(2) by (simp add: clamp_def min_def max_def split: if_splits)
qed

lemma bottom_up_runs:
  assumes "walkable (mb_memory s) (mb_reserved s)"
  shows "memblock_find_range_bottom_up env s start end sz align nid flags =
    Inr (first_hit (body_bottom_up start end sz align)
      (isect (mem_range_skip env (walk_nid nid) flags) (live (mb_memory s)) (areas (mb_reserved s))))"
proof -
  let ?c = "(env, nid, flags, mb_memory s, mb_reserved s)"
  let ?outs = "isect (mem_range_skip env (walk_nid nid) flags) (live (mb_memory s)) (areas (mb_reserved s))"
  note wa = walkable_areas [OF assms]
  have "pack_idx (int 0) (int 0) = 0" by (simp add: pack_idx_eq)
  then have "fwd_before ?c 0 ?outs"
    using assms by (force simp: fwd_before_def)
  moreover have "length ?outs < range_steps s"
    using isect_length [of "mem_range_skip env (walk_nid nid) flags" "live (mb_memory s)" "areas (mb_reserved s)"] wa
    by (simp add: range_steps_def)
  ultimately show ?thesis
    using fwd.for_each_runs [of ?c 0 ?outs "range_steps s" "body_bottom_up start end sz align"]
    by (simp add: memblock_find_range_bottom_up_def body_bottom_up_def [abs_def])
qed

lemma bottom_up_spec:
  assumes w: "walkable (mb_memory s) (mb_reserved s)" and "k < 64" "start \<le> end" "end \<le> PHYS_ADDR_MAX" "0 < sz"
  obtains c where "memblock_find_range_bottom_up env s start end sz (2 ^ k) nid flags = Inr c"
    "c \<noteq> 0 \<longrightarrow> free_area env nid flags (mb_memory s) (mb_reserved s) c sz \<and> start \<le> c \<and> c + sz \<le> end \<and> 2 ^ k dvd c"
proof -
  let ?skip = "mem_range_skip env (walk_nid nid) flags"
  let ?outs = "isect ?skip (live (mb_memory s)) (areas (mb_reserved s))"
  let ?body = "body_bottom_up start end sz (2 ^ k)"
  let ?c = "first_hit ?body ?outs"
  have run: "memblock_find_range_bottom_up env s start end sz (2 ^ k) nid flags = Inr ?c"
    by (rule bottom_up_runs [OF w])
  have "free_area env nid flags (mb_memory s) (mb_reserved s) ?c sz \<and> start \<le> ?c \<and> ?c + sz \<le> end \<and> 2 ^ k dvd ?c"
    if nz: "?c \<noteq> 0"
  proof (cases rule: first_hit_cases [of ?outs ?body])
    case (1 a b n)
    then obtain m g where mg: "m \<in> set (live (mb_memory s))" "g \<in> set (areas (mb_reserved s))" "\<not> ?skip m"
      "(a, b, n) = piece m g"
      by (auto elim: isect_sound)
    note b = body_bottom_up_Some [OF 1(2) nz assms(2-5)]
    have "free_area env nid flags (mb_memory s) (mb_reserved s) ?c sz"
      using piece_free_area [OF w mg(1-3)] b mg(4) by (metis fst_conv snd_conv)
    then show ?thesis using b by simp
  qed (use nz in simp)
  then show ?thesis using that run by blast
qed

subsection \<open>The search functions\<close>

text \<open>The window \<^verbatim>\<open>memblock_find_in_range_node\<close> really searches.\<close>

definition win_start :: "u64 \<Rightarrow> u64" where
  "win_start start = max start PAGE_SIZE"

definition win_end :: "memblock_state \<Rightarrow> u64 \<Rightarrow> u64 \<Rightarrow> u64" where
  "win_end s start end = max (win_start start)
     (if end = MEMBLOCK_ALLOC_ACCESSIBLE then mb_current_limit s else end)"

definition found_at :: "boot_env \<Rightarrow> memblock_state \<Rightarrow> u64 \<Rightarrow> u64 \<Rightarrow> u64 \<Rightarrow> u64 \<Rightarrow> int \<Rightarrow> memblock_flags \<Rightarrow> u64 \<Rightarrow> bool" where
  "found_at env s sz align start end nid flags c \<longleftrightarrow>
     free_area env nid flags (mb_memory s) (mb_reserved s) c sz \<and>
     win_start start \<le> c \<and> c + sz \<le> win_end s start end \<and> align dvd c"

lemma find_in_range_node_spec:
  assumes w: "walkable (mb_memory s) (mb_reserved s)" and "k < 64" "0 < sz"
    and "start \<le> PHYS_ADDR_MAX" "end \<le> PHYS_ADDR_MAX" "mb_current_limit s \<le> PHYS_ADDR_MAX"
  obtains c where "memblock_find_in_range_node env s sz (2 ^ k) start end nid flags = Inr c"
    "c \<noteq> 0 \<longrightarrow> found_at env s sz (2 ^ k) start end nid flags c"
    "c = 0 \<longrightarrow> (\<forall>c'. \<not> found_at env s sz (2 ^ k) start end nid flags c')"
proof -
  let ?ws = "win_start start" and ?we = "win_end s start end" and ?ke = "env_kernel_end env"
  have b: "0 < ?ws" "?ws \<le> ?we" "?we \<le> PHYS_ADDR_MAX"
    using assms(4-6) by (auto simp: win_start_def win_end_def PAGE_SIZE_def PHYS_ADDR_MAX_def u64_lim_def)
  obtain c where c1: "memblock_find_range_top_down env s ?ws ?we sz (2 ^ k) nid flags = Inr c"
    and c2: "c \<noteq> 0 \<longrightarrow> free_area env nid flags (mb_memory s) (mb_reserved s) c sz \<and> ?ws \<le> c \<and>
      c + sz \<le> ?we \<and> 2 ^ k dvd c"
    and c3: "c = 0 \<longrightarrow> (\<forall>c'. free_area env nid flags (mb_memory s) (mb_reserved s) c' sz \<longrightarrow>
      ?ws \<le> c' \<longrightarrow> c' + sz \<le> ?we \<longrightarrow> \<not> 2 ^ k dvd c')"
    using top_down_spec [OF w assms(2) b assms(3), of env nid flags] .
  have c: "c \<noteq> 0 \<longrightarrow> found_at env s sz (2 ^ k) start end nid flags c"
    "c = 0 \<longrightarrow> (\<forall>c'. \<not> found_at env s sz (2 ^ k) start end nid flags c')"
    using c2 c3 unfolding found_at_def by blast+
  have td: "memblock_find_in_range_node env s sz (2 ^ k) start end nid flags =
      (if mb_bottom_up s \<and> ?we > ?ke then
        run_bind (memblock_find_range_bottom_up env s (max ?ws ?ke) ?we sz (2 ^ k) nid flags)
          (\<lambda>ret. if ret \<noteq> 0 then Inr ret else Inr c) else Inr c)"
    unfolding memblock_find_in_range_node_def Let_def
    by (simp only: c1 flip: win_start_def win_end_def)
  show ?thesis
  proof (cases "mb_bottom_up s \<and> ?we > ?ke")
    case True
    then have le: "max ?ws ?ke \<le> ?we" using b by simp
    obtain d where d: "memblock_find_range_bottom_up env s (max ?ws ?ke) ?we sz (2 ^ k) nid flags = Inr d"
      and "d \<noteq> 0 \<longrightarrow> free_area env nid flags (mb_memory s) (mb_reserved s) d sz \<and> max ?ws ?ke \<le> d \<and>
        d + sz \<le> ?we \<and> 2 ^ k dvd d"
      using bottom_up_spec [OF w assms(2) le b(3) assms(3), of env nid flags] .
    then have f: "d \<noteq> 0 \<Longrightarrow> found_at env s sz (2 ^ k) start end nid flags d"
      by (simp add: found_at_def)
    show ?thesis
    proof (cases "d = 0")
      case True
      then have "memblock_find_in_range_node env s sz (2 ^ k) start end nid flags = Inr c"
        using td d \<open>mb_bottom_up s \<and> ?we > ?ke\<close> by simp
      then show ?thesis using c by (rule that)
    next
      case False
      then have "memblock_find_in_range_node env s sz (2 ^ k) start end nid flags = Inr d"
        using td d \<open>mb_bottom_up s \<and> ?we > ?ke\<close> by simp
      then show ?thesis by (rule that) (use False f in auto)
    qed
  next
    case False
    then have "memblock_find_in_range_node env s sz (2 ^ k) start end nid flags = Inr c"
      using td by (simp only: if_False)
    then show ?thesis using c by (rule that)
  qed
qed

end
