(* ===== verification/Memblock_Update.thy ===== *)
theory Memblock_Update
  imports Memblock_Find
begin

text \<open>
  Changing the region arrays (\<^verbatim>\<open>mm/memblock.c\<close>): \<^verbatim>\<open>memblock_add_range\<close> with its two passes,
  \<^verbatim>\<open>memblock_isolate_range\<close>, \<^verbatim>\<open>memblock_remove_range\<close>, the flag and node setters, the growth
  of an array by \<^verbatim>\<open>memblock_double_array\<close>, and the public entry points built from them.

  The functions are parameterised by the routine that grows an array (\<open>doubler\<close>); the
  program's own routine, \<open>memblock_double_array\<close>, calls them back to free the old array
  and to reserve the new one. The mutual recursion is bounded by \<open>env_fuel\<close>.
\<close>

section \<open>Selecting a type\<close>

datatype mb_sel = Memory | Reserved

fun get_type :: "mb_sel \<Rightarrow> memblock_state \<Rightarrow> memblock_type" where
  "get_type Memory s = mb_memory s"
| "get_type Reserved s = mb_reserved s"

fun put_type :: "mb_sel \<Rightarrow> memblock_type \<Rightarrow> memblock_state \<Rightarrow> memblock_state" where
  "put_type Memory t s = s\<lparr>mb_memory := t\<rparr>"
| "put_type Reserved t s = s\<lparr>mb_reserved := t\<rparr>"

type_synonym mb_result = "(int \<times> memblock_state) run"

type_synonym doubler = "mb_sel \<Rightarrow> u64 \<Rightarrow> u64 \<Rightarrow> memblock_state \<Rightarrow> mb_result"

section \<open>Adding a range\<close>

text \<open>
  The \<^verbatim>\<open>for_each_memblock_type\<close> loop of \<^verbatim>\<open>memblock_add_range\<close>. The result holds the index,
  the lower end of what is left of the new area, the number of regions needed and the
  array.
\<close>

function add_scan :: "bool \<Rightarrow> u64 \<Rightarrow> int \<Rightarrow> memblock_flags \<Rightarrow> nat \<Rightarrow> u64 \<Rightarrow> nat \<Rightarrow> memblock_type \<Rightarrow>
    (nat \<times> u64 \<times> nat \<times> memblock_type) run" where
  "add_scan ins end nid flags idx base nr_new t =
     (if idx < mt_cnt t then
        let rgn = mt_regions t ! idx;
            rbase = mr_base rgn;
            rend = u64_add rbase (mr_size rgn) in
        if rbase \<ge> end then Inr (idx, base, nr_new, t)
        else if rend \<le> base then add_scan ins end nid flags (idx + 1) base nr_new t
        else if rbase > base then
          (if ins then
             (case memblock_insert_region t idx base (u64_sub rbase base) nid flags of
                Inl e \<Rightarrow> Inl e
              | Inr t' \<Rightarrow> add_scan ins end nid flags (idx + 2) (min rend end) (nr_new + 1) t')
           else add_scan ins end nid flags (idx + 1) (min rend end) (nr_new + 1) t)
        else add_scan ins end nid flags (idx + 1) (min rend end) nr_new t
      else Inr (idx, base, nr_new, t))"
  by pat_completeness auto
termination
  by (relation "measure (\<lambda>(ins, e, nid, fl, idx, b, n, t). mt_cnt t - idx)")
    (auto simp: memblock_insert_region_def split: if_splits)

declare add_scan.simps [simp del]

text \<open>One pass: the loop and the portion that remains above the last overlap.\<close>

definition add_pass :: "bool \<Rightarrow> u64 \<Rightarrow> u64 \<Rightarrow> int \<Rightarrow> memblock_flags \<Rightarrow> memblock_type \<Rightarrow>
    (nat \<times> memblock_type) run" where
  "add_pass ins obase end nid flags t =
     run_bind (add_scan ins end nid flags 0 obase 0 t)
       (\<lambda>(idx, base, nr_new, t').
          if base < end then
            (if ins
             then run_bind (memblock_insert_region t' idx base (u64_sub end base) nid flags)
                    (\<lambda>t''. Inr (nr_new + 1, t''))
             else Inr (nr_new + 1, t'))
          else Inr (nr_new, t'))"

text \<open>
  \<^verbatim>\<open>while (type->cnt + n > type->max) if (memblock_double_array(...) < 0) return -ENOMEM\<close>.
  Each round doubles a 64-bit capacity, so 64 rounds are more than there can be.
\<close>

fun grow_array :: "nat \<Rightarrow> doubler \<Rightarrow> mb_sel \<Rightarrow> nat \<Rightarrow> u64 \<Rightarrow> u64 \<Rightarrow> memblock_state \<Rightarrow> mb_result" where
  "grow_array 0 dbl sel n base sz s = Inl No_fuel"
| "grow_array (Suc k) dbl sel n base sz s =
     (if mt_cnt (get_type sel s) + n > mt_max (get_type sel s) then
        run_bind (dbl sel base sz s)
          (\<lambda>(ret, s'). if ret < 0 then Inr (- ENOMEM, s') else grow_array k dbl sel n base sz s')
      else Inr (0, s))"

definition memblock_add_range :: "doubler \<Rightarrow> mb_sel \<Rightarrow> u64 \<Rightarrow> u64 \<Rightarrow> int \<Rightarrow> memblock_flags \<Rightarrow>
    memblock_state \<Rightarrow> mb_result" where
  "memblock_add_range dbl sel base sz nid flags s =
     (let sz = memblock_cap_size base sz;
          end = u64_add base sz;
          t = get_type sel s in
      if sz = 0 then Inr (0, s)
      else if mr_size (mt_regions t ! 0) = 0 then
        Inr (0, put_type sel
          (t\<lparr>mt_regions := (mt_regions t)[0 := \<lparr>mr_base = base, mr_size = sz, mr_flags = flags, mr_nid = nid\<rparr>],
             mt_total_size := sz\<rparr>) s)
      else run_bind (add_pass False base end nid flags t)
        (\<lambda>(nr_new, _).
           if nr_new = 0 then Inr (0, s)
           else run_bind (grow_array 65 dbl sel nr_new base sz s)
             (\<lambda>(ret, s').
                if ret \<noteq> 0 then Inr (ret, s')
                else run_bind (add_pass True base end nid flags (get_type sel s'))
                  (\<lambda>(nr_new', t').
                     if nr_new' = 0 then Inr (0, put_type sel t' s')
                     else run_bind (memblock_merge_regions t')
                            (\<lambda>t''. Inr (0, put_type sel t'' s'))))))"

section \<open>Isolating and removing a range\<close>

text \<open>
  The loop of \<^verbatim>\<open>memblock_isolate_range\<close>; \<^verbatim>\<open>idx--\<close> in the last split and the increment of the
  loop together redo the same index. Each region is visited once and the at most two
  splits add one visit each, so \<open>cnt + 3\<close> steps are enough.
\<close>

fun isolate_scan :: "nat \<Rightarrow> u64 \<Rightarrow> u64 \<Rightarrow> nat \<Rightarrow> nat \<Rightarrow> nat \<Rightarrow> memblock_type \<Rightarrow>
    (nat \<times> nat \<times> memblock_type) run" where
  "isolate_scan 0 base end idx start_rgn end_rgn t = Inl No_fuel"
| "isolate_scan (Suc n) base end idx start_rgn end_rgn t =
     (if idx < mt_cnt t then
        let rgn = mt_regions t ! idx;
            rbase = mr_base rgn;
            rend = u64_add rbase (mr_size rgn) in
        if rbase \<ge> end then Inr (start_rgn, end_rgn, t)
        else if rend \<le> base then isolate_scan n base end (idx + 1) start_rgn end_rgn t
        else if rbase < base then
          run_bind
            (memblock_insert_region
               (t\<lparr>mt_regions := (mt_regions t)
                    [idx := rgn\<lparr>mr_base := base, mr_size := u64_sub (mr_size rgn) (u64_sub base rbase)\<rparr>],
                  mt_total_size := u64_sub (mt_total_size t) (u64_sub base rbase)\<rparr>)
               idx rbase (u64_sub base rbase) (memblock_get_region_node rgn) (mr_flags rgn))
            (\<lambda>t'. isolate_scan n base end (idx + 1) start_rgn end_rgn t')
        else if rend > end then
          run_bind
            (memblock_insert_region
               (t\<lparr>mt_regions := (mt_regions t)
                    [idx := rgn\<lparr>mr_base := end, mr_size := u64_sub (mr_size rgn) (u64_sub end rbase)\<rparr>],
                  mt_total_size := u64_sub (mt_total_size t) (u64_sub end rbase)\<rparr>)
               idx rbase (u64_sub end rbase) (memblock_get_region_node rgn) (mr_flags rgn))
            (\<lambda>t'. isolate_scan n base end idx start_rgn end_rgn t')
        else isolate_scan n base end (idx + 1) (if end_rgn = 0 then idx else start_rgn) (idx + 1) t
      else Inr (start_rgn, end_rgn, t))"

definition memblock_isolate_range :: "doubler \<Rightarrow> mb_sel \<Rightarrow> u64 \<Rightarrow> u64 \<Rightarrow> memblock_state \<Rightarrow>
    (int \<times> nat \<times> nat \<times> memblock_state) run" where
  "memblock_isolate_range dbl sel base sz s =
     (let sz = memblock_cap_size base sz; end = u64_add base sz in
      if sz = 0 then Inr (0, 0, 0, s)
      else run_bind (grow_array 65 dbl sel 2 base sz s)
        (\<lambda>(ret, s').
           if ret \<noteq> 0 then Inr (ret, 0, 0, s')
           else run_bind (isolate_scan (mt_cnt (get_type sel s') + 3) base end 0 0 0 (get_type sel s'))
             (\<lambda>(start_rgn, end_rgn, t). Inr (0, start_rgn, end_rgn, put_type sel t s'))))"

text \<open>\<^verbatim>\<open>for (i = end_rgn - 1; i >= start_rgn; i--) memblock_remove_region(type, i)\<close>\<close>

fun remove_down :: "nat \<Rightarrow> nat \<Rightarrow> memblock_type \<Rightarrow> memblock_type" where
  "remove_down start_rgn 0 t = t"
| "remove_down start_rgn (Suc n) t = remove_down start_rgn n (memblock_remove_region t (start_rgn + n))"

definition memblock_remove_range :: "doubler \<Rightarrow> mb_sel \<Rightarrow> u64 \<Rightarrow> u64 \<Rightarrow> memblock_state \<Rightarrow> mb_result" where
  "memblock_remove_range dbl sel base sz s =
     run_bind (memblock_isolate_range dbl sel base sz s)
       (\<lambda>(ret, start_rgn, end_rgn, s').
          if ret \<noteq> 0 then Inr (ret, s')
          else Inr (0, put_type sel (remove_down start_rgn (end_rgn - start_rgn) (get_type sel s')) s'))"

section \<open>Growing an array\<close>

definition sizeof_memblock_region :: u64 where
  "sizeof_memblock_region = 24"

definition in_slab :: "mb_sel \<Rightarrow> memblock_state \<Rightarrow> bool" where
  "in_slab sel s = (case sel of Memory \<Rightarrow> memblock_memory_in_slab s | Reserved \<Rightarrow> memblock_reserved_in_slab s)"

definition set_in_slab :: "mb_sel \<Rightarrow> bool \<Rightarrow> memblock_state \<Rightarrow> memblock_state" where
  "set_in_slab sel b s = (case sel of Memory \<Rightarrow> s\<lparr>memblock_memory_in_slab := b\<rparr>
                                    | Reserved \<Rightarrow> s\<lparr>memblock_reserved_in_slab := b\<rparr>)"

text \<open>Where the new array goes: from the slab, or from free memory outside the new area.\<close>

definition find_new_array :: "boot_env \<Rightarrow> mb_sel \<Rightarrow> u64 \<Rightarrow> u64 \<Rightarrow> u64 \<Rightarrow> u64 \<Rightarrow> memblock_state \<Rightarrow> u64 run" where
  "find_new_array env sel new_area_start new_area_size new_size new_alloc_size s =
     (if env_slab_is_available env then Inr (env_kmalloc env new_size)
      else
        let (start, sz) = (if sel \<noteq> Reserved then (0, 0) else (new_area_start, new_area_size)) in
        run_bind (memblock_find_in_range env s (u64_add start sz) (mb_current_limit s) new_alloc_size PAGE_SIZE)
          (\<lambda>addr. if addr = 0 \<and> sz \<noteq> 0
                  then memblock_find_in_range env s 0 (min start (mb_current_limit s)) new_alloc_size PAGE_SIZE
                  else Inr addr))"

definition double_array_with :: "boot_env \<Rightarrow> (u64 \<Rightarrow> u64 \<Rightarrow> memblock_state \<Rightarrow> mb_result) \<Rightarrow>
    (u64 \<Rightarrow> u64 \<Rightarrow> memblock_state \<Rightarrow> mb_result) \<Rightarrow> doubler" where
  "double_array_with env free_block reserve_block sel new_area_start new_area_size s =
     (if \<not> memblock_can_resize s then Inr (-1, s)
      else
        let t = get_type sel s;
            use_slab = env_slab_is_available env;
            old_size = (mt_max t * sizeof_memblock_region) mod u64_lim;
            new_size = (old_size * 2) mod u64_lim;
            old_alloc_size = PAGE_ALIGN old_size;
            new_alloc_size = PAGE_ALIGN new_size in
        run_bind (find_new_array env sel new_area_start new_area_size new_size new_alloc_size s)
          (\<lambda>addr.
             if addr = 0 then Inr (-1, s)
             else
               let s1 = put_type sel
                          (t\<lparr>mt_regions := mt_regions t @ replicate (mt_max t) zero_region,
                             mt_array := Array_at addr,
                             mt_max := (mt_max t * 2) mod u64_lim\<rparr>) s in
               run_bind
                 (if in_slab sel s then Inr (0, s1)
                  else (case mt_array t of
                          Array_at old \<Rightarrow> free_block old old_alloc_size s1
                        | _ \<Rightarrow> Inr (0, s1)))
                 (\<lambda>(_, s2).
                    run_bind (if use_slab then Inr (0, s2) else reserve_block addr new_alloc_size s2)
                      (\<lambda>(ret, s3). if ret \<noteq> 0 then Inl Bug_on
                                   else Inr (0, set_in_slab sel use_slab s3)))))"

fun memblock_double_array :: "nat \<Rightarrow> boot_env \<Rightarrow> doubler" where
  "memblock_double_array 0 env sel new_area_start new_area_size s = Inl No_fuel"
| "memblock_double_array (Suc n) env sel new_area_start new_area_size s =
     double_array_with env
       (memblock_remove_range (memblock_double_array n env) Reserved)
       (\<lambda>base sz. memblock_add_range (memblock_double_array n env) Reserved base sz MAX_NUMNODES 0)
       sel new_area_start new_area_size s"

abbreviation doubler_of :: "boot_env \<Rightarrow> doubler" where
  "doubler_of env \<equiv> memblock_double_array (env_fuel env) env"

section \<open>Entry points\<close>

definition memblock_add_node :: "boot_env \<Rightarrow> u64 \<Rightarrow> u64 \<Rightarrow> int \<Rightarrow> memblock_state \<Rightarrow> mb_result" where
  "memblock_add_node env base sz nid = memblock_add_range (doubler_of env) Memory base sz nid 0"

definition memblock_add :: "boot_env \<Rightarrow> u64 \<Rightarrow> u64 \<Rightarrow> memblock_state \<Rightarrow> mb_result" where
  "memblock_add env base sz = memblock_add_range (doubler_of env) Memory base sz MAX_NUMNODES 0"

definition memblock_remove :: "boot_env \<Rightarrow> u64 \<Rightarrow> u64 \<Rightarrow> memblock_state \<Rightarrow> mb_result" where
  "memblock_remove env base sz = memblock_remove_range (doubler_of env) Memory base sz"

definition memblock_free :: "boot_env \<Rightarrow> u64 \<Rightarrow> u64 \<Rightarrow> memblock_state \<Rightarrow> mb_result" where
  "memblock_free env base sz = memblock_remove_range (doubler_of env) Reserved base sz"

definition memblock_reserve :: "boot_env \<Rightarrow> u64 \<Rightarrow> u64 \<Rightarrow> memblock_state \<Rightarrow> mb_result" where
  "memblock_reserve env base sz = memblock_add_range (doubler_of env) Reserved base sz MAX_NUMNODES 0"

text \<open>\<^verbatim>\<open>for (i = start_rgn; i < end_rgn; i++)\<close> with an update of each region.\<close>

fun update_regions :: "(memblock_region \<Rightarrow> memblock_region) \<Rightarrow> nat \<Rightarrow> nat \<Rightarrow> memblock_type \<Rightarrow> memblock_type" where
  "update_regions f i 0 t = t"
| "update_regions f i (Suc n) t =
     update_regions f (i + 1) n (t\<lparr>mt_regions := (mt_regions t)[i := f (mt_regions t ! i)]\<rparr>)"

definition memblock_setclr_flag :: "boot_env \<Rightarrow> u64 \<Rightarrow> u64 \<Rightarrow> bool \<Rightarrow> memblock_flags \<Rightarrow> memblock_state \<Rightarrow>
    mb_result" where
  "memblock_setclr_flag env base sz set_flag flag s =
     run_bind (memblock_isolate_range (doubler_of env) Memory base sz s)
       (\<lambda>(ret, start_rgn, end_rgn, s').
          if ret \<noteq> 0 then Inr (ret, s')
          else run_bind
            (memblock_merge_regions
               (update_regions
                  (\<lambda>r. if set_flag then memblock_set_region_flags r flag
                       else memblock_clear_region_flags r flag)
                  start_rgn (end_rgn - start_rgn) (mb_memory s')))
            (\<lambda>t. Inr (0, s'\<lparr>mb_memory := t\<rparr>)))"

definition memblock_mark_hotplug :: "boot_env \<Rightarrow> u64 \<Rightarrow> u64 \<Rightarrow> memblock_state \<Rightarrow> mb_result" where
  "memblock_mark_hotplug env base sz = memblock_setclr_flag env base sz True MEMBLOCK_HOTPLUG"

definition memblock_clear_hotplug :: "boot_env \<Rightarrow> u64 \<Rightarrow> u64 \<Rightarrow> memblock_state \<Rightarrow> mb_result" where
  "memblock_clear_hotplug env base sz = memblock_setclr_flag env base sz False MEMBLOCK_HOTPLUG"

definition memblock_mark_mirror :: "boot_env \<Rightarrow> u64 \<Rightarrow> u64 \<Rightarrow> memblock_state \<Rightarrow> mb_result" where
  "memblock_mark_mirror env base sz s =
     memblock_setclr_flag env base sz True MEMBLOCK_MIRROR (s\<lparr>system_has_some_mirror := True\<rparr>)"

definition memblock_mark_nomap :: "boot_env \<Rightarrow> u64 \<Rightarrow> u64 \<Rightarrow> memblock_state \<Rightarrow> mb_result" where
  "memblock_mark_nomap env base sz = memblock_setclr_flag env base sz True MEMBLOCK_NOMAP"

definition memblock_clear_nomap :: "boot_env \<Rightarrow> u64 \<Rightarrow> u64 \<Rightarrow> memblock_state \<Rightarrow> mb_result" where
  "memblock_clear_nomap env base sz = memblock_setclr_flag env base sz False MEMBLOCK_NOMAP"

definition memblock_set_node :: "boot_env \<Rightarrow> u64 \<Rightarrow> u64 \<Rightarrow> mb_sel \<Rightarrow> int \<Rightarrow> memblock_state \<Rightarrow> mb_result" where
  "memblock_set_node env base sz sel nid s =
     run_bind (memblock_isolate_range (doubler_of env) sel base sz s)
       (\<lambda>(ret, start_rgn, end_rgn, s').
          if ret \<noteq> 0 then Inr (ret, s')
          else run_bind
            (memblock_merge_regions
               (update_regions (\<lambda>r. memblock_set_region_node r nid) start_rgn (end_rgn - start_rgn)
                  (get_type sel s')))
            (\<lambda>t. Inr (0, put_type sel t s')))"

section \<open>What adding a range does to the list of regions\<close>

abbreviation new_region :: "u64 \<Rightarrow> u64 \<Rightarrow> int \<Rightarrow> memblock_flags \<Rightarrow> memblock_region" where
  "new_region b e nid fl \<equiv> \<lparr>mr_base = b, mr_size = e - b, mr_flags = fl, mr_nid = nid\<rparr>"

fun add_list :: "u64 \<Rightarrow> u64 \<Rightarrow> int \<Rightarrow> memblock_flags \<Rightarrow> memblock_region list \<Rightarrow> memblock_region list" where
  "add_list b e nid fl [] = (if b < e then [new_region b e nid fl] else [])"
| "add_list b e nid fl (r # rs) =
     (if e \<le> mr_base r then (if b < e then new_region b e nid fl # r # rs else r # rs)
      else if mr_end r \<le> b then r # add_list b e nid fl rs
      else if b < mr_base r then
        new_region b (mr_base r) nid fl # r # add_list (min (mr_end r) e) e nid fl rs
      else r # add_list (min (mr_end r) e) e nid fl rs)"

lemma mr_end_new [simp]: "b \<le> e \<Longrightarrow> mr_end (new_region b e nid fl) = e"
  by (simp add: mr_end_def)

lemma covers_new: "covers (new_region b e nid fl) a \<longleftrightarrow> b \<le> a \<and> a < e"
  by (auto simp: covers_def mr_end_def)

lemma length_add_list: "length rs \<le> length (add_list b e nid fl rs)"
  by (induction rs arbitrary: b) (auto intro: le_SucI)

lemma add_list_base:
  "x \<in> set (add_list b e nid fl rs) \<Longrightarrow> \<forall>r\<in>set rs. lo \<le> mr_base r \<Longrightarrow> lo \<le> b \<Longrightarrow> lo \<le> mr_base x"
proof (induction rs arbitrary: b)
  case (Cons r rs)
  have "x \<in> set (add_list (min (mr_end r) e) e nid fl rs) \<Longrightarrow> lo \<le> min (mr_end r) e \<Longrightarrow> lo \<le> mr_base x"
    using Cons.IH Cons.prems(2) by simp
  moreover have "lo \<le> mr_end r" using Cons.prems(2) by (simp add: mr_end_def)
  ultimately show ?case using Cons by (auto split: if_splits)
qed (auto split: if_splits)

lemma add_list_nonempty: "nonempty rs \<Longrightarrow> nonempty (add_list b e nid fl rs)"
  by (induction rs arbitrary: b) (auto simp: nonempty_def)

lemma add_list_ordered:
  "ordered rs \<Longrightarrow> e \<le> PHYS_ADDR_MAX \<Longrightarrow> ordered (add_list b e nid fl rs)"
proof (induction rs arbitrary: b)
  case (Cons r rs)
  have rs: "ordered rs" "\<forall>s\<in>set rs. mr_end r \<le> mr_base s" and r: "mr_end r \<le> PHYS_ADDR_MAX"
    using Cons.prems(1) by (auto simp: ordered_Cons)
  have tl: "\<forall>x\<in>set (add_list b' e nid fl rs). mr_end r \<le> mr_base x" if "mr_end r \<le> b'" for b'
    using add_list_base [of _ b' e nid fl rs "mr_end r"] rs that by blast
  have stop: "add_list (min (mr_end r) e) e nid fl rs = rs" if "e \<le> mr_end r"
  proof (cases rs)
    case (Cons s ss)
    with rs(2) that have "e \<le> mr_base s" by simp
    with Cons that show ?thesis by (simp add: min_def)
  qed (use that in simp)
  have keep: "\<forall>x\<in>set (add_list (min (mr_end r) e) e nid fl rs). mr_end r \<le> mr_base x"
    using tl [of "mr_end r"] stop rs(2) by (cases "e \<le> mr_end r") (simp_all add: min_def)
  have IH: "ordered (add_list b' e nid fl rs)" for b' using Cons.IH rs(1) Cons.prems(2) by blast
  show ?case
  proof (cases "e \<le> mr_base r")
    case True
    moreover have "\<forall>s\<in>set rs. e \<le> mr_base s" using True rs(2) by (meson le_trans mr_base_le_end)
    ultimately show ?thesis using Cons.prems by (simp add: ordered_Cons)
  next
    case False
    have "\<forall>s\<in>set (add_list (min (mr_end r) e) e nid fl rs). mr_base r \<le> mr_base s"
      using keep by (meson le_trans mr_base_le_end)
    moreover have "mr_base r \<le> PHYS_ADDR_MAX" using r mr_base_le_end [of r] by linarith
    ultimately show ?thesis
      using False IH r tl [of b] keep by (simp add: ordered_Cons)
  qed
qed (simp add: ordered_Cons)

lemma add_list_amap:
  "ordered rs \<Longrightarrow> amap (add_list b e nid fl rs) a =
     (case amap rs a of Some v \<Rightarrow> Some v | None \<Rightarrow> if b \<le> a \<and> a < e then Some (nid, fl) else None)"
proof (induction rs arbitrary: b)
  case (Cons r rs)
  have rs: "ordered rs" "\<forall>s\<in>set rs. mr_end r \<le> mr_base s"
    using Cons.prems(1) by (auto simp: ordered_Cons)
  note IH = Cons.IH [OF rs(1)]
  have low: "amap rs a = None" if "a < mr_end r" using amap_below [of rs a] rs(2) that by force
  show ?case
  proof (cases "covers r a")
    case True
    then show ?thesis by (auto simp: covers_new) (auto simp: covers_def)
  next
    case False
    then have "a < mr_base r \<or> mr_end r \<le> a" by (auto simp: covers_def)
    then show ?thesis
    proof
      assume a: "a < mr_base r"
      then have "amap rs a = None" using low mr_base_le_end [of r] by linarith
      moreover have "\<not> mr_end r \<le> a" using a mr_base_le_end [of r] by linarith
      ultimately show ?thesis using False a IH by (auto simp: covers_new)
    next
      assume a: "mr_end r \<le> a"
      then have "mr_base r \<le> a" using mr_base_le_end [of r] by linarith
      with a show ?thesis using False IH by (auto simp: covers_new split: option.splits)
    qed
  qed
qed (auto simp: covers_new)

subsection \<open>The passes compute it\<close>

lemma add_scan_count:
  assumes "wf_array t" "live t = pre @ rs" "idx = length pre" "ordered rs"
  shows "\<exists>i b' n'. add_scan False e nid fl idx b n t = Inr (i, b', n', t) \<and>
    n' + (if b' < e then 1 else 0) + length rs = n + length (add_list b e nid fl rs)"
  using assms
proof (induction rs arbitrary: pre idx b n)
  case Nil
  then have "\<not> idx < mt_cnt t" using length_live [OF Nil(1)] by simp
  then show ?case by (simp add: add_scan.simps [of False e nid fl idx])
next
  case (Cons r rs)
  have i: "idx < mt_cnt t" "mt_regions t ! idx = r"
    using live_split_nth [of t pre r rs idx] Cons.prems by auto
  have e: "u64_add (mr_base r) (mr_size r) = mr_end r"
    using Cons.prems(4) by (simp add: ordered_Cons u64_add_mr_end)
  note step = add_scan.simps [of False e nid fl idx b n t]
  have IH: "\<exists>i b'' n''. add_scan False e nid fl (idx + 1) b' n' t = Inr (i, b'', n'', t) \<and>
      n'' + (if b'' < e then 1 else 0) + length rs = n' + length (add_list b' e nid fl rs)" for b' n'
    using Cons.IH [of "pre @ [r]" "idx + 1" b' n'] Cons.prems by (simp add: ordered_Cons)
  show ?case
  proof (cases "e \<le> mr_base r")
    case True
    then show ?thesis using i e by (simp add: step Let_def)
  next
    case False
    then show ?thesis
      using i e IH [of b n] IH [of "min (mr_end r) e" n] IH [of "min (mr_end r) e" "n + 1"]
      by (force simp: step Let_def)
  qed
qed

lemma add_scan_insert:
  assumes "wf_array t" "live t = pre @ rs" "idx = length pre" "ordered rs" "e \<le> PHYS_ADDR_MAX"
    and "length pre + length (add_list b e nid fl rs) \<le> mt_max t"
  shows "\<exists>pre' rest b' t'. add_scan True e nid fl idx b n t =
      Inr (length pre', b', n + (length pre' + length rest - (length pre + length rs)), t') \<and>
    arr_upd t (pre' @ rest) t' \<and> length pre + length rs \<le> length pre' + length rest \<and>
    pre @ add_list b e nid fl rs = pre' @ (if b' < e then new_region b' e nid fl # rest else rest)"
  using assms
proof (induction rs arbitrary: t pre idx b n)
  case Nil
  then have "\<not> idx < mt_cnt t" using length_live [OF Nil(1)] by simp
  then show ?case
    using Nil arr_upd_refl [of t]
    by (rule_tac exI [of _ pre], rule_tac exI [of _ "[]"], rule_tac exI [of _ b], rule_tac exI [of _ t])
      (simp add: add_scan.simps [of True e nid fl "length pre"])
next
  case (Cons r rs)
  have i: "idx < mt_cnt t" "mt_regions t ! idx = r" "mt_cnt t = Suc (idx + length rs)"
    using live_split_nth [of t pre r rs idx] Cons.prems by auto
  have r: "mr_end r \<le> PHYS_ADDR_MAX" "ordered rs" using Cons.prems(4) by (auto simp: ordered_Cons)
  have e: "u64_add (mr_base r) (mr_size r) = mr_end r" using r by (simp add: u64_add_mr_end)
  note step = add_scan.simps [of True e nid fl idx b n t]
  consider "e \<le> mr_base r" | "mr_base r < e" "mr_end r \<le> b" | "mr_base r < e" "b < mr_end r" "mr_base r \<le> b"
    | "mr_base r < e" "b < mr_base r"
    by linarith
  then show ?case
  proof cases
    case 1
    then show ?thesis
      using i e Cons.prems arr_upd_refl [of t]
      by (rule_tac exI [of _ pre], rule_tac exI [of _ "r # rs"], rule_tac exI [of _ b], rule_tac exI [of _ t])
        (simp add: add_scan.simps [of True e nid fl "length pre"] Let_def)
  next
    case 2
    then have eq: "add_scan True e nid fl idx b n t = add_scan True e nid fl (idx + 1) b n t"
      using i e by (simp add: step Let_def)
    show ?thesis
      unfolding eq using Cons.IH [of t "pre @ [r]" "idx + 1" b n] Cons.prems 2 r(2) by simp
  next
    case 3
    then have eq: "add_scan True e nid fl idx b n t = add_scan True e nid fl (idx + 1) (min (mr_end r) e) n t"
      using i e by (simp add: step Let_def)
    show ?thesis
      unfolding eq using Cons.IH [of t "pre @ [r]" "idx + 1" "min (mr_end r) e" n] Cons.prems 3 r(2) by simp
  next
    case 4
    have "\<not> mr_end r \<le> b" using 4 mr_base_le_end [of r] by linarith
    note al = this
    let ?b = "min (mr_end r) e"
    have len: "Suc (Suc (length pre + length (add_list ?b e nid fl rs))) \<le> mt_max t"
      using Cons.prems(6) 4 al by simp
    then have "mt_cnt t < mt_max t"
      using i(3) Cons.prems(3) length_add_list [of rs ?b e nid fl] by simp
    moreover have "idx \<le> mt_cnt t" using i by simp
    ultimately obtain t1 where t1: "memblock_insert_region t idx b (mr_base r - b) nid fl = Inr t1"
      "arr_upd t (take idx (live t) @ new_region b (mr_base r) nid fl # drop idx (live t)) t1"
      using insert_region_arr [OF Cons.prems(1)] by metis
    let ?pre = "pre @ [new_region b (mr_base r) nid fl, r]"
    have u1: "arr_upd t (?pre @ rs) t1" using t1(2) Cons.prems(2,3) by simp
    have "mr_base r \<le> PHYS_ADDR_MAX" using r(1) mr_base_le_end [of r] by linarith
    then have sub: "u64_sub (mr_base r) b = mr_base r - b" using 4 by (simp add: u64_sub_max)
    have eq: "add_scan True e nid fl idx b n t = add_scan True e nid fl (idx + 2) ?b (n + 1) t1"
      using i e 4 al t1(1) by (simp add: step Let_def sub)
    have "\<exists>pre' rest b' t'. add_scan True e nid fl (idx + 2) ?b (n + 1) t1 =
        Inr (length pre', b', (n + 1) + (length pre' + length rest - (length ?pre + length rs)), t') \<and>
      arr_upd t1 (pre' @ rest) t' \<and> length ?pre + length rs \<le> length pre' + length rest \<and>
      ?pre @ add_list ?b e nid fl rs = pre' @ (if b' < e then new_region b' e nid fl # rest else rest)"
      by (rule Cons.IH) (use u1 Cons.prems r(2) len in \<open>auto dest: arr_updD\<close>)
    then obtain pre' rest b' t' where *: "add_scan True e nid fl (idx + 2) ?b (n + 1) t1 =
        Inr (length pre', b', (n + 1) + (length pre' + length rest - (length ?pre + length rs)), t')"
      "arr_upd t1 (pre' @ rest) t'" "length ?pre + length rs \<le> length pre' + length rest"
      "?pre @ add_list ?b e nid fl rs = pre' @ (if b' < e then new_region b' e nid fl # rest else rest)"
      by blast
    show ?thesis
    proof (intro exI conjI)
      show "add_scan True e nid fl idx b n t =
          Inr (length pre', b', n + (length pre' + length rest - (length pre + length (r # rs))), t')"
        using *(1,3) by (simp add: eq)
      show "arr_upd t (pre' @ rest) t'" using u1 *(2) by (rule arr_upd_trans)
      show "length pre + length (r # rs) \<le> length pre' + length rest" using *(3) by simp
      show "pre @ add_list b e nid fl (r # rs) = pre' @ (if b' < e then new_region b' e nid fl # rest else rest)"
        using *(4) 4 al by simp
    qed
  qed
qed

lemma add_pass_count:
  assumes "wf_array t" "ordered (live t)"
  shows "\<exists>n. add_pass False b e nid fl t = Inr (n, t) \<and> n + mt_cnt t = length (add_list b e nid fl (live t))"
  using add_scan_count [of t "[]" "live t" 0 e nid fl b 0] assms
  by (auto simp: add_pass_def split: if_splits)

lemma add_pass_insert:
  assumes "wf_array t" "ordered (live t)" "e \<le> PHYS_ADDR_MAX"
    and "length (add_list b e nid fl (live t)) \<le> mt_max t"
  shows "\<exists>n t'. add_pass True b e nid fl t = Inr (n, t') \<and>
    n + mt_cnt t = length (add_list b e nid fl (live t)) \<and> arr_upd t (add_list b e nid fl (live t)) t'"
proof -
  obtain pre rest b' t1 where *: "add_scan True e nid fl 0 b 0 t =
      Inr (length pre, b', length pre + length rest - mt_cnt t, t1)"
    "arr_upd t (pre @ rest) t1" "mt_cnt t \<le> length pre + length rest"
    "add_list b e nid fl (live t) = pre @ (if b' < e then new_region b' e nid fl # rest else rest)"
    using add_scan_insert [of t "[]" "live t" 0 e b nid fl 0] assms by auto
  show ?thesis
  proof (cases "b' < e")
    case True
    have "wf_array t1" "length pre \<le> mt_cnt t1" "mt_cnt t1 < mt_max t1"
      using *(2,4) True assms(4) arr_updD [OF *(2)] by auto
    then obtain t2 where t2: "memblock_insert_region t1 (length pre) b' (e - b') nid fl = Inr t2"
      "arr_upd t1 (take (length pre) (live t1) @ new_region b' e nid fl # drop (length pre) (live t1)) t2"
      using insert_region_arr by metis
    have "u64_sub e b' = e - b'" using True assms(3) by (simp add: u64_sub_max)
    moreover have "arr_upd t (add_list b e nid fl (live t)) t2"
      using arr_upd_trans [OF *(2) t2(2)] *(4) True arr_updD(2) [OF *(2)] by simp
    ultimately show ?thesis using * True t2(1) by (simp add: add_pass_def)
  next
    case False
    then show ?thesis using * by (simp add: add_pass_def)
  qed
qed

lemma add_list_same: "length (add_list b e nid fl rs) = length rs \<Longrightarrow> add_list b e nid fl rs = rs"
proof (induction rs arbitrary: b)
  case (Cons r rs)
  then show ?case
    using length_add_list [of rs "min (mr_end r) e" e nid fl] by (auto split: if_splits)
qed (auto split: if_splits)

lemma cap_size_end:
  assumes "base \<le> PHYS_ADDR_MAX"
  shows "memblock_cap_size base sz = min sz (PHYS_ADDR_MAX - base)"
    "u64_add base (memblock_cap_size base sz) = min (base + sz) PHYS_ADDR_MAX"
  using assms by (auto simp: memblock_cap_size_def u64_sub_max u64_add_max min_def)

lemma put_get [simp]: "put_type sel (get_type sel s) s = s" "get_type sel (put_type sel t s) = t"
  by (cases sel; simp)+

lemma grow_array_room:
  "mt_cnt (get_type sel s) + n \<le> mt_max (get_type sel s) \<Longrightarrow> grow_array 65 dbl sel n b sz s = Inr (0, s)"
  by (simp add: numeral_eq_Suc)

lemma dummy_or_nonempty_hd:
  assumes "wf_type t"
  shows "mr_size (mt_regions t ! 0) = 0 \<longleftrightarrow> is_dummy (live t)"
proof -
  have "0 < mt_cnt t" "length (live t) = mt_cnt t" using assms by (auto simp: wf_type_def)
  then have "mt_regions t ! 0 = live t ! 0" "live t ! 0 \<in> set (live t)"
    by (simp_all add: regions_nth_live del: length_live)
  moreover have "mr_size (live t ! 0) = 0" if "is_dummy (live t)" using that by (auto simp: is_dummy_def)
  ultimately show ?thesis using assms unfolding wf_type_def nonempty_def by (metis less_numeral_extra(3))
qed

text \<open>The regions after a range is added, as a function on lists.\<close>

definition add_regions :: "u64 \<Rightarrow> u64 \<Rightarrow> int \<Rightarrow> memblock_flags \<Rightarrow> memblock_region list \<Rightarrow> memblock_region list" where
  "add_regions b e nid fl rs =
     (if e \<le> b then rs else if is_dummy rs then [new_region b e nid fl]
      else if add_list b e nid fl rs = rs then rs else merge_list (add_list b e nid fl rs))"

lemma add_regions_amap:
  assumes "ordered rs" "e \<le> PHYS_ADDR_MAX"
  shows "amap (add_regions b e nid fl rs) a =
    (case amap rs a of Some v \<Rightarrow> Some v | None \<Rightarrow> if b \<le> a \<and> a < e then Some (nid, fl) else None)"
  using add_list_amap [OF assms(1), of b e nid fl a] amap_dummy [of rs a]
    merge_list_amap [OF add_list_ordered [OF assms]]
  by (auto simp: add_regions_def covers_new split: option.splits)

lemma add_regions_ordered: "ordered rs \<Longrightarrow> e \<le> PHYS_ADDR_MAX \<Longrightarrow> ordered (add_regions b e nid fl rs)"
  by (simp add: add_regions_def add_list_ordered merge_list_ordered ordered_Cons)

lemma add_regions_nonempty:
  "is_dummy rs \<or> nonempty rs \<Longrightarrow> is_dummy (add_regions b e nid fl rs) \<or> nonempty (add_regions b e nid fl rs)"
  by (auto simp: add_regions_def intro: merge_list_nonempty add_list_nonempty) (simp_all add: nonempty_def)

lemma add_regions_minimal: "minimal rs \<Longrightarrow> minimal (add_regions b e nid fl rs)"
  by (simp add: add_regions_def merge_list_minimal)

lemma add_regions_neq_Nil: "rs \<noteq> [] \<Longrightarrow> add_regions b e nid fl rs \<noteq> []"
  using length_add_list [of rs b e nid fl] by (auto simp: add_regions_def)

text \<open>
  With room in the array, adding a range is exactly \<open>add_regions\<close>: no failure, no growth,
  and the other array is left alone.
\<close>

lemma wf_type_upd:
  assumes "arr_upd t L t'" "L \<noteq> []" "ordered L" "is_dummy L \<or> nonempty L"
  shows "wf_type t'"
  using assms arr_updD [OF assms(1)] by (simp add: wf_type_def)

lemma add_range_room:
  assumes wf: "wf_type (get_type sel s)" and base: "base \<le> PHYS_ADDR_MAX"
    and e: "e = min (base + sz) PHYS_ADDR_MAX"
    and room: "length (add_list base e nid fl (live (get_type sel s))) \<le> mt_max (get_type sel s)"
  shows "\<exists>t'. memblock_add_range dbl sel base sz nid fl s = Inr (0, put_type sel t' s) \<and>
    arr_upd (get_type sel s) (add_regions base e nid fl (live (get_type sel s))) t'"
proof -
  define t where "t = get_type sel s"
  note cap = cap_size_end [OF base, of sz]
  have wfa: "wf_array t" and ord: "ordered (live t)" using wf by (simp_all add: t_def wf_type_def)
  have eM: "e \<le> PHYS_ADDR_MAX" using e by simp
  consider "e \<le> base" | "base < e" "is_dummy (live t)" | "base < e" "\<not> is_dummy (live t)" by linarith
  then show ?thesis
  proof cases
    case 1
    then have "memblock_cap_size base sz = 0" using cap base e by auto
    then show ?thesis
      using 1 arr_upd_refl [OF wfa] by (intro exI [of _ t]) (simp add: memblock_add_range_def add_regions_def t_def)
  next
    case 2
    then have ne: "memblock_cap_size base sz \<noteq> 0" "memblock_cap_size base sz = e - base"
      using cap(1) base e by auto
    have d: "mr_size (mt_regions t ! 0) = 0" using 2 dummy_or_nonempty_hd [OF wf] by (simp add: t_def)
    define t' where "t' = t\<lparr>mt_regions := (mt_regions t)[0 := new_region base e nid fl], mt_total_size := e - base\<rparr>"
    have "mt_cnt t = 1" using 2(2) length_live [OF wfa] by (auto simp: is_dummy_def)
    then have "arr_upd t [new_region base e nid fl] t'"
      using wfa eM by (cases "mt_regions t") (auto simp: arr_upd_def wf_array_def live_def t'_def less_u64_lim_iff)
    moreover have "memblock_add_range dbl sel base sz nid fl s = Inr (0, put_type sel t' s)"
      using ne d by (simp add: memblock_add_range_def Let_def t'_def t_def)
    ultimately show ?thesis
      unfolding t_def [symmetric] using 2 by (intro exI [of _ t']) (simp add: add_regions_def)
  next
    case 3
    then have ne: "memblock_cap_size base sz \<noteq> 0" using cap base e by auto
    have d: "mr_size (mt_regions t ! 0) \<noteq> 0" using 3 dummy_or_nonempty_hd [OF wf] by (simp add: t_def)
    have u: "u64_add base (memblock_cap_size base sz) = e" using cap e by simp
    obtain n where n: "add_pass False base e nid fl t = Inr (n, t)"
      "n + mt_cnt t = length (add_list base e nid fl (live t))"
      using add_pass_count [OF wfa ord] by blast
    show ?thesis
    proof (cases "n = 0")
      case True
      then have "length (add_list base e nid fl (live t)) = length (live t)"
        using n(2) length_live [OF wfa] by linarith
      then have "add_list base e nid fl (live t) = live t" by (rule add_list_same)
      then show ?thesis
        using 3 True n(1) ne d u arr_upd_refl [OF wfa]
        by (intro exI [of _ t]) (simp add: memblock_add_range_def Let_def add_regions_def t_def)
    next
      case False
      have g: "grow_array 65 dbl sel n base (memblock_cap_size base sz) s = Inr (0, s)"
        by (rule grow_array_room) (use room n(2) in \<open>simp add: t_def\<close>)
      obtain m t1 where t1: "add_pass True base e nid fl t = Inr (m, t1)"
        "m + mt_cnt t = length (add_list base e nid fl (live t))" "arr_upd t (add_list base e nid fl (live t)) t1"
        using add_pass_insert [OF wfa ord eM room [folded t_def]] by blast
      have m: "m \<noteq> 0" "add_list base e nid fl (live t) \<noteq> live t"
        using t1(2) n(2) False length_live [OF wfa] by auto
      obtain t2 where t2: "memblock_merge_regions t1 = Inr t2" "arr_upd t1 (merge_list (live t1)) t2"
        by (rule merge_regions_arr [of t1])
          (use arr_updD [OF t1(3)] add_list_ordered [OF ord eM] in simp_all)
      have "arr_upd t (add_regions base e nid fl (live t)) t2"
        using arr_upd_trans [OF t1(3) t2(2)] arr_updD(2) [OF t1(3)] 3 m by (simp add: add_regions_def)
      moreover have "memblock_add_range dbl sel base sz nid fl s = Inr (0, put_type sel t2 s)"
        using 3 n(1) ne d u g t1(1) t2(1) m(1) False by (simp add: memblock_add_range_def Let_def t_def)
      ultimately show ?thesis unfolding t_def [symmetric] by blast
    qed
  qed
qed

section \<open>What isolating a range does to the list of regions\<close>

definition cut_lo :: "memblock_region \<Rightarrow> u64 \<Rightarrow> memblock_region" where
  "cut_lo r x = \<lparr>mr_base = mr_base r, mr_size = x - mr_base r, mr_flags = mr_flags r, mr_nid = mr_nid r\<rparr>"

definition cut_hi :: "memblock_region \<Rightarrow> u64 \<Rightarrow> memblock_region" where
  "cut_hi r x = r\<lparr>mr_base := x, mr_size := mr_end r - x\<rparr>"

definition crosses :: "memblock_region \<Rightarrow> u64 \<Rightarrow> bool" where
  "crosses r x \<longleftrightarrow> mr_base r < x \<and> x < mr_end r"

text \<open>Cut the region that crosses \<open>x\<close>, if there is one.\<close>

fun split_at :: "u64 \<Rightarrow> memblock_region list \<Rightarrow> memblock_region list" where
  "split_at x [] = []"
| "split_at x (r # rs) = (if crosses r x then cut_lo r x # cut_hi r x # rs else r # split_at x rs)"

lemma cut_simps [simp]:
  "mr_base (cut_lo r x) = mr_base r" "mr_nid (cut_lo r x) = mr_nid r" "mr_flags (cut_lo r x) = mr_flags r"
  "mr_base (cut_hi r x) = x" "mr_nid (cut_hi r x) = mr_nid r" "mr_flags (cut_hi r x) = mr_flags r"
  "mr_base r \<le> x \<Longrightarrow> mr_end (cut_lo r x) = x" "x \<le> mr_end r \<Longrightarrow> mr_end (cut_hi r x) = mr_end r"
  by (simp_all add: cut_lo_def cut_hi_def mr_end_def)

lemma split_at_id: "\<forall>r\<in>set rs. \<not> crosses r x \<Longrightarrow> split_at x rs = rs"
  by (induction rs) auto

lemma split_at_append: "\<forall>r\<in>set xs. \<not> crosses r x \<Longrightarrow> split_at x (xs @ ys) = xs @ split_at x ys"
  by (induction xs) auto

lemma split_at_neq_Nil [simp]: "split_at x rs = [] \<longleftrightarrow> rs = []"
  by (cases rs) auto

lemma split_at_bases: "r \<in> set (split_at x rs) \<Longrightarrow> \<exists>q\<in>set rs. mr_base q \<le> mr_base r \<and> mr_end r \<le> mr_end q"
  by (induction rs) (auto simp: crosses_def split: if_splits)

lemma split_at_ordered: "ordered rs \<Longrightarrow> ordered (split_at x rs)"
proof (induction rs)
  case (Cons r rs)
  have rs: "\<forall>q\<in>set rs. mr_end r \<le> mr_base q" using Cons.prems by (simp add: ordered_Cons)
  show ?case
  proof (cases "crosses r x")
    case True
    then have "x < mr_end r" "mr_base r < x" by (simp_all add: crosses_def)
    moreover have "\<forall>q\<in>set rs. x \<le> mr_base q" using rs calculation(1) by force
    ultimately show ?thesis using Cons.prems True by (simp add: ordered_Cons)
  next
    case False
    have "\<forall>q\<in>set (split_at x rs). mr_end r \<le> mr_base q"
      using split_at_bases [of _ x rs] rs by (meson le_trans)
    then show ?thesis using Cons False by (simp add: ordered_Cons)
  qed
qed simp

lemma split_at_nonempty: "nonempty rs \<Longrightarrow> nonempty (split_at x rs)"
  by (induction rs) (auto simp: nonempty_def crosses_def cut_lo_def cut_hi_def)

lemma split_at_amap: "amap (split_at x rs) a = amap rs a"
  by (induction rs) (auto simp: covers_def crosses_def)

lemma split_at_sizes: "sizes (split_at x rs) = sizes rs"
  by (induction rs) (auto simp: crosses_def cut_lo_def cut_hi_def mr_end_def)

lemma split_at_length: "length (split_at x rs) \<le> length rs + 1"
  by (induction rs) auto

subsection \<open>The scan computes it\<close>

lemma split_arr:
  assumes "wf_array t" "live t = pre @ r # rs" "idx = length pre" "crosses r x" "mr_end r \<le> PHYS_ADDR_MAX"
    and "mt_cnt t < mt_max t"
  obtains t' where "memblock_insert_region
      (t\<lparr>mt_regions := (mt_regions t)[idx := r\<lparr>mr_base := x, mr_size := u64_sub (mr_size r) (u64_sub x (mr_base r))\<rparr>],
         mt_total_size := u64_sub (mt_total_size t) (u64_sub x (mr_base r))\<rparr>)
      idx (mr_base r) (u64_sub x (mr_base r)) (memblock_get_region_node r) (mr_flags r) = Inr t'"
    "arr_upd t (pre @ cut_lo r x # cut_hi r x # rs) t'"
proof -
  have x: "mr_base r < x" "x < mr_end r" using assms(4) by (auto simp: crosses_def)
  have sub: "u64_sub x (mr_base r) = x - mr_base r" using x assms(5) by (simp add: u64_sub_max)
  have sub': "u64_sub (mr_size r) (x - mr_base r) = mr_end r - x"
    using x assms(5) by (subst u64_sub_max) (auto simp: mr_end_def)
  have hi: "r\<lparr>mr_base := x, mr_size := mr_end r - x\<rparr> = cut_hi r x" by (simp add: cut_hi_def)
  define t1 where "t1 = t\<lparr>mt_regions := (mt_regions t)[idx := cut_hi r x],
      mt_total_size := u64_sub (mt_total_size t) (x - mr_base r)\<rparr>"
  have live1: "live t1 = pre @ cut_hi r x # rs"
    using assms(2,3) by (simp add: live_def t1_def take_update_swap list_update_append)
  have "sizes (live t) = sizes (live t1) + (x - mr_base r)"
    using x assms(2) live1 by (simp add: cut_hi_def mr_end_def)
  then have "mt_total_size t = (sizes (live t1) + (x - mr_base r)) mod u64_lim"
    using assms(1) by (simp add: wf_array_def)
  moreover have "mt_total_size t1 = u64_sub (mt_total_size t) (x - mr_base r)" by (simp add: t1_def)
  ultimately have "mt_total_size t1 = sizes (live t1) mod u64_lim"
    using u64_sub_mod by simp
  then have u1: "arr_upd t (live t1) t1"
    using assms(1) by (simp add: arr_upd_def wf_array_def t1_def)
  moreover have "idx \<le> mt_cnt t1" "mt_cnt t1 < mt_max t1"
    using assms(3,6) arr_updD [OF u1] live1 length_live [OF assms(1)] assms(2) by auto
  ultimately obtain t' where t': "memblock_insert_region t1 idx (mr_base r) (x - mr_base r)
      (memblock_get_region_node r) (mr_flags r) = Inr t'"
    "arr_upd t1 (take idx (live t1) @ \<lparr>mr_base = mr_base r, mr_size = x - mr_base r, mr_flags = mr_flags r,
       mr_nid = memblock_get_region_node r\<rparr> # drop idx (live t1)) t'"
    using insert_region_arr [OF arr_updD(1) [OF u1]] by metis
  have "arr_upd t (pre @ cut_lo r x # cut_hi r x # rs) t'"
    using arr_upd_trans [OF u1 t'(2)] live1 assms(3)
    by (simp add: cut_lo_def memblock_get_region_node_def)
  then show ?thesis using that t'(1) by (simp add: sub sub' hi t1_def)
qed

lemma isolate_stop:
  assumes "wf_array t" "live t = pre @ rs" "idx = length pre" "\<forall>r\<in>set rs. e \<le> mr_base r"
  shows "isolate_scan (Suc n) b e idx st en t = Inr (st, en, t)"
proof (cases rs)
  case Nil
  then show ?thesis using assms length_live [of t] by simp
next
  case (Cons r rs')
  then have "idx < mt_cnt t" "mt_regions t ! idx = r"
    using live_split_nth [of t pre r rs'] assms by auto
  then show ?thesis using Cons assms(4) by (simp add: Let_def)
qed

text \<open>From the first region inside the range on, only the upper end can be crossed.\<close>

lemma isolate_upper:
  assumes "wf_array t" "live t = lo @ mid @ rs" "b < e" "ordered rs" "\<forall>r\<in>set rs. b \<le> mr_base r" "nonempty rs"
    and "mt_cnt t + 1 \<le> mt_max t" "length rs + 2 \<le> n"
    and "if mid = [] then st = 0 \<and> en = 0 else st = length lo \<and> en = length lo + length mid"
  shows "\<exists>mid' hi st' en' t'. isolate_scan n b e (length lo + length mid) st en t = Inr (st', en', t') \<and>
    arr_upd t (lo @ mid @ mid' @ hi) t' \<and> mid' @ hi = split_at e rs \<and>
    (\<forall>r\<in>set mid'. b \<le> mr_base r \<and> mr_end r \<le> e) \<and> (\<forall>r\<in>set hi. e \<le> mr_base r) \<and>
    (if mid @ mid' = [] then st' = 0 \<and> en' = 0 else st' = length lo \<and> en' = length lo + length (mid @ mid'))"
  using assms
proof (induction rs arbitrary: mid n st en)
  case Nil
  then obtain m where "n = Suc m" by (cases n) auto
  then show ?case
    using isolate_stop [of t "lo @ mid" "[]" "length lo + length mid" e m b st en] Nil arr_upd_refl [of t]
    by (intro exI [of _ "[]"]) simp
next
  case (Cons r rs)
  obtain m where m: "n = Suc m" "length rs + 2 \<le> m" using Cons.prems(8) by (cases n) auto
  let ?i = "length lo + length mid"
  have i: "?i < mt_cnt t" "mt_regions t ! ?i = r"
    using live_split_nth [of t "lo @ mid" r rs ?i] Cons.prems(1,2) by auto
  have r: "mr_end r \<le> PHYS_ADDR_MAX" "ordered rs" "\<forall>q\<in>set rs. mr_end r \<le> mr_base q" "b \<le> mr_base r" "b < mr_end r"
    using Cons.prems(4-6) by (auto simp: ordered_Cons nonempty_def mr_end_def)
  have e: "u64_add (mr_base r) (mr_size r) = mr_end r" using r(1) by (simp add: u64_add_mr_end)
  consider "e \<le> mr_base r" | "mr_base r < e" "mr_end r \<le> e" | "crosses r e"
    unfolding crosses_def by linarith
  then show ?case
  proof cases
    case 1
    then have "\<forall>q\<in>set (r # rs). e \<le> mr_base q" using r(3) by (metis le_trans mr_base_le_end set_ConsD)
    moreover from this have "split_at e (r # rs) = r # rs" by (intro split_at_id) (auto simp: crosses_def)
    ultimately show ?thesis
      using isolate_stop [of t "lo @ mid" "r # rs" ?i e m b st en] Cons.prems arr_upd_refl [of t] m
      by (intro exI [of _ "[]"] exI [of _ "r # rs"]) (simp del: isolate_scan.simps)
  next
    case 2
    let ?st = "if en = 0 then ?i else st"
    have eq: "isolate_scan n b e ?i st en t = isolate_scan m b e (length lo + length (mid @ [r])) ?st (?i + 1) t"
      using i e 2 r m by (simp add: Let_def)
    have st: "if mid @ [r] = [] then ?st = 0 \<and> ?i + 1 = 0
        else ?st = length lo \<and> ?i + 1 = length lo + length (mid @ [r])"
      using Cons.prems(9) by (auto split: if_splits)
    obtain mid' hi st' en' t' where *: "isolate_scan m b e (length lo + length (mid @ [r])) ?st (?i + 1) t = Inr (st', en', t')"
      "arr_upd t (lo @ (mid @ [r]) @ mid' @ hi) t'" "mid' @ hi = split_at e rs"
      "\<forall>r\<in>set mid'. b \<le> mr_base r \<and> mr_end r \<le> e" "\<forall>r\<in>set hi. e \<le> mr_base r"
      "if (mid @ [r]) @ mid' = [] then st' = 0 \<and> en' = 0 else st' = length lo \<and> en' = length lo + length ((mid @ [r]) @ mid')"
      using Cons.IH [OF Cons.prems(1) _ Cons.prems(3) r(2) _ _ Cons.prems(7) m(2) st] Cons.prems(2,5,6)
      by (auto simp: nonempty_def)
    show ?thesis
      using * 2 r(4) unfolding eq
      by (intro exI [of _ "r # mid'"] exI [of _ hi] exI [of _ st'] exI [of _ en'] exI [of _ t'])
        (simp add: crosses_def)
  next
    case 3
    then have x: "mr_base r < e" "e < mr_end r" by (simp_all add: crosses_def)
    have "mt_cnt t < mt_max t" "live t = (lo @ mid) @ r # rs" "?i = length (lo @ mid)"
      using Cons.prems(2,7) by simp_all
    then obtain t1 where t1: "memblock_insert_region
      (t\<lparr>mt_regions := (mt_regions t)[?i := r\<lparr>mr_base := e, mr_size := u64_sub (mr_size r) (u64_sub e (mr_base r))\<rparr>],
         mt_total_size := u64_sub (mt_total_size t) (u64_sub e (mr_base r))\<rparr>)
      ?i (mr_base r) (u64_sub e (mr_base r)) (memblock_get_region_node r) (mr_flags r) = Inr t1"
      "arr_upd t ((lo @ mid) @ cut_lo r e # cut_hi r e # rs) t1"
      using split_arr [OF Cons.prems(1) _ _ 3 r(1)] by metis
    obtain k where k: "m = Suc (Suc k)" using m(2) by (metis add_2_eq_Suc' le_Suc_ex add_Suc)
    have L1: "wf_array t1" "live t1 = (lo @ mid) @ cut_lo r e # cut_hi r e # rs"
      using arr_updD [OF t1(2)] by simp_all
    have i1: "?i < mt_cnt t1" "mt_regions t1 ! ?i = cut_lo r e"
      using live_split_nth [OF L1] by simp_all
    have e1: "u64_add (mr_base r) (mr_size (cut_lo r e)) = e"
      using u64_add_mr_end [of "cut_lo r e"] x r(1) by simp
    let ?st = "if en = 0 then ?i else st"
    have "isolate_scan n b e ?i st en t = isolate_scan m b e ?i st en t1"
      using i e r x t1(1) m(1) by (simp add: Let_def)
    also have "\<dots> = isolate_scan (Suc k) b e (?i + 1) ?st (?i + 1) t1"
      using i1 e1 x r(4) Cons.prems(3) unfolding k by (subst isolate_scan.simps) (simp add: Let_def del: isolate_scan.simps)
    also have "\<dots> = Inr (?st, ?i + 1, t1)"
    proof (rule isolate_stop [OF L1(1)])
      show "live t1 = (lo @ mid @ [cut_lo r e]) @ cut_hi r e # rs" using L1(2) by simp
      show "\<forall>q\<in>set (cut_hi r e # rs). e \<le> mr_base q" using r(3) x by force
    qed simp
    finally have eq: "isolate_scan n b e ?i st en t = Inr (?st, ?i + 1, t1)" .
    have "\<forall>q\<in>set (cut_hi r e # rs). e \<le> mr_base q" using r(3) x by force
    moreover have "?st = length lo" using Cons.prems(9) by (auto split: if_splits)
    ultimately show ?thesis
      using eq t1(2) 3 x r(4)
      by (intro exI [of _ "[cut_lo r e]"] exI [of _ "cut_hi r e # rs"] exI [of _ ?st] exI [of _ "?i + 1"] exI [of _ t1])
        simp
  qed
qed

abbreviation isolate_list :: "u64 \<Rightarrow> u64 \<Rightarrow> memblock_region list \<Rightarrow> memblock_region list" where
  "isolate_list b e rs \<equiv> split_at e (split_at b rs)"

text \<open>
  The three parts of an isolated list, and the index range \<^verbatim>\<open>*start_rgn\<close>, \<^verbatim>\<open>*end_rgn\<close> of the
  middle one (empty ranges are reported as \<open>0, 0\<close>).
\<close>

definition isolated :: "u64 \<Rightarrow> u64 \<Rightarrow> memblock_region list \<Rightarrow> memblock_region list \<Rightarrow> memblock_region list \<Rightarrow>
    nat \<Rightarrow> nat \<Rightarrow> bool" where
  "isolated b e lo mid hi st en \<longleftrightarrow>
     (\<forall>r\<in>set lo. mr_end r \<le> b) \<and> (\<forall>r\<in>set mid. b \<le> mr_base r \<and> mr_end r \<le> e) \<and> (\<forall>r\<in>set hi. e \<le> mr_base r) \<and>
     (if mid = [] then st = 0 \<and> en = 0 else st = length lo \<and> en = length lo + length mid)"

lemma isolate_lower:
  assumes "wf_array t" "live t = lo @ rs" "b < e" "ordered rs" "\<forall>r\<in>set rs. mr_size r = 0 \<longrightarrow> mr_end r \<le> b"
    and "mt_cnt t + 2 \<le> mt_max t" "length rs + 3 \<le> n" "\<forall>r\<in>set lo. mr_end r \<le> b"
  shows "\<exists>lo' mid hi st en t'. isolate_scan n b e (length lo) 0 0 t = Inr (st, en, t') \<and>
    arr_upd t (lo' @ mid @ hi) t' \<and> lo' @ mid @ hi = lo @ isolate_list b e rs \<and> isolated b e lo' mid hi st en"
  using assms
proof (induction rs arbitrary: lo n)
  case Nil
  then obtain m where "n = Suc m" by (cases n) auto
  then show ?case
    using isolate_stop [of t lo "[]" "length lo" e m b 0 0] Nil arr_upd_refl [of t]
    by (intro exI [of _ lo] exI [of _ "[]"]) (simp add: isolated_def)
next
  case (Cons r rs)
  obtain m where m: "n = Suc m" "length rs + 3 \<le> m" using Cons.prems(7) by (cases n) auto
  have i: "length lo < mt_cnt t" "mt_regions t ! length lo = r"
    using live_split_nth [of t lo r rs "length lo"] Cons.prems(1,2) by auto
  have r: "mr_end r \<le> PHYS_ADDR_MAX" "ordered rs" "\<forall>q\<in>set rs. mr_end r \<le> mr_base q"
    using Cons.prems(4) by (auto simp: ordered_Cons)
  have e: "u64_add (mr_base r) (mr_size r) = mr_end r" using r(1) by (simp add: u64_add_mr_end)
  have above: "nonempty rs" "\<forall>q\<in>set rs. b < mr_base q" if "b < mr_end r"
  proof -
    show *: "\<forall>q\<in>set rs. b < mr_base q" using that r(3) by (meson less_le_trans)
    show "nonempty rs"
      unfolding nonempty_def
    proof
      fix q assume q: "q \<in> set rs"
      then have "b < mr_end q" using * mr_base_le_end [of q] by (meson less_le_trans)
      then show "0 < mr_size q" using Cons.prems(5) q by fastforce
    qed
  qed
  consider "e \<le> mr_base r" | "mr_base r < e" "mr_end r \<le> b" | "crosses r b"
    | "mr_base r < e" "b \<le> mr_base r" "b < mr_end r"
    unfolding crosses_def by linarith
  then show ?case
  proof cases
    case 1
    then have hi: "\<forall>q\<in>set (r # rs). e \<le> mr_base q" using r(3) by (metis le_trans mr_base_le_end set_ConsD)
    then have ids: "split_at b (r # rs) = r # rs" "split_at e (r # rs) = r # rs"
      using Cons.prems(3) by (intro split_at_id; force simp: crosses_def)+
    show ?thesis
      using isolate_stop [of t lo "r # rs" "length lo" e m b 0 0] Cons.prems arr_upd_refl [of t] m hi ids
      by (intro exI [of _ lo] exI [of _ "[]"] exI [of _ "r # rs"]) (simp add: isolated_def del: isolate_scan.simps split_at.simps)
  next
    case 2
    have "isolate_scan n b e (length lo) 0 0 t = isolate_scan m b e (length (lo @ [r])) 0 0 t"
      using i e 2 m by (simp add: Let_def)
    moreover have "isolate_list b e (r # rs) = r # isolate_list b e rs"
      using 2 Cons.prems(3) by (simp add: crosses_def)
    ultimately show ?thesis
      using Cons.IH [of "lo @ [r]" m] Cons.prems r(2) m(2) 2 by (simp add: nonempty_def)
  next
    case 3
    then have x: "mr_base r < b" "b < mr_end r" by (simp_all add: crosses_def)
    have "mt_cnt t < mt_max t" using Cons.prems(6) by simp
    then obtain t1 where t1: "memblock_insert_region
      (t\<lparr>mt_regions := (mt_regions t)[length lo := r\<lparr>mr_base := b, mr_size := u64_sub (mr_size r) (u64_sub b (mr_base r))\<rparr>],
         mt_total_size := u64_sub (mt_total_size t) (u64_sub b (mr_base r))\<rparr>)
      (length lo) (mr_base r) (u64_sub b (mr_base r)) (memblock_get_region_node r) (mr_flags r) = Inr t1"
      "arr_upd t (lo @ cut_lo r b # cut_hi r b # rs) t1"
      using split_arr [OF Cons.prems(1,2) _ 3 r(1)] by metis
    let ?lo = "lo @ [cut_lo r b]" and ?rs = "cut_hi r b # rs"
    have L1: "wf_array t1" "live t1 = ?lo @ [] @ ?rs" "mt_cnt t1 + 1 \<le> mt_max t1"
      using arr_updD [OF t1(2)] Cons.prems(6) length_live [OF Cons.prems(1)] Cons.prems(2) by simp_all
    have "0 < mr_size (cut_hi r b)" using x by (simp add: cut_hi_def)
    then have o: "ordered ?rs" "\<forall>q\<in>set ?rs. b \<le> mr_base q" "nonempty ?rs"
      using r x above by (auto simp: ordered_Cons nonempty_def less_imp_le)
    have eq: "isolate_scan n b e (length lo) 0 0 t = isolate_scan m b e (length ?lo + length []) 0 0 t1"
      using i e r x t1(1) m(1) Cons.prems(3) by (simp add: Let_def)
    obtain mid hi st en t' where *: "isolate_scan m b e (length ?lo + length []) 0 0 t1 = Inr (st, en, t')"
      "arr_upd t1 (?lo @ [] @ mid @ hi) t'" "mid @ hi = split_at e ?rs"
      "\<forall>r\<in>set mid. b \<le> mr_base r \<and> mr_end r \<le> e" "\<forall>r\<in>set hi. e \<le> mr_base r"
      "if [] @ mid = [] then st = 0 \<and> en = 0 else st = length ?lo \<and> en = length ?lo + length ([] @ mid)"
      using isolate_upper [OF L1(1,2) Cons.prems(3) o L1(3), of m 0 0] m(2) by auto
    have "isolate_list b e (r # rs) = cut_lo r b # split_at e ?rs"
      using 3 x Cons.prems(3) by (simp add: crosses_def)
    then show ?thesis
      using eq * arr_upd_trans [OF t1(2) *(2)] Cons.prems(8) x
      by (intro exI [of _ ?lo] exI [of _ mid] exI [of _ hi] exI [of _ st] exI [of _ en] exI [of _ t'])
        (auto simp: isolated_def)
  next
    case 4
    have o: "ordered (r # rs)" "\<forall>q\<in>set (r # rs). b \<le> mr_base q" "nonempty (r # rs)"
      using r 4 above Cons.prems(4,5) by (auto simp: nonempty_def less_imp_le)
    have L: "live t = lo @ [] @ r # rs" "mt_cnt t + 1 \<le> mt_max t" using Cons.prems(2,6) by simp_all
    obtain mid hi st en t' where *: "isolate_scan n b e (length lo + length []) 0 0 t = Inr (st, en, t')"
      "arr_upd t (lo @ [] @ mid @ hi) t'" "mid @ hi = split_at e (r # rs)"
      "\<forall>r\<in>set mid. b \<le> mr_base r \<and> mr_end r \<le> e" "\<forall>r\<in>set hi. e \<le> mr_base r"
      "if [] @ mid = [] then st = 0 \<and> en = 0 else st = length lo \<and> en = length lo + length ([] @ mid)"
      using isolate_upper [OF Cons.prems(1) L(1) Cons.prems(3) o L(2), of n 0 0] Cons.prems(7) by auto
    have "split_at b (r # rs) = r # rs" using o(2) by (intro split_at_id) (force simp: crosses_def)
    then show ?thesis
      using * Cons.prems(8) by (intro exI [of _ lo] exI [of _ mid] exI [of _ hi] exI [of _ st] exI [of _ en] exI [of _ t'])
        (simp add: isolated_def del: split_at.simps)
  qed
qed

lemma isolate_range_nop:
  assumes "base \<le> PHYS_ADDR_MAX" "min (base + sz) PHYS_ADDR_MAX \<le> base"
  shows "memblock_isolate_range dbl sel base sz s = Inr (0, 0, 0, s)"
  using cap_size_end [OF assms(1), of sz] assms by (auto simp: memblock_isolate_range_def min_def split: if_splits)

lemma isolate_range_room:
  assumes wf: "wf_type (get_type sel s)" and base: "base < e" "e = min (base + sz) PHYS_ADDR_MAX"
    and room: "mt_cnt (get_type sel s) + 2 \<le> mt_max (get_type sel s)"
  shows "\<exists>lo mid hi st en t'. memblock_isolate_range dbl sel base sz s = Inr (0, st, en, put_type sel t' s) \<and>
    arr_upd (get_type sel s) (lo @ mid @ hi) t' \<and>
    lo @ mid @ hi = isolate_list base e (live (get_type sel s)) \<and> isolated base e lo mid hi st en"
proof -
  define t where "t = get_type sel s"
  have wfa: "wf_array t" and ord: "ordered (live t)" and dn: "is_dummy (live t) \<or> nonempty (live t)"
    using wf by (simp_all add: t_def wf_type_def)
  have bM: "base \<le> PHYS_ADDR_MAX" using base by simp
  have cap: "memblock_cap_size base sz \<noteq> 0" "u64_add base (memblock_cap_size base sz) = e"
    using cap_size_end [OF bM, of sz] base by auto
  have z: "\<forall>r\<in>set (live t). mr_size r = 0 \<longrightarrow> mr_end r \<le> base"
    using dn by (auto simp: is_dummy_def nonempty_def mr_end_def)
  have "\<exists>lo' mid hi st en t'. isolate_scan (mt_cnt t + 3) base e (length ([] :: memblock_region list)) 0 0 t = Inr (st, en, t') \<and>
      arr_upd t (lo' @ mid @ hi) t' \<and> lo' @ mid @ hi = [] @ isolate_list base e (live t) \<and>
      isolated base e lo' mid hi st en"
    by (rule isolate_lower [OF wfa _ base(1) ord z]) (use wfa room in \<open>simp_all add: t_def\<close>)
  then obtain lo mid hi st en t' where *: "isolate_scan (mt_cnt t + 3) base e 0 0 0 t = Inr (st, en, t')"
      "arr_upd t (lo @ mid @ hi) t'" "lo @ mid @ hi = isolate_list base e (live t)"
      "isolated base e lo mid hi st en"
    by auto
  have g: "grow_array 65 dbl sel 2 base (memblock_cap_size base sz) s = Inr (0, s)"
    by (rule grow_array_room) (use room in simp)
  have "memblock_isolate_range dbl sel base sz s = Inr (0, st, en, put_type sel t' s)"
    using cap g *(1) by (simp add: memblock_isolate_range_def Let_def t_def)
  with * show ?thesis unfolding t_def [symmetric] by blast
qed

lemma isolate_list_amap: "amap (isolate_list b e rs) a = amap rs a"
  by (simp add: split_at_amap)

lemma isolate_list_ordered: "ordered rs \<Longrightarrow> ordered (isolate_list b e rs)"
  by (simp add: split_at_ordered)

lemma isolate_list_dn:
  assumes "is_dummy rs \<or> nonempty rs"
  shows "is_dummy (isolate_list b e rs) \<or> nonempty (isolate_list b e rs)"
  using assms
proof
  assume "is_dummy rs"
  then have "isolate_list b e rs = rs" by (auto simp: is_dummy_def crosses_def mr_end_def)
  with \<open>is_dummy rs\<close> show ?thesis by simp
qed (simp add: split_at_nonempty)

subsection \<open>Removing\<close>

lemma remove_down_arr:
  assumes "wf_array t" "live t = lo @ mid @ hi" "lo @ hi \<noteq> []"
  shows "arr_upd t (lo @ hi) (remove_down (length lo) (length mid) t)"
  using assms
proof (induction mid arbitrary: t rule: rev_induct)
  case Nil
  then show ?case using arr_upd_refl [of t] by simp
next
  case (snoc r mid)
  let ?i = "length lo + length mid"
  have "mt_cnt t = length lo + length mid + 1 + length hi" using length_live [OF snoc.prems(1)] snoc.prems(2) by simp
  moreover have "0 < length lo + length hi" using snoc.prems(3) by (metis length_append length_greater_0_conv)
  ultimately have "?i < mt_cnt t" "1 < mt_cnt t" by linarith+
  then have u: "arr_upd t (take ?i (live t) @ drop (?i + 1) (live t)) (memblock_remove_region t ?i)"
    by (rule remove_region_arr [OF snoc.prems(1)])
  then have u: "arr_upd t (lo @ mid @ hi) (memblock_remove_region t ?i)"
    using snoc.prems(2) by simp
  then show ?case
    using snoc.IH [of "memblock_remove_region t ?i"] snoc.prems(3) arr_updD [OF u] arr_upd_trans [OF u] by simp
qed

lemma remove_down_all:
  assumes "wf_array t" "live t \<noteq> []"
  shows "\<exists>L. is_dummy L \<and> arr_upd t L (remove_down 0 (mt_cnt t) t)"
proof -
  obtain r mid where L: "live t = r # mid" using assms(2) by (cases "live t") auto
  have cnt: "mt_cnt t = Suc (length mid)" using L length_live [OF assms(1)] by simp
  define t1 where "t1 = remove_down 1 (length mid) t"
  have u: "arr_upd t [r] t1"
    using remove_down_arr [of t "[r]" mid "[]"] assms(1) L by (simp add: t1_def)
  have "remove_down 0 (Suc n) u = memblock_remove_region (remove_down 1 n u) 0" for n u
    by (induction n arbitrary: u) auto
  then have eq: "remove_down 0 (mt_cnt t) t = memblock_remove_region t1 0"
    using cnt by (simp only: t1_def)
  show ?thesis
    using remove_region_last [of t1] arr_updD [OF u] unfolding eq by (auto simp: arr_upd_def)
qed

lemma isolated_amap:
  assumes "isolated b e lo mid hi st en"
  shows "amap (lo @ hi) a = (if b \<le> a \<and> a < e then None else amap (lo @ mid @ hi) a)"
proof -
  have "amap lo a = None" if "b \<le> a" using amap_above [of lo a] assms that by (force simp: isolated_def)
  moreover have "amap hi a = None" if "a < e" using amap_below [of hi a] assms that by (force simp: isolated_def)
  moreover have "amap mid a = None" if "\<not> (b \<le> a \<and> a < e)"
    using assms that unfolding amap_eq_None by (auto simp: isolated_def covers_def)
  ultimately show ?thesis by (auto simp: amap_append split: option.splits)
qed

lemma wf_type_neq_Nil:
  assumes "wf_type t"
  shows "live t \<noteq> []"
proof -
  have "length (live t) = mt_cnt t" "0 < mt_cnt t" using assms by (simp_all add: wf_type_def)
  then show ?thesis by auto
qed

lemma remove_range_room:
  assumes wf: "wf_type (get_type sel s)" and base: "base \<le> PHYS_ADDR_MAX" "e = min (base + sz) PHYS_ADDR_MAX"
    and room: "mt_cnt (get_type sel s) + 2 \<le> mt_max (get_type sel s)"
  shows "\<exists>t' L. memblock_remove_range dbl sel base sz s = Inr (0, put_type sel t' s) \<and>
    arr_upd (get_type sel s) L t' \<and> wf_type t' \<and>
    (\<forall>a. amap L a = (if base \<le> a \<and> a < e then None else amap (live (get_type sel s)) a)) \<and>
    length L \<le> length (live (get_type sel s)) + 2"
proof (cases "base < e")
  case False
  then have "min (base + sz) PHYS_ADDR_MAX \<le> base" using base(2) by linarith
  then have "memblock_remove_range dbl sel base sz s = Inr (0, s)"
    by (simp only: memblock_remove_range_def isolate_range_nop [OF base(1)]) simp
  then show ?thesis
    using False wf arr_upd_refl [of "get_type sel s"]
    by (intro exI [of _ "get_type sel s"] exI [of _ "live (get_type sel s)"]) (auto simp: wf_type_def)
next
  case True
  define t where "t = get_type sel s"
  obtain lo mid hi st en t1 where *: "memblock_isolate_range dbl sel base sz s = Inr (0, st, en, put_type sel t1 s)"
    "arr_upd t (lo @ mid @ hi) t1" "lo @ mid @ hi = isolate_list base e (live t)" "isolated base e lo mid hi st en"
    using isolate_range_room [OF wf True base(2) room] unfolding t_def [symmetric] by blast
  have ord: "ordered (lo @ mid @ hi)" and dn: "is_dummy (lo @ mid @ hi) \<or> nonempty (lo @ mid @ hi)"
    using wf isolate_list_ordered isolate_list_dn *(3) by (simp_all add: wf_type_def t_def)
  have ne: "lo @ mid @ hi \<noteq> []" using wf_type_neq_Nil [OF wf] *(3) by (simp add: t_def)
  have len: "length (lo @ hi) \<le> length (live t) + 2"
    using arg_cong [OF *(3), of length] split_at_length [of base "split_at e (live t)"] split_at_length [of e "live t"]
      split_at_length [of e "split_at base (live t)"] split_at_length [of base "live t"] by simp
  define t' where "t' = remove_down st (en - st) t1"
  have eq: "memblock_remove_range dbl sel base sz s = Inr (0, put_type sel t' s)"
    using *(1) by (cases sel) (simp_all add: memblock_remove_range_def t'_def)
  have am: "amap (lo @ hi) a = (if base \<le> a \<and> a < e then None else amap (live t) a)" for a
    using isolated_amap [OF *(4)] *(3) by (simp add: split_at_amap)
  show ?thesis
  proof (cases "lo @ hi = []")
    case False
    have "t' = remove_down (length lo) (length mid) t1"
      using *(4) by (auto simp: t'_def isolated_def split: if_splits)
    then have "arr_upd t1 (lo @ hi) t'"
      using remove_down_arr [OF arr_updD(1,2) [OF *(2)] False] by simp
    then have u: "arr_upd t (lo @ hi) t'" using *(2) arr_upd_trans by blast
    have "is_dummy (lo @ hi) \<or> nonempty (lo @ hi)"
      using dn False by (auto simp: is_dummy_def nonempty_def append_eq_Cons_conv)
    then have "wf_type t'" using wf_type_upd [OF u False] ord by (auto simp: ordered_append)
    then show ?thesis using eq u am len unfolding t_def [symmetric] by blast
  next
    case True
    have "t' = remove_down 0 (mt_cnt t1) t1"
      using *(2,4) True ne arr_updD [OF *(2)] by (auto simp: t'_def isolated_def)
    then obtain L where L: "is_dummy L" "arr_upd t1 L t'"
      using remove_down_all [of t1] arr_updD [OF *(2)] ne by auto
    then have u: "arr_upd t L t'" using *(2) arr_upd_trans by blast
    moreover have "wf_type t'" using wf_type_upd [OF u] L(1) ordered_dummy by (auto simp: is_dummy_def)
    moreover have "amap L a = (if base \<le> a \<and> a < e then None else amap (live t) a)" for a
      using am [of a] True amap_dummy [OF L(1)] by simp
    moreover have "length L \<le> length (live t) + 2" using L(1) by (auto simp: is_dummy_def)
    ultimately show ?thesis using eq unfolding t_def [symmetric] by blast
  qed
qed

subsection \<open>Updating the attributes of a range\<close>

lemma update_regions_arr:
  assumes "wf_array t" "live t = lo @ mid @ hi" "\<And>r. mr_size (f r) = mr_size r"
  shows "arr_upd t (lo @ map f mid @ hi) (update_regions f (length lo) (length mid) t)"
  using assms
proof (induction mid arbitrary: lo t)
  case Nil
  then show ?case using arr_upd_refl [of t] by simp
next
  case (Cons r mid)
  let ?i = "length lo"
  have i: "mt_regions t ! ?i = r" using live_split_nth [of t lo r "mid @ hi" ?i] Cons.prems by simp
  define t1 where "t1 = t\<lparr>mt_regions := (mt_regions t)[?i := f r]\<rparr>"
  have L1: "live t1 = (lo @ [f r]) @ mid @ hi"
    using Cons.prems(2) by (simp add: live_def t1_def take_update_swap list_update_append)
  have u1: "arr_upd t (live t1) t1"
    using Cons.prems L1 by (simp add: arr_upd_def wf_array_def t1_def)
  have "arr_upd t1 ((lo @ [f r]) @ map f mid @ hi) (update_regions f (length (lo @ [f r])) (length mid) t1)"
    using Cons.IH [of t1 "lo @ [f r]"] L1 u1 Cons.prems(3) by (auto dest: arr_updD)
  then show ?case using arr_upd_trans [OF u1] i by (simp add: t1_def)
qed

text \<open>\<open>f\<close> keeps the extent of a region and changes its attributes by \<open>g\<close>.\<close>

definition attr_update :: "(memblock_region \<Rightarrow> memblock_region) \<Rightarrow> (int \<times> memblock_flags \<Rightarrow> int \<times> memblock_flags) \<Rightarrow>
    bool" where
  "attr_update f g \<longleftrightarrow> (\<forall>r. mr_base (f r) = mr_base r \<and> mr_size (f r) = mr_size r \<and>
     (mr_nid (f r), mr_flags (f r)) = g (mr_nid r, mr_flags r))"

lemma attr_update_covers: "attr_update f g \<Longrightarrow> covers (f r) a = covers r a"
  by (simp add: attr_update_def covers_def mr_end_def)

lemma attr_update_amap: "attr_update f g \<Longrightarrow> amap (map f rs) a = map_option g (amap rs a)"
  by (induction rs) (auto simp: attr_update_covers, auto simp: attr_update_def)

lemma attr_update_ordered:
  assumes "attr_update f g" "ordered (xs @ ys @ zs)"
  shows "ordered (xs @ map f ys @ zs)"
proof -
  have "mr_base (f r) = mr_base r" "mr_end (f r) = mr_end r" for r
    using assms(1) by (simp_all add: attr_update_def mr_end_def)
  then show ?thesis using assms(2) by (auto simp: ordered_def sorted_wrt_append sorted_wrt_map)
qed

lemma attr_update_dn:
  assumes "attr_update f g" "is_dummy (xs @ ys @ zs) \<or> nonempty (xs @ ys @ zs)"
  shows "is_dummy (xs @ map f ys @ zs) \<or> nonempty (xs @ map f ys @ zs)"
proof -
  have f: "mr_base (f r) = mr_base r" "mr_size (f r) = mr_size r" for r
    using assms(1) by (simp_all add: attr_update_def)
  show ?thesis
    using assms(2) f by (auto simp: is_dummy_def nonempty_def append_eq_Cons_conv Cons_eq_append_conv)
qed

lemma dummy_merge: "is_dummy rs \<Longrightarrow> merge_list rs = rs"
  by (auto simp: is_dummy_def)

text \<open>
  The shape shared by \<^verbatim>\<open>memblock_setclr_flag\<close> and \<^verbatim>\<open>memblock_set_node\<close>: isolate, update the
  regions in between, merge.
\<close>

definition update_range :: "doubler \<Rightarrow> mb_sel \<Rightarrow> (memblock_region \<Rightarrow> memblock_region) \<Rightarrow> u64 \<Rightarrow> u64 \<Rightarrow>
    memblock_state \<Rightarrow> mb_result" where
  "update_range dbl sel f base sz s =
     run_bind (memblock_isolate_range dbl sel base sz s)
       (\<lambda>(ret, start_rgn, end_rgn, s').
          if ret \<noteq> 0 then Inr (ret, s')
          else run_bind
            (memblock_merge_regions (update_regions f start_rgn (end_rgn - start_rgn) (get_type sel s')))
            (\<lambda>t. Inr (0, put_type sel t s')))"

lemma setclr_flag_update_range:
  "memblock_setclr_flag env base sz set_flag flag =
     update_range (doubler_of env) Memory
       (\<lambda>r. if set_flag then memblock_set_region_flags r flag else memblock_clear_region_flags r flag) base sz"
  by (simp add: fun_eq_iff memblock_setclr_flag_def update_range_def cong: if_cong)

lemma set_node_update_range:
  "memblock_set_node env base sz sel nid =
     update_range (doubler_of env) sel (\<lambda>r. memblock_set_region_node r nid) base sz"
  by (simp add: fun_eq_iff memblock_set_node_def update_range_def)

lemma update_range_room:
  assumes wf: "wf_type (get_type sel s)" and base: "base \<le> PHYS_ADDR_MAX" "e = min (base + sz) PHYS_ADDR_MAX"
    and room: "mt_cnt (get_type sel s) + 2 \<le> mt_max (get_type sel s)" and f: "attr_update f g"
  shows "\<exists>t' L. update_range dbl sel f base sz s = Inr (0, put_type sel t' s) \<and>
    arr_upd (get_type sel s) L t' \<and> wf_type t' \<and> minimal L \<and>
    (\<forall>a. amap L a = (if base \<le> a \<and> a < e then map_option g (amap (live (get_type sel s)) a)
                     else amap (live (get_type sel s)) a))"
proof -
  define t where "t = get_type sel s"
  have wfa: "wf_array t" "ordered (live t)" "is_dummy (live t) \<or> nonempty (live t)" "live t \<noteq> []"
    using wf wf_type_neq_Nil [OF wf] by (auto simp: wf_type_def t_def)
  have size: "mr_size (f r) = mr_size r" for r using f by (simp add: attr_update_def)
  have "\<exists>lo mid hi st en t1. memblock_isolate_range dbl sel base sz s = Inr (0, st, en, put_type sel t1 s) \<and>
      arr_upd t (lo @ mid @ hi) t1 \<and> ordered (lo @ mid @ hi) \<and>
      (is_dummy (lo @ mid @ hi) \<or> nonempty (lo @ mid @ hi)) \<and> lo @ mid @ hi \<noteq> [] \<and>
      (if mid = [] then st = 0 \<and> en = 0 else st = length lo \<and> en = length lo + length mid) \<and>
      (\<forall>a. amap (lo @ map f mid @ hi) a = (if base \<le> a \<and> a < e then map_option g (amap (live t) a) else amap (live t) a))"
  proof (cases "base < e")
    case False
    then have "min (base + sz) PHYS_ADDR_MAX \<le> base" using base(2) by linarith
    then have "memblock_isolate_range dbl sel base sz s = Inr (0, 0, 0, put_type sel t s)"
      by (simp add: isolate_range_nop [OF base(1)] t_def)
    then show ?thesis
      using False wfa arr_upd_refl [of t]
      by (intro exI [of _ "live t"] exI [of _ "[]"] exI [of _ "[]"] exI [of _ 0] exI [of _ 0] exI [of _ t]) auto
  next
    case True
    obtain lo mid hi st en t1 where i: "memblock_isolate_range dbl sel base sz s = Inr (0, st, en, put_type sel t1 s)"
      "arr_upd t (lo @ mid @ hi) t1" "lo @ mid @ hi = isolate_list base e (live t)" "isolated base e lo mid hi st en"
      using isolate_range_room [OF wf True base(2) room] unfolding t_def [symmetric] by blast
    have lo: "amap lo a = None" if "base \<le> a" for a
      using amap_above [of lo a] i(4) that by (force simp: isolated_def)
    have mid: "amap mid a = None" if "\<not> (base \<le> a \<and> a < e)" for a
      using i(4) that unfolding amap_eq_None by (auto simp: isolated_def covers_def)
    have hi: "amap hi a = None" if "a < e" for a
      using amap_below [of hi a] i(4) that by (force simp: isolated_def)
    have am: "amap (lo @ mid @ hi) a = amap (live t) a" for a using i(3) by (simp add: split_at_amap)
    have *: "amap (lo @ map f mid @ hi) a =
        (if base \<le> a \<and> a < e then map_option g (amap (lo @ mid @ hi) a) else amap (lo @ mid @ hi) a)" for a
      using lo [of a] mid [of a] hi [of a] by (auto simp: amap_append attr_update_amap [OF f] split: option.splits)
    have "\<forall>a. amap (lo @ map f mid @ hi) a =
        (if base \<le> a \<and> a < e then map_option g (amap (live t) a) else amap (live t) a)"
      unfolding * am by simp
    moreover have "ordered (lo @ mid @ hi)" using i(3) isolate_list_ordered [OF wfa(2)] by simp
    moreover have "is_dummy (lo @ mid @ hi) \<or> nonempty (lo @ mid @ hi)"
      using i(3) isolate_list_dn [OF wfa(3)] by simp
    moreover have "lo @ mid @ hi \<noteq> []" using i(3) wfa(4) by simp
    moreover have "if mid = [] then st = 0 \<and> en = 0 else st = length lo \<and> en = length lo + length mid"
      using i(4) by (simp add: isolated_def)
    ultimately show ?thesis
      using i(1,2) by (intro exI [of _ lo] exI [of _ mid] exI [of _ hi] exI [of _ st] exI [of _ en] exI [of _ t1]) simp
  qed
  then obtain lo mid hi st en t1 where i: "memblock_isolate_range dbl sel base sz s = Inr (0, st, en, put_type sel t1 s)"
    and u1: "arr_upd t (lo @ mid @ hi) t1" and ord: "ordered (lo @ mid @ hi)"
    and dn: "is_dummy (lo @ mid @ hi) \<or> nonempty (lo @ mid @ hi)" and ne: "lo @ mid @ hi \<noteq> []"
    and st: "if mid = [] then st = 0 \<and> en = 0 else st = length lo \<and> en = length lo + length mid"
    and am: "\<forall>a. amap (lo @ map f mid @ hi) a =
      (if base \<le> a \<and> a < e then map_option g (amap (live t) a) else amap (live t) a)"
    by blast
  let ?L = "lo @ map f mid @ hi"
  define t2 where "t2 = update_regions f st (en - st) t1"
  have "t2 = update_regions f (length lo) (length mid) t1" using st by (auto simp: t2_def split: if_splits)
  then have u2: "arr_upd t1 ?L t2" using update_regions_arr [of t1 lo mid hi f] arr_updD [OF u1] size by simp
  have ord2: "ordered ?L" by (rule attr_update_ordered [OF f ord])
  obtain t3 where t3: "memblock_merge_regions t2 = Inr t3" "arr_upd t2 (merge_list (live t2)) t3"
    by (rule merge_regions_arr [of t2]) (use arr_updD [OF u2] ord2 in simp_all)
  have u3: "arr_upd t (merge_list ?L) t3"
    using arr_upd_trans [OF arr_upd_trans [OF u1 u2] t3(2)] arr_updD(2) [OF u2] by simp
  have "is_dummy (merge_list ?L) \<or> nonempty (merge_list ?L)"
    using attr_update_dn [OF f dn] merge_list_nonempty dummy_merge by metis
  then have "wf_type t3" using wf_type_upd [OF u3] merge_list_ordered [OF ord2] ne by simp
  moreover have "amap (merge_list ?L) a =
      (if base \<le> a \<and> a < e then map_option g (amap (live t) a) else amap (live t) a)" for a
    using am merge_list_amap [OF ord2] by simp
  moreover have "update_range dbl sel f base sz s = Inr (0, put_type sel t3 s)"
    using i t3(1) by (cases sel) (simp_all add: update_range_def t2_def)
  ultimately show ?thesis using u3 merge_list_minimal [of ?L] unfolding t_def [symmetric] by blast
qed

section \<open>When the array is full\<close>

lemma double_array_refused:
  "\<not> memblock_can_resize s \<Longrightarrow> 0 < n \<Longrightarrow> memblock_double_array n env sel b sz s = Inr (-1, s)"
  by (cases n) (simp_all add: double_array_with_def)

lemma grow_array_refused:
  assumes "\<not> memblock_can_resize s" "0 < env_fuel env" "mt_max (get_type sel s) < mt_cnt (get_type sel s) + n"
  shows "grow_array 65 (doubler_of env) sel n b sz s = Inr (- ENOMEM, s)"
  using assms double_array_refused [OF assms(1,2)] by (simp add: numeral_eq_Suc)

lemma ENOMEM_neq [simp]: "- ENOMEM \<noteq> 0" "ENOMEM \<noteq> 0"
  by (simp_all add: ENOMEM_def)

lemma add_range_refused:
  assumes wf: "wf_type (get_type sel s)" and base: "base \<le> PHYS_ADDR_MAX" "e = min (base + sz) PHYS_ADDR_MAX"
    and full: "mt_max (get_type sel s) < length (add_list base e nid fl (live (get_type sel s)))"
    and ne: "base < e" "\<not> is_dummy (live (get_type sel s))"
    and "\<not> memblock_can_resize s" "0 < env_fuel env"
  shows "memblock_add_range (doubler_of env) sel base sz nid fl s = Inr (- ENOMEM, s)"
proof -
  define t where "t = get_type sel s"
  have wfa: "wf_array t" "ordered (live t)" using wf by (simp_all add: t_def wf_type_def)
  have cap: "memblock_cap_size base sz \<noteq> 0" "u64_add base (memblock_cap_size base sz) = e"
    using cap_size_end [OF base(1), of sz] base ne by auto
  have d: "mr_size (mt_regions t ! 0) \<noteq> 0" using ne dummy_or_nonempty_hd [OF wf] by (simp add: t_def)
  obtain n where n: "add_pass False base e nid fl t = Inr (n, t)"
    "n + mt_cnt t = length (add_list base e nid fl (live t))"
    using add_pass_count [OF wfa] by blast
  have "mt_max t < mt_cnt t + n" using n(2) full by (simp add: t_def)
  moreover have "mt_cnt t \<le> mt_max t" using wfa(1) by (simp add: wf_array_def)
  ultimately have "n \<noteq> 0" by simp
  moreover have "grow_array 65 (doubler_of env) sel n base (memblock_cap_size base sz) s = Inr (- ENOMEM, s)"
    by (rule grow_array_refused) (use assms \<open>mt_max t < mt_cnt t + n\<close> in \<open>simp_all add: t_def\<close>)
  ultimately show ?thesis
    using cap d n(1) by (simp add: memblock_add_range_def Let_def t_def)
qed

lemma isolate_range_refused:
  assumes base: "base < e" "e = min (base + sz) PHYS_ADDR_MAX"
    and full: "mt_max (get_type sel s) < mt_cnt (get_type sel s) + 2"
    and "\<not> memblock_can_resize s" "0 < env_fuel env"
  shows "memblock_isolate_range (doubler_of env) sel base sz s = Inr (- ENOMEM, 0, 0, s)"
proof -
  have bM: "base \<le> PHYS_ADDR_MAX" using base by simp
  have cap: "memblock_cap_size base sz \<noteq> 0" "u64_add base (memblock_cap_size base sz) = e"
    using cap_size_end [OF bM, of sz] base by auto
  have "grow_array 65 (doubler_of env) sel 2 base (memblock_cap_size base sz) s = Inr (- ENOMEM, s)"
    by (rule grow_array_refused) (use assms in simp_all)
  then show ?thesis using cap by (simp add: memblock_isolate_range_def Let_def)
qed

section \<open>Properties\<close>

text \<open>
  C1: With enough free slots for the new regions, \<^verbatim>\<open>memblock_add_range\<close> (so \<^verbatim>\<open>memblock_add\<close> and
  \<^verbatim>\<open>memblock_reserve\<close>) succeeds without growing the array, whatever the growth routine is.
  The array stays well-formed: sorted, disjoint, no empty region, the recorded total exact,
  and still minimal if it was. Every address of the range capped at \<^const>\<open>PHYS_ADDR_MAX\<close> is
  covered afterwards; addresses that were covered keep their node and flags, the others get
  the new ones, and nothing else changes.
\<close>

theorem memblock_add_range_correct:
  assumes "wf_type (get_type sel s)" "base \<le> PHYS_ADDR_MAX" "e = min (base + sz) PHYS_ADDR_MAX"
    and "length (add_list base e nid fl (live (get_type sel s))) \<le> mt_max (get_type sel s)"
  shows "\<exists>t'. memblock_add_range dbl sel base sz nid fl s = Inr (0, put_type sel t' s) \<and> wf_type t' \<and>
    (minimal (live (get_type sel s)) \<longrightarrow> minimal (live t')) \<and>
    (\<forall>a. amap (live t') a = (case amap (live (get_type sel s)) a of Some v \<Rightarrow> Some v
                             | None \<Rightarrow> if base \<le> a \<and> a < e then Some (nid, fl) else None))"
proof -
  let ?L = "add_regions base e nid fl (live (get_type sel s))"
  have o: "ordered (live (get_type sel s))" "is_dummy (live (get_type sel s)) \<or> nonempty (live (get_type sel s))"
    using assms(1) by (simp_all add: wf_type_def)
  have eM: "e \<le> PHYS_ADDR_MAX" using assms(3) by simp
  obtain t' where t': "memblock_add_range dbl sel base sz nid fl s = Inr (0, put_type sel t' s)"
    "arr_upd (get_type sel s) ?L t'"
    using add_range_room [OF assms] by blast
  have "wf_type t'"
    using wf_type_upd [OF t'(2)] add_regions_neq_Nil [OF wf_type_neq_Nil [OF assms(1)]]
      add_regions_ordered [OF o(1) eM] add_regions_nonempty [OF o(2)] by blast
  then show ?thesis
    using t' add_regions_minimal add_regions_amap [OF o(1) eM] by (auto simp: arr_updD(2) [OF t'(2)])
qed

theorem memblock_add_range_correct_witness:
  "\<exists>t'. memblock_add_range (\<lambda>_ _ _ s. Inr (-1, s)) Memory 0x13000 0x6000 0 0 demo_state =
      Inr (0, put_type Memory t' demo_state) \<and> wf_type t' \<and>
    (minimal (live (get_type Memory demo_state)) \<longrightarrow> minimal (live t')) \<and>
    (\<forall>a. amap (live t') a = (case amap (live (get_type Memory demo_state)) a of Some v \<Rightarrow> Some v
                             | None \<Rightarrow> if 0x13000 \<le> a \<and> a < 0x19000 then Some (0, 0) else None))"
  by (rule memblock_add_range_correct)
    (simp_all add: demo_wf demo_live max_numerals mr_end_def)

text \<open>
  C24: Without room and before \<^verbatim>\<open>memblock_allow_resize\<close> has been called, adding a range that needs
  new regions returns \<^verbatim>\<open>-ENOMEM\<close> and changes nothing, not even partially.
\<close>

theorem memblock_add_range_enomem:
  assumes "wf_type (get_type sel s)" "base \<le> PHYS_ADDR_MAX" "e = min (base + sz) PHYS_ADDR_MAX"
    and "mt_max (get_type sel s) < length (add_list base e nid fl (live (get_type sel s)))"
    and "base < e" "\<not> is_dummy (live (get_type sel s))" "\<not> memblock_can_resize s" "0 < env_fuel env"
  shows "memblock_add_range (doubler_of env) sel base sz nid fl s = Inr (- ENOMEM, s)"
  using assms by (rule add_range_refused)

theorem memblock_add_range_enomem_witness:
  "memblock_add_range (doubler_of demo_env) Reserved 0x10000 0x6000 0 0 (demo_state\<lparr>mb_reserved := demo_full\<rparr>) =
   Inr (- ENOMEM, demo_state\<lparr>mb_reserved := demo_full\<rparr>)"
  by (rule memblock_add_range_enomem)
    (simp_all add: demo_full_wf demo_full_live mr_end_def max_numerals is_dummy_def demo_env_def, simp_all add: demo_full_def)

text \<open>
  C2: With two free slots, \<^verbatim>\<open>memblock_remove_range\<close> (so \<^verbatim>\<open>memblock_remove\<close> and \<^verbatim>\<open>memblock_free\<close>)
  succeeds, keeps the array well-formed and removes exactly the addresses of the capped range,
  splitting the regions that cross its ends.
\<close>

theorem memblock_remove_range_correct:
  assumes "wf_type (get_type sel s)" "base \<le> PHYS_ADDR_MAX" "e = min (base + sz) PHYS_ADDR_MAX"
    and "mt_cnt (get_type sel s) + 2 \<le> mt_max (get_type sel s)"
  shows "\<exists>t'. memblock_remove_range dbl sel base sz s = Inr (0, put_type sel t' s) \<and> wf_type t' \<and>
    (\<forall>a. amap (live t') a = (if base \<le> a \<and> a < e then None else amap (live (get_type sel s)) a))"
proof -
  obtain t' L where *: "memblock_remove_range dbl sel base sz s = Inr (0, put_type sel t' s)"
    "arr_upd (get_type sel s) L t'" "wf_type t'"
    "\<forall>a. amap L a = (if base \<le> a \<and> a < e then None else amap (live (get_type sel s)) a)"
    using remove_range_room [OF assms] by blast
  then show ?thesis by (intro exI [of _ t']) (simp add: arr_updD(2) [OF *(2)])
qed

theorem memblock_remove_range_correct_witness:
  "\<exists>t'. memblock_remove_range (\<lambda>_ _ _ s. Inr (-1, s)) Memory 0x11000 0x8000 demo_state =
      Inr (0, put_type Memory t' demo_state) \<and> wf_type t' \<and>
    (\<forall>a. amap (live t') a = (if 0x11000 \<le> a \<and> a < 0x19000 then None else amap (live (get_type Memory demo_state)) a))"
  by (rule memblock_remove_range_correct) (simp_all add: demo_wf max_numerals)

lemma setclr_flag_room:
  assumes "wf_type (mb_memory s)" "base \<le> PHYS_ADDR_MAX" "e = min (base + sz) PHYS_ADDR_MAX"
    and "mt_cnt (mb_memory s) + 2 \<le> mt_max (mb_memory s)"
  shows "\<exists>t'. memblock_setclr_flag env base sz set_flag flag s = Inr (0, s\<lparr>mb_memory := t'\<rparr>) \<and>
    wf_type t' \<and> minimal (live t') \<and> mt_max t' = mt_max (mb_memory s) \<and>
    (\<forall>a. amap (live t') a =
       (if base \<le> a \<and> a < e
        then map_option (\<lambda>(nid, fl). (nid, if set_flag then fl OR flag else fl AND NOT flag)) (amap (live (mb_memory s)) a)
        else amap (live (mb_memory s)) a))"
proof -
  let ?f = "\<lambda>r. if set_flag then memblock_set_region_flags r flag else memblock_clear_region_flags r flag"
  let ?g = "\<lambda>(nid, fl). (nid, if set_flag then fl OR flag else fl AND NOT flag)"
  have "attr_update ?f ?g"
    by (simp add: attr_update_def memblock_set_region_flags_def memblock_clear_region_flags_def)
  then have "\<exists>t' L. update_range (doubler_of env) Memory ?f base sz s = Inr (0, put_type Memory t' s) \<and>
    arr_upd (get_type Memory s) L t' \<and> wf_type t' \<and> minimal L \<and>
    (\<forall>a. amap L a = (if base \<le> a \<and> a < e then map_option ?g (amap (live (get_type Memory s)) a)
                     else amap (live (get_type Memory s)) a))"
    using assms by (intro update_range_room) simp_all
  then obtain t' L where *: "update_range (doubler_of env) Memory ?f base sz s = Inr (0, put_type Memory t' s)"
    "arr_upd (get_type Memory s) L t'" "wf_type t'" "minimal L"
    "\<forall>a. amap L a = (if base \<le> a \<and> a < e then map_option ?g (amap (live (get_type Memory s)) a)
                     else amap (live (get_type Memory s)) a)"
    by blast
  then show ?thesis
    by (intro exI [of _ t']) (simp add: arr_updD [OF *(2)] setclr_flag_update_range)
qed

text \<open>
  C17: Setting or clearing a flag on a range of memory (\<^verbatim>\<open>memblock_mark_hotplug\<close>,
  \<^verbatim>\<open>memblock_mark_nomap\<close>, \<dots>) changes that flag for exactly the memory addresses of the range,
  neither adds nor removes an address, and leaves the array well-formed and minimal.
\<close>

theorem memblock_setclr_flag_correct:
  assumes "wf_type (mb_memory s)" "base \<le> PHYS_ADDR_MAX" "e = min (base + sz) PHYS_ADDR_MAX"
    and "mt_cnt (mb_memory s) + 2 \<le> mt_max (mb_memory s)"
  shows "\<exists>t'. memblock_setclr_flag env base sz set_flag flag s = Inr (0, s\<lparr>mb_memory := t'\<rparr>) \<and>
    wf_type t' \<and> minimal (live t') \<and>
    (\<forall>a. amap (live t') a =
       (if base \<le> a \<and> a < e
        then map_option (\<lambda>(nid, fl). (nid, if set_flag then fl OR flag else fl AND NOT flag)) (amap (live (mb_memory s)) a)
        else amap (live (mb_memory s)) a))"
  using setclr_flag_room [OF assms] by blast

theorem memblock_setclr_flag_correct_witness:
  "\<exists>t'. memblock_setclr_flag demo_env 0x11000 0x1000 True MEMBLOCK_NOMAP demo_state =
      Inr (0, demo_state\<lparr>mb_memory := t'\<rparr>) \<and> wf_type t' \<and> minimal (live t') \<and>
    (\<forall>a. amap (live t') a =
       (if 0x11000 \<le> a \<and> a < 0x12000
        then map_option (\<lambda>(nid, fl). (nid, if True then fl OR MEMBLOCK_NOMAP else fl AND NOT MEMBLOCK_NOMAP))
               (amap (live (mb_memory demo_state)) a)
        else amap (live (mb_memory demo_state)) a))"
  by (rule memblock_setclr_flag_correct) (simp_all add: demo_wf max_numerals)

text \<open>
  C18: \<^verbatim>\<open>memblock_set_node\<close> moves exactly the addresses of the range that the array holds to the
  given node, keeps their flags and everything else, and leaves the array well-formed and minimal.
\<close>

theorem memblock_set_node_correct:
  assumes "wf_type (get_type sel s)" "base \<le> PHYS_ADDR_MAX" "e = min (base + sz) PHYS_ADDR_MAX"
    and "mt_cnt (get_type sel s) + 2 \<le> mt_max (get_type sel s)"
  shows "\<exists>t'. memblock_set_node env base sz sel nid s = Inr (0, put_type sel t' s) \<and>
    wf_type t' \<and> minimal (live t') \<and>
    (\<forall>a. amap (live t') a =
       (if base \<le> a \<and> a < e then map_option (\<lambda>(_, fl). (nid, fl)) (amap (live (get_type sel s)) a)
        else amap (live (get_type sel s)) a))"
proof -
  let ?f = "\<lambda>r. memblock_set_region_node r nid"
  let ?g = "\<lambda>(_ :: int, fl :: memblock_flags). (nid, fl)"
  have "attr_update ?f ?g" by (simp add: attr_update_def memblock_set_region_node_def)
  then obtain t' L where *: "update_range (doubler_of env) sel ?f base sz s = Inr (0, put_type sel t' s)"
    "arr_upd (get_type sel s) L t'" "wf_type t'" "minimal L"
    "\<forall>a. amap L a = (if base \<le> a \<and> a < e then map_option ?g (amap (live (get_type sel s)) a)
                     else amap (live (get_type sel s)) a)"
    using update_range_room [OF assms] by blast
  then show ?thesis
    by (intro exI [of _ t']) (simp add: arr_updD(2) [OF *(2)] set_node_update_range)
qed

theorem memblock_set_node_correct_witness:
  "\<exists>t'. memblock_set_node demo_env 0x12000 0x8000 Memory 3 demo_state = Inr (0, put_type Memory t' demo_state) \<and>
    wf_type t' \<and> minimal (live t') \<and>
    (\<forall>a. amap (live t') a =
       (if 0x12000 \<le> a \<and> a < 0x1a000 then map_option (\<lambda>(_, fl). (3, fl)) (amap (live (get_type Memory demo_state)) a)
        else amap (live (get_type Memory demo_state)) a))"
  by (rule memblock_set_node_correct) (simp_all add: demo_wf max_numerals)

end
