(* ===== verification/Memblock_Alloc.thy ===== *)
theory Memblock_Alloc
  imports Memblock_Update
begin

text \<open>
  Allocation, release, limits and queries (\<^verbatim>\<open>mm/memblock.c\<close>, the inline functions of
  \<^verbatim>\<open>include/linux/memblock.h\<close>). An allocation is the physical address and the new state;
  address 0 is the failure value of the source. A virtual address is represented by the
  physical address it maps (\<^verbatim>\<open>phys_to_virt\<close> is the linear map), and the contents of memory
  (\<^verbatim>\<open>memset\<close>) are not part of the state.
\<close>

type_synonym alloc_result = "(u64 \<times> memblock_state) run"

section \<open>Allocation\<close>

definition memblock_alloc_range_nid :: "boot_env \<Rightarrow> u64 \<Rightarrow> u64 \<Rightarrow> u64 \<Rightarrow> u64 \<Rightarrow> int \<Rightarrow> memblock_flags \<Rightarrow>
    memblock_state \<Rightarrow> alloc_result" where
  "memblock_alloc_range_nid env sz align start end nid flags s =
     (let align = (if align = 0 then env_smp_cache_bytes env else align) in
      run_bind (memblock_find_in_range_node env s sz align start end nid flags)
        (\<lambda>found.
           if found \<noteq> 0 then
             run_bind (memblock_reserve env found sz s)
               (\<lambda>(ret, s'). if ret = 0 then Inr (found, s') else Inr (0, s'))
           else Inr (0, s)))"

definition memblock_alloc_range :: "boot_env \<Rightarrow> u64 \<Rightarrow> u64 \<Rightarrow> u64 \<Rightarrow> u64 \<Rightarrow> memblock_flags \<Rightarrow>
    memblock_state \<Rightarrow> alloc_result" where
  "memblock_alloc_range env sz align start end flags =
     memblock_alloc_range_nid env sz align start end NUMA_NO_NODE flags"

definition memblock_alloc_base_nid :: "boot_env \<Rightarrow> u64 \<Rightarrow> u64 \<Rightarrow> u64 \<Rightarrow> int \<Rightarrow> memblock_flags \<Rightarrow>
    memblock_state \<Rightarrow> alloc_result" where
  "memblock_alloc_base_nid env sz align max_addr nid flags =
     memblock_alloc_range_nid env sz align 0 max_addr nid flags"

definition memblock_alloc_nid :: "boot_env \<Rightarrow> u64 \<Rightarrow> u64 \<Rightarrow> int \<Rightarrow> memblock_state \<Rightarrow> alloc_result" where
  "memblock_alloc_nid env sz align nid s =
     (let flags = choose_memblock_flags s in
      run_bind (memblock_alloc_base_nid env sz align MEMBLOCK_ALLOC_ACCESSIBLE nid flags s)
        (\<lambda>(ret, s').
           if ret = 0 \<and> flags AND MEMBLOCK_MIRROR \<noteq> 0
           then memblock_alloc_base_nid env sz align MEMBLOCK_ALLOC_ACCESSIBLE nid
                  (flags AND NOT MEMBLOCK_MIRROR) s'
           else Inr (ret, s')))"

definition memblock_alloc_base_no_panic :: "boot_env \<Rightarrow> u64 \<Rightarrow> u64 \<Rightarrow> u64 \<Rightarrow> memblock_state \<Rightarrow> alloc_result" where
  "memblock_alloc_base_no_panic env sz align max_addr =
     memblock_alloc_base_nid env sz align max_addr NUMA_NO_NODE MEMBLOCK_NONE"

definition memblock_alloc_base :: "boot_env \<Rightarrow> u64 \<Rightarrow> u64 \<Rightarrow> u64 \<Rightarrow> memblock_state \<Rightarrow> alloc_result" where
  "memblock_alloc_base env sz align max_addr s =
     run_bind (memblock_alloc_base_no_panic env sz align max_addr s)
       (\<lambda>(alloc, s'). if alloc = 0 then Inl Panic else Inr (alloc, s'))"

definition memblock_alloc :: "boot_env \<Rightarrow> u64 \<Rightarrow> u64 \<Rightarrow> memblock_state \<Rightarrow> alloc_result" where
  "memblock_alloc env sz align = memblock_alloc_base env sz align MEMBLOCK_ALLOC_ACCESSIBLE"

definition memblock_alloc_try_nid :: "boot_env \<Rightarrow> u64 \<Rightarrow> u64 \<Rightarrow> int \<Rightarrow> memblock_state \<Rightarrow> alloc_result" where
  "memblock_alloc_try_nid env sz align nid s =
     run_bind (memblock_alloc_nid env sz align nid s)
       (\<lambda>(res, s'). if res \<noteq> 0 then Inr (res, s')
                    else memblock_alloc_base env sz align MEMBLOCK_ALLOC_ACCESSIBLE s')"

text \<open>\<^verbatim>\<open>alloc = memblock_find_in_range_node(...); if (alloc && !memblock_reserve(alloc, size)) goto done;\<close>\<close>

definition find_and_reserve :: "boot_env \<Rightarrow> u64 \<Rightarrow> u64 \<Rightarrow> u64 \<Rightarrow> u64 \<Rightarrow> int \<Rightarrow> memblock_flags \<Rightarrow>
    memblock_state \<Rightarrow> alloc_result" where
  "find_and_reserve env sz align min_addr max_addr nid flags s =
     run_bind (memblock_find_in_range_node env s sz align min_addr max_addr nid flags)
       (\<lambda>alloc. if alloc \<noteq> 0
                then run_bind (memblock_reserve env alloc sz s)
                       (\<lambda>(ret, s'). if ret = 0 then Inr (alloc, s') else Inr (0, s'))
                else Inr (0, s))"

lemma clear_mirror: "(flags AND NOT MEMBLOCK_MIRROR) AND MEMBLOCK_MIRROR = 0"
  by (rule bit_word_eqI) (simp add: bit_simps)

text \<open>
  The \<^verbatim>\<open>again\<close> loop of \<^verbatim>\<open>memblock_virt_alloc_internal\<close>: the lower bound is dropped first, the
  wish for mirrored memory second.
\<close>

function virt_alloc_again :: "boot_env \<Rightarrow> u64 \<Rightarrow> u64 \<Rightarrow> u64 \<Rightarrow> u64 \<Rightarrow> int \<Rightarrow> memblock_flags \<Rightarrow>
    memblock_state \<Rightarrow> alloc_result" where
  "virt_alloc_again env sz align min_addr max_addr nid flags s =
     run_bind (find_and_reserve env sz align min_addr max_addr nid flags s)
       (\<lambda>(alloc, s1).
          if alloc \<noteq> 0 then Inr (alloc, s1)
          else run_bind
            (if nid \<noteq> NUMA_NO_NODE
             then find_and_reserve env sz align min_addr max_addr NUMA_NO_NODE flags s1
             else Inr (0, s1))
            (\<lambda>(alloc, s2).
               if alloc \<noteq> 0 then Inr (alloc, s2)
               else if min_addr \<noteq> 0 then virt_alloc_again env sz align 0 max_addr nid flags s2
               else if flags AND MEMBLOCK_MIRROR \<noteq> 0
               then virt_alloc_again env sz align min_addr max_addr nid (flags AND NOT MEMBLOCK_MIRROR) s2
               else Inr (0, s2)))"
  by pat_completeness auto
termination
  by (relation "measures [\<lambda>(env, sz, align, mn, mx, nid, flags, s). if flags AND MEMBLOCK_MIRROR = 0 then 0 else 1,
        \<lambda>(env, sz, align, mn, mx, nid, flags, s). mn]")
    (auto simp: clear_mirror)

declare virt_alloc_again.simps [simp del]

definition memblock_virt_alloc_internal :: "boot_env \<Rightarrow> u64 \<Rightarrow> u64 \<Rightarrow> u64 \<Rightarrow> u64 \<Rightarrow> int \<Rightarrow> memblock_state \<Rightarrow>
    alloc_result" where
  "memblock_virt_alloc_internal env sz align min_addr max_addr nid s =
     (let flags = choose_memblock_flags s;
          nid = (if nid = MAX_NUMNODES then NUMA_NO_NODE else nid) in
      if env_slab_is_available env then Inr (env_kzalloc_node env sz nid, s)
      else
        let align = (if align = 0 then env_smp_cache_bytes env else align);
            max_addr = (if max_addr > mb_current_limit s then mb_current_limit s else max_addr) in
        virt_alloc_again env sz align min_addr max_addr nid flags s)"

definition memblock_virt_alloc_try_nid_raw :: "boot_env \<Rightarrow> u64 \<Rightarrow> u64 \<Rightarrow> u64 \<Rightarrow> u64 \<Rightarrow> int \<Rightarrow> memblock_state \<Rightarrow>
    alloc_result" where
  "memblock_virt_alloc_try_nid_raw env sz align min_addr max_addr nid =
     memblock_virt_alloc_internal env sz align min_addr max_addr nid"

definition memblock_virt_alloc_try_nid_nopanic :: "boot_env \<Rightarrow> u64 \<Rightarrow> u64 \<Rightarrow> u64 \<Rightarrow> u64 \<Rightarrow> int \<Rightarrow> memblock_state \<Rightarrow>
    alloc_result" where
  "memblock_virt_alloc_try_nid_nopanic env sz align min_addr max_addr nid =
     memblock_virt_alloc_internal env sz align min_addr max_addr nid"

definition memblock_virt_alloc_try_nid :: "boot_env \<Rightarrow> u64 \<Rightarrow> u64 \<Rightarrow> u64 \<Rightarrow> u64 \<Rightarrow> int \<Rightarrow> memblock_state \<Rightarrow>
    alloc_result" where
  "memblock_virt_alloc_try_nid env sz align min_addr max_addr nid s =
     run_bind (memblock_virt_alloc_internal env sz align min_addr max_addr nid s)
       (\<lambda>(ptr, s'). if ptr \<noteq> 0 then Inr (ptr, s') else Inl Panic)"

definition memblock_free_early :: "boot_env \<Rightarrow> u64 \<Rightarrow> u64 \<Rightarrow> memblock_state \<Rightarrow> memblock_state run" where
  "memblock_free_early env base sz s =
     run_bind (memblock_remove_range (doubler_of env) Reserved base sz s) (\<lambda>(_, s'). Inr s')"

section \<open>Sizes and limits\<close>

definition memblock_phys_mem_size :: "memblock_state \<Rightarrow> u64" where
  "memblock_phys_mem_size s = mt_total_size (mb_memory s)"

definition memblock_reserved_size :: "memblock_state \<Rightarrow> u64" where
  "memblock_reserved_size s = mt_total_size (mb_reserved s)"

definition memblock_region_memory_base_pfn :: "memblock_region \<Rightarrow> u64" where
  "memblock_region_memory_base_pfn reg = PFN_UP (mr_base reg)"

definition memblock_region_memory_end_pfn :: "memblock_region \<Rightarrow> u64" where
  "memblock_region_memory_end_pfn reg = PFN_DOWN (u64_add (mr_base reg) (mr_size reg))"

definition memblock_region_reserved_base_pfn :: "memblock_region \<Rightarrow> u64" where
  "memblock_region_reserved_base_pfn reg = PFN_DOWN (mr_base reg)"

definition memblock_region_reserved_end_pfn :: "memblock_region \<Rightarrow> u64" where
  "memblock_region_reserved_end_pfn reg = PFN_UP (u64_add (mr_base reg) (mr_size reg))"

fun mem_size_pages :: "u64 \<Rightarrow> memblock_region list \<Rightarrow> u64 \<Rightarrow> u64" where
  "mem_size_pages limit_pfn [] pages = pages"
| "mem_size_pages limit_pfn (r # rs) pages =
     (let start_pfn = min (memblock_region_memory_base_pfn r) limit_pfn;
          end_pfn = min (memblock_region_memory_end_pfn r) limit_pfn in
      mem_size_pages limit_pfn rs (u64_add pages (u64_sub end_pfn start_pfn)))"

definition memblock_mem_size :: "u64 \<Rightarrow> memblock_state \<Rightarrow> u64" where
  "memblock_mem_size limit_pfn s =
     PFN_PHYS (mem_size_pages limit_pfn (take (mt_cnt (mb_memory s)) (mt_regions (mb_memory s))) 0)"

definition memblock_start_of_DRAM :: "memblock_state \<Rightarrow> u64" where
  "memblock_start_of_DRAM s = mr_base (mt_regions (mb_memory s) ! 0)"

definition memblock_end_of_DRAM :: "memblock_state \<Rightarrow> u64" where
  "memblock_end_of_DRAM s =
     (let r = mt_regions (mb_memory s) ! (mt_cnt (mb_memory s) - 1) in u64_add (mr_base r) (mr_size r))"

fun find_max_addr_in :: "memblock_region list \<Rightarrow> u64 \<Rightarrow> u64" where
  "find_max_addr_in [] limit = PHYS_ADDR_MAX"
| "find_max_addr_in (r # rs) limit =
     (if limit \<le> mr_size r then u64_add (mr_base r) limit
      else find_max_addr_in rs (u64_sub limit (mr_size r)))"

definition find_max_addr :: "u64 \<Rightarrow> memblock_state \<Rightarrow> u64" where
  "find_max_addr limit s = find_max_addr_in (take (mt_cnt (mb_memory s)) (mt_regions (mb_memory s))) limit"

definition memblock_enforce_memory_limit :: "boot_env \<Rightarrow> u64 \<Rightarrow> memblock_state \<Rightarrow> memblock_state run" where
  "memblock_enforce_memory_limit env limit s =
     (if limit = 0 then Inr s
      else
        let max_addr = find_max_addr limit s in
        if max_addr = PHYS_ADDR_MAX then Inr s
        else run_bind (memblock_remove_range (doubler_of env) Memory max_addr PHYS_ADDR_MAX s)
          (\<lambda>(_, s1). run_bind (memblock_remove_range (doubler_of env) Reserved max_addr PHYS_ADDR_MAX s1)
            (\<lambda>(_, s2). Inr s2)))"

text \<open>\<^verbatim>\<open>for (i = hi - 1; i >= lo; i--) if (!memblock_is_nomap(...)) memblock_remove_region(...)\<close>\<close>

fun remove_mapped_down :: "nat \<Rightarrow> nat \<Rightarrow> memblock_type \<Rightarrow> memblock_type" where
  "remove_mapped_down lo 0 t = t"
| "remove_mapped_down lo (Suc n) t =
     remove_mapped_down lo n
       (if \<not> memblock_is_nomap (mt_regions t ! (lo + n)) then memblock_remove_region t (lo + n) else t)"

definition memblock_cap_memory_range :: "boot_env \<Rightarrow> u64 \<Rightarrow> u64 \<Rightarrow> memblock_state \<Rightarrow> memblock_state run" where
  "memblock_cap_memory_range env base sz s =
     (if sz = 0 then Inr s
      else run_bind (memblock_isolate_range (doubler_of env) Memory base sz s)
        (\<lambda>(ret, start_rgn, end_rgn, s1).
           if ret \<noteq> 0 then Inr s1
           else
             let m1 = remove_mapped_down end_rgn (mt_cnt (mb_memory s1) - end_rgn) (mb_memory s1);
                 m2 = remove_mapped_down 0 start_rgn m1 in
             run_bind (memblock_remove_range (doubler_of env) Reserved 0 base (s1\<lparr>mb_memory := m2\<rparr>))
               (\<lambda>(_, s2). run_bind (memblock_remove_range (doubler_of env) Reserved (u64_add base sz) PHYS_ADDR_MAX s2)
                 (\<lambda>(_, s3). Inr s3))))"

definition memblock_mem_limit_remove_map :: "boot_env \<Rightarrow> u64 \<Rightarrow> memblock_state \<Rightarrow> memblock_state run" where
  "memblock_mem_limit_remove_map env limit s =
     (if limit = 0 then Inr s
      else
        let max_addr = find_max_addr limit s in
        if max_addr = PHYS_ADDR_MAX then Inr s
        else memblock_cap_memory_range env 0 max_addr s)"

section \<open>Queries\<close>

definition memblock_is_reserved :: "memblock_state \<Rightarrow> u64 \<Rightarrow> bool" where
  "memblock_is_reserved s addr \<longleftrightarrow> memblock_search (mb_reserved s) addr \<noteq> -1"

definition memblock_is_memory :: "memblock_state \<Rightarrow> u64 \<Rightarrow> bool" where
  "memblock_is_memory s addr \<longleftrightarrow> memblock_search (mb_memory s) addr \<noteq> -1"

definition memblock_is_map_memory :: "memblock_state \<Rightarrow> u64 \<Rightarrow> bool" where
  "memblock_is_map_memory s addr \<longleftrightarrow>
     (let i = memblock_search (mb_memory s) addr in
      if i = -1 then False else \<not> memblock_is_nomap (mt_regions (mb_memory s) ! nat i))"

text \<open>The node and the pfn range, or \<^verbatim>\<open>-1\<close> and no range.\<close>

definition memblock_search_pfn_nid :: "memblock_state \<Rightarrow> u64 \<Rightarrow> int \<times> (u64 \<times> u64) option" where
  "memblock_search_pfn_nid s pfn =
     (let mid = memblock_search (mb_memory s) (PFN_PHYS pfn) in
      if mid = -1 then (-1, None)
      else
        let r = mt_regions (mb_memory s) ! nat mid in
        (mr_nid r, Some (PFN_DOWN (mr_base r), PFN_DOWN (u64_add (mr_base r) (mr_size r)))))"

definition memblock_is_region_memory :: "memblock_state \<Rightarrow> u64 \<Rightarrow> u64 \<Rightarrow> bool" where
  "memblock_is_region_memory s base sz \<longleftrightarrow>
     (let idx = memblock_search (mb_memory s) base;
          end = u64_add base (memblock_cap_size base sz) in
      if idx = -1 then False
      else
        let r = mt_regions (mb_memory s) ! nat idx in
        u64_add (mr_base r) (mr_size r) \<ge> end)"

definition memblock_is_region_reserved :: "memblock_state \<Rightarrow> u64 \<Rightarrow> u64 \<Rightarrow> bool" where
  "memblock_is_region_reserved s base sz \<longleftrightarrow>
     memblock_overlaps_region (mb_reserved s) base (memblock_cap_size base sz)"

text \<open>
  The loop of \<^verbatim>\<open>memblock_trim_memory\<close> over the memory array. Removing the last region leaves the
  dummy entry, which is visited once more; \<open>cnt + 2\<close> steps are enough.
\<close>

primrec trim_from :: "nat \<Rightarrow> u64 \<Rightarrow> nat \<Rightarrow> memblock_type \<Rightarrow> memblock_type run" where
  "trim_from 0 align i t = Inl No_fuel"
| "trim_from (Suc n) align i t =
     (if i < mt_cnt t then
        let r = mt_regions t ! i;
            orig_start = mr_base r;
            orig_end = u64_add (mr_base r) (mr_size r);
            start = round_up orig_start align;
            end = round_down orig_end align in
        if start = orig_start \<and> end = orig_end then trim_from n align (i + 1) t
        else if start < end then
          trim_from n align (i + 1)
            (t\<lparr>mt_regions := (mt_regions t)[i := r\<lparr>mr_base := start, mr_size := u64_sub end start\<rparr>]\<rparr>)
        else trim_from n align i (memblock_remove_region t i)
      else Inr t)"

definition memblock_trim_memory :: "u64 \<Rightarrow> memblock_state \<Rightarrow> memblock_state run" where
  "memblock_trim_memory align s =
     run_bind (trim_from (mt_cnt (mb_memory s) + 2) align 0 (mb_memory s)) (\<lambda>t. Inr (s\<lparr>mb_memory := t\<rparr>))"

definition memblock_set_current_limit :: "u64 \<Rightarrow> memblock_state \<Rightarrow> memblock_state" where
  "memblock_set_current_limit limit s = s\<lparr>mb_current_limit := limit\<rparr>"

definition memblock_get_current_limit :: "memblock_state \<Rightarrow> u64" where
  "memblock_get_current_limit s = mb_current_limit s"

definition memblock_set_bottom_up :: "bool \<Rightarrow> memblock_state \<Rightarrow> memblock_state" where
  "memblock_set_bottom_up enable s = s\<lparr>mb_bottom_up := enable\<rparr>"

definition memblock_allow_resize :: "memblock_state \<Rightarrow> memblock_state" where
  "memblock_allow_resize s = s\<lparr>memblock_can_resize := True\<rparr>"

section \<open>The remaining iterators\<close>

text \<open>The new index and, unless the walk is over, the first and the last address.\<close>

definition next_reserved_mem_region :: "memblock_state \<Rightarrow> u64 \<Rightarrow> u64 \<times> (u64 \<times> u64) option" where
  "next_reserved_mem_region s idx =
     (if idx < mt_cnt (mb_reserved s) then
        let r = mt_regions (mb_reserved s) ! idx in
        (idx + 1, Some (mr_base r, u64_sub (u64_add (mr_base r) (mr_size r)) 1))
      else (ULLONG_MAX, None))"

text \<open>\<^verbatim>\<open>while (++*idx < type->cnt)\<close>, from the incremented index on.\<close>

function next_pfn_scan :: "memblock_type \<Rightarrow> int \<Rightarrow> nat \<Rightarrow> nat" where
  "next_pfn_scan t nid i =
     (if i < mt_cnt t then
        let r = mt_regions t ! i in
        if PFN_UP (mr_base r) \<ge> PFN_DOWN (u64_add (mr_base r) (mr_size r)) then next_pfn_scan t nid (i + 1)
        else if nid = MAX_NUMNODES \<or> nid = mr_nid r then i
        else next_pfn_scan t nid (i + 1)
      else i)"
  by pat_completeness auto
termination
  by (relation "measure (\<lambda>(t, nid, i). mt_cnt t - i)") auto

declare next_pfn_scan.simps [simp del]

definition next_mem_pfn_range :: "memblock_state \<Rightarrow> int \<Rightarrow> int \<Rightarrow> int \<times> (u64 \<times> u64 \<times> int) option" where
  "next_mem_pfn_range s nid idx =
     (let t = mb_memory s; i = next_pfn_scan t nid (nat (idx + 1)) in
      if i \<ge> mt_cnt t then (-1, None)
      else
        let r = mt_regions t ! i in
        (int i, Some (PFN_UP (mr_base r), PFN_DOWN (u64_add (mr_base r) (mr_size r)), mr_nid r)))"

section \<open>Well-formed states\<close>

definition wf_state :: "memblock_state \<Rightarrow> bool" where
  "wf_state s \<longleftrightarrow> wf_type (mb_memory s) \<and> wf_type (mb_reserved s) \<and> mb_current_limit s \<le> PHYS_ADDR_MAX \<and>
     int (mt_cnt (mb_memory s)) < 2 ^ 31 - 1 \<and> int (mt_cnt (mb_reserved s)) < 2 ^ 31 - 1"

lemma wf_state_walkable: "wf_state s \<Longrightarrow> walkable (mb_memory s) (mb_reserved s)"
  by (simp add: wf_state_def walkable_def wf_type_def)

lemma add_list_disjoint:
  assumes "b < e" "\<forall>r\<in>set rs. mr_end r \<le> b \<or> e \<le> mr_base r"
  shows "length (add_list b e nid fl rs) = Suc (length rs)"
  using assms by (induction rs) auto

lemma merge_list_length: "length (merge_list rs) \<le> length rs"
  by (induction rs rule: merge_list.induct) auto

lemma add_regions_length: "length (add_regions b e nid fl rs) \<le> length (add_list b e nid fl rs)"
  using length_add_list [of rs b e nid fl] merge_list_length [of "add_list b e nid fl rs"]
  by (auto simp: add_regions_def is_dummy_def)

text \<open>Reserving an area that meets no reservation takes at most one more slot.\<close>

definition reserved_after :: "memblock_state \<Rightarrow> u64 \<Rightarrow> u64 \<Rightarrow> memblock_state \<Rightarrow> bool" where
  "reserved_after s c sz s' \<longleftrightarrow>
     (\<exists>t'. s' = s\<lparr>mb_reserved := t'\<rparr> \<and> wf_type t' \<and> mt_max t' = mt_max (mb_reserved s) \<and>
        mt_array t' = mt_array (mb_reserved s) \<and> mt_cnt t' \<le> mt_cnt (mb_reserved s) + 1 \<and>
        (\<forall>a. amap (live t') a = (if c \<le> a \<and> a < c + sz then Some (MAX_NUMNODES, 0)
                                 else amap (live (mb_reserved s)) a)))"

lemma add_free_area:
  assumes wf: "wf_type (mb_reserved s)" and area: "c + sz \<le> PHYS_ADDR_MAX" "0 < sz"
    and free: "\<forall>r\<in>set (live (mb_reserved s)). mr_end r \<le> c \<or> c + sz \<le> mr_base r"
    and room: "mt_cnt (mb_reserved s) < mt_max (mb_reserved s)"
  shows "\<exists>s'. memblock_add_range dbl Reserved c sz MAX_NUMNODES 0 s = Inr (0, s') \<and> reserved_after s c sz s'"
proof -
  let ?t = "mb_reserved s" and ?L = "add_regions c (c + sz) MAX_NUMNODES 0 (live (mb_reserved s))"
  have c: "c \<le> PHYS_ADDR_MAX" "min (c + sz) PHYS_ADDR_MAX = c + sz" using area by auto
  have o: "ordered (live ?t)" "is_dummy (live ?t) \<or> nonempty (live ?t)" "length (live ?t) = mt_cnt ?t"
    using wf by (simp_all add: wf_type_def)
  have len: "length (add_list c (c + sz) MAX_NUMNODES 0 (live ?t)) = Suc (mt_cnt ?t)"
    using add_list_disjoint [OF _ free] area o(3) by simp
  obtain t' where t': "memblock_add_range dbl Reserved c sz MAX_NUMNODES 0 s = Inr (0, s\<lparr>mb_reserved := t'\<rparr>)"
    "arr_upd ?t ?L t'"
    using add_range_room [of Reserved s c "c + sz" sz MAX_NUMNODES 0 dbl] wf c len room by auto
  have "wf_type t'"
    using wf_type_upd [OF t'(2)] add_regions_neq_Nil [OF wf_type_neq_Nil [OF wf]]
      add_regions_ordered [OF o(1) area(1)] add_regions_nonempty [OF o(2)] by blast
  moreover have "mt_cnt t' \<le> mt_cnt ?t + 1"
    using add_regions_length [of c "c + sz" MAX_NUMNODES 0 "live ?t"] len arr_updD(3) [OF t'(2)] by simp
  moreover have "amap (live t') a = (if c \<le> a \<and> a < c + sz then Some (MAX_NUMNODES, 0) else amap (live ?t) a)" for a
  proof -
    have "amap (live ?t) a = None" if "c \<le> a" "a < c + sz"
      using free that unfolding amap_eq_None by (auto simp: covers_def)
    then show ?thesis
      using add_regions_amap [OF o(1) area(1), of c MAX_NUMNODES 0 a] arr_updD(2) [OF t'(2)]
      by (auto split: option.splits)
  qed
  ultimately show ?thesis
    using t' arr_updD(4,5) [OF t'(2)] unfolding reserved_after_def by blast
qed

abbreviation eff_align :: "boot_env \<Rightarrow> u64 \<Rightarrow> u64" where
  "eff_align env align \<equiv> if align = 0 then env_smp_cache_bytes env else align"

lemma found_at_bounds:
  assumes "found_at env s sz align start end nid flags c"
    and "start \<le> PHYS_ADDR_MAX" "end \<le> PHYS_ADDR_MAX" "mb_current_limit s \<le> PHYS_ADDR_MAX"
  shows "c + sz \<le> PHYS_ADDR_MAX" "\<forall>r\<in>set (live (mb_reserved s)). mr_end r \<le> c \<or> c + sz \<le> mr_base r" "c \<noteq> 0"
  using assms by (auto simp: found_at_def free_area_def win_end_def win_start_def PAGE_SIZE_def max_numerals
      split: if_splits)

lemma find_and_reserve_spec:
  assumes wf: "wf_state s" and k: "k < 64" and sz: "0 < sz"
    and b: "start \<le> PHYS_ADDR_MAX" "end \<le> PHYS_ADDR_MAX"
    and room: "mt_cnt (mb_reserved s) < mt_max (mb_reserved s)"
  shows "\<exists>c s'. find_and_reserve env sz (2 ^ k) start end nid flags s = Inr (c, s') \<and>
    (if c = 0 then s' = s \<and> (\<forall>c'. \<not> found_at env s sz (2 ^ k) start end nid flags c')
     else found_at env s sz (2 ^ k) start end nid flags c \<and> reserved_after s c sz s')"
proof -
  have lim: "mb_current_limit s \<le> PHYS_ADDR_MAX" and wfr: "wf_type (mb_reserved s)"
    using wf by (simp_all add: wf_state_def)
  obtain c where c: "memblock_find_in_range_node env s sz (2 ^ k) start end nid flags = Inr c"
    "c \<noteq> 0 \<longrightarrow> found_at env s sz (2 ^ k) start end nid flags c"
    "c = 0 \<longrightarrow> (\<forall>c'. \<not> found_at env s sz (2 ^ k) start end nid flags c')"
    using find_in_range_node_spec [OF wf_state_walkable [OF wf] k sz b lim] .
  show ?thesis
  proof (cases "c = 0")
    case True
    then show ?thesis using c by (simp add: find_and_reserve_def)
  next
    case False
    then have f: "found_at env s sz (2 ^ k) start end nid flags c" using c(2) by blast
    obtain s' where "memblock_reserve env c sz s = Inr (0, s')" "reserved_after s c sz s'"
      using add_free_area [OF wfr found_at_bounds(1) [OF f b lim] sz found_at_bounds(2) [OF f b lim] room]
      unfolding memblock_reserve_def by blast
    then show ?thesis using c(1) f False by (simp add: find_and_reserve_def)
  qed
qed

lemma alloc_range_nid_eq:
  "memblock_alloc_range_nid env sz align start end nid flags s =
     find_and_reserve env sz (eff_align env align) start end nid flags s"
  by (simp add: memblock_alloc_range_nid_def find_and_reserve_def Let_def)

lemma not_mirror_idem: "(flags AND NOT MEMBLOCK_MIRROR) AND NOT MEMBLOCK_MIRROR = flags AND NOT MEMBLOCK_MIRROR"
  by (rule bit_word_eqI) (auto simp: bit_simps)

lemma no_mirror:
  assumes "flags AND MEMBLOCK_MIRROR = 0"
  shows "flags AND NOT MEMBLOCK_MIRROR = flags"
proof -
  have "(flags AND MEMBLOCK_MIRROR) OR (flags AND NOT MEMBLOCK_MIRROR) = flags"
    by (rule bit_word_eqI) (auto simp: bit_simps)
  then show ?thesis using assms by simp
qed

text \<open>
  The fallbacks of \<^verbatim>\<open>memblock_virt_alloc_internal\<close>: any node, no lower bound, no mirror.
\<close>

definition virt_outcome :: "boot_env \<Rightarrow> memblock_state \<Rightarrow> u64 \<Rightarrow> u64 \<Rightarrow> u64 \<Rightarrow> u64 \<Rightarrow> int \<Rightarrow> memblock_flags \<Rightarrow>
    u64 \<Rightarrow> memblock_state \<Rightarrow> bool" where
  "virt_outcome env s sz align min_addr max_addr nid flags c s' \<longleftrightarrow>
     (if c = 0 then s' = s \<and>
        (\<forall>c'. \<not> found_at env s sz align 0 max_addr NUMA_NO_NODE (flags AND NOT MEMBLOCK_MIRROR) c')
      else (\<exists>mn\<in>{min_addr, 0}. \<exists>n\<in>{nid, NUMA_NO_NODE}. \<exists>f\<in>{flags, flags AND NOT MEMBLOCK_MIRROR}.
              found_at env s sz align mn max_addr n f c) \<and> reserved_after s c sz s')"

lemma virt_outcome_min:
  "virt_outcome env s sz al 0 mx nid fl c s' \<Longrightarrow> virt_outcome env s sz al mn mx nid fl c s'"
  by (auto simp: virt_outcome_def split: if_splits)

lemma virt_outcome_mirror:
  "virt_outcome env s sz al mn mx nid (fl AND NOT MEMBLOCK_MIRROR) c s' \<Longrightarrow> virt_outcome env s sz al mn mx nid fl c s'"
  by (auto simp: virt_outcome_def not_mirror_idem split: if_splits)

lemma virt_alloc_again_spec:
  assumes "wf_state s" "k < 64" "0 < sz" "min_addr \<le> PHYS_ADDR_MAX" "max_addr \<le> PHYS_ADDR_MAX"
    and "mt_cnt (mb_reserved s) < mt_max (mb_reserved s)"
  shows "\<exists>c s'. virt_alloc_again env sz (2 ^ k) min_addr max_addr nid flags s = Inr (c, s') \<and>
    virt_outcome env s sz (2 ^ k) min_addr max_addr nid flags c s'"
  using assms
proof (induction env sz "2 ^ k :: nat" min_addr max_addr nid flags s rule: virt_alloc_again.induct)
  case (1 env sz min_addr max_addr nid flags s)
  note IH = "1.hyps" and prems = "1.prems"
  obtain c1 s1 where f1: "find_and_reserve env sz (2 ^ k) min_addr max_addr nid flags s = Inr (c1, s1)"
    "if c1 = 0 then s1 = s \<and> (\<forall>c'. \<not> found_at env s sz (2 ^ k) min_addr max_addr nid flags c')
     else found_at env s sz (2 ^ k) min_addr max_addr nid flags c1 \<and> reserved_after s c1 sz s1"
    using find_and_reserve_spec [OF prems] by blast
  obtain c2 s2 where f2: "find_and_reserve env sz (2 ^ k) min_addr max_addr NUMA_NO_NODE flags s = Inr (c2, s2)"
    "if c2 = 0 then s2 = s \<and> (\<forall>c'. \<not> found_at env s sz (2 ^ k) min_addr max_addr NUMA_NO_NODE flags c')
     else found_at env s sz (2 ^ k) min_addr max_addr NUMA_NO_NODE flags c2 \<and> reserved_after s c2 sz s2"
    using find_and_reserve_spec [OF prems] by blast
  note unf = virt_alloc_again.simps [of env sz "2 ^ k" min_addr max_addr nid flags s]
  consider "c1 \<noteq> 0" | "c1 = 0" "nid \<noteq> NUMA_NO_NODE" "c2 \<noteq> 0" | "c1 = 0" "nid \<noteq> NUMA_NO_NODE \<longrightarrow> c2 = 0"
    by (cases "c1 = 0"; cases "nid = NUMA_NO_NODE"; cases "c2 = 0") simp_all
  then show ?case
  proof cases
    case 1
    then show ?thesis using f1 by (simp add: unf virt_outcome_def)
  next
    case 2
    then show ?thesis using f1 f2 by (simp add: unf virt_outcome_def)
  next
    case 3
    have none: "\<forall>c'. \<not> found_at env s sz (2 ^ k) min_addr max_addr NUMA_NO_NODE flags c'"
      using 3 f1 f2 by (cases "nid = NUMA_NO_NODE") auto
    consider "min_addr \<noteq> 0" | "min_addr = 0" "flags AND MEMBLOCK_MIRROR \<noteq> 0"
      | "min_addr = 0" "flags AND MEMBLOCK_MIRROR = 0" by blast
    then show ?thesis
    proof cases
      case 1
      have eq: "virt_alloc_again env sz (2 ^ k) min_addr max_addr nid flags s =
          virt_alloc_again env sz (2 ^ k) 0 max_addr nid flags s"
        using 1 3 f1 f2 by (simp add: unf)
      show ?thesis
        unfolding eq using IH(1) [of 0 0 s] prems 1 virt_outcome_min by blast
    next
      case 2
      have eq: "virt_alloc_again env sz (2 ^ k) min_addr max_addr nid flags s =
          virt_alloc_again env sz (2 ^ k) min_addr max_addr nid (flags AND NOT MEMBLOCK_MIRROR) s"
        by (subst unf) (use 2 3 f1 f2 in \<open>simp split: if_splits\<close>)
      show ?thesis
        unfolding eq using IH(2) [of 0 0 s] prems 2 virt_outcome_mirror by blast
    next
      case 3
      then have "virt_alloc_again env sz (2 ^ k) min_addr max_addr nid flags s = Inr (0, s)"
        by (subst unf) (use \<open>c1 = 0\<close> \<open>nid \<noteq> NUMA_NO_NODE \<longrightarrow> c2 = 0\<close> f1 f2 in \<open>simp split: if_splits\<close>)
      then show ?thesis using none 3 by (simp add: no_mirror virt_outcome_def)
    qed
  qed
qed

section \<open>How much memory there is\<close>

lemma covered_finite: "finite {a. amap rs a \<noteq> None}"
proof (rule finite_subset)
  show "{a. amap rs a \<noteq> None} \<subseteq> (\<Union>r\<in>set rs. {mr_base r..<mr_end r})"
    unfolding amap_eq_None by (auto simp: covers_def)
qed simp

text \<open>The sizes add up to the number of covered addresses.\<close>

lemma sizes_card:
  assumes "ordered rs"
  shows "card {a. amap rs a \<noteq> None} = sizes rs"
  using assms
proof (induction rs)
  case (Cons r rs)
  have eq: "{a. amap (r # rs) a \<noteq> None} = {mr_base r..<mr_end r} \<union> {a. amap rs a \<noteq> None}"
    by (auto simp: covers_def)
  have "amap rs a = None" if "a < mr_end r" for a
    using Cons.prems that by (intro amap_below) (force simp: ordered_Cons)
  then have "{mr_base r..<mr_end r} \<inter> {a. amap rs a \<noteq> None} = {}" by auto
  then have "card {a. amap (r # rs) a \<noteq> None} = card {mr_base r..<mr_end r} + card {a. amap rs a \<noteq> None}"
    unfolding eq using covered_finite [of rs] by (intro card_Un_disjoint) auto
  then show ?case using Cons by (simp add: ordered_Cons mr_end_def)
qed simp

lemma find_max_addr_above:
  "limit \<le> PHYS_ADDR_MAX \<Longrightarrow> sizes rs < limit \<Longrightarrow> find_max_addr_in rs limit = PHYS_ADDR_MAX"
  by (induction rs arbitrary: limit) (auto simp: u64_sub_max)

lemma find_max_addr_within:
  assumes "ordered rs" "0 < limit" "limit \<le> sizes rs"
  shows "find_max_addr_in rs limit \<le> PHYS_ADDR_MAX \<and> (\<exists>r\<in>set rs. mr_base r \<le> find_max_addr_in rs limit) \<and>
    card {a. a < find_max_addr_in rs limit \<and> amap rs a \<noteq> None} = limit"
  using assms
proof (induction rs arbitrary: limit)
  case (Cons r rs)
  have r: "mr_end r \<le> PHYS_ADDR_MAX" "\<forall>q\<in>set rs. mr_end r \<le> mr_base q" "ordered rs"
    using Cons.prems(1) by (auto simp: ordered_Cons)
  have low: "amap rs a = None" if "a < mr_end r" for a using r(2) that by (intro amap_below) force
  show ?case
  proof (cases "limit \<le> mr_size r")
    case True
    then have m: "find_max_addr_in (r # rs) limit = mr_base r + limit"
      using r(1) by (simp add: u64_add_max mr_end_def)
    have "{a. a < mr_base r + limit \<and> amap (r # rs) a \<noteq> None} = {mr_base r..<mr_base r + limit}"
      using True low by (auto simp: covers_def mr_end_def split: if_splits)
    then show ?thesis unfolding m using True r(1) by (simp add: mr_end_def)
  next
    case False
    have "limit \<le> PHYS_ADDR_MAX" using sizes_le_end [OF Cons.prems(1), of 0] Cons.prems(3) by simp
    then have m: "find_max_addr_in (r # rs) limit = find_max_addr_in rs (limit - mr_size r)"
      using False by (simp add: u64_sub_max)
    let ?m = "find_max_addr_in rs (limit - mr_size r)"
    have IH: "?m \<le> PHYS_ADDR_MAX" "\<exists>q\<in>set rs. mr_base q \<le> ?m" "card {a. a < ?m \<and> amap rs a \<noteq> None} = limit - mr_size r"
      using Cons.IH [OF r(3), of "limit - mr_size r"] False Cons.prems(3) by auto
    have ge: "mr_end r \<le> ?m" using IH(2) r(2) by force
    have eq: "{a. a < ?m \<and> amap (r # rs) a \<noteq> None} = {mr_base r..<mr_end r} \<union> {a. a < ?m \<and> amap rs a \<noteq> None}"
      using ge by (auto simp: covers_def)
    have "{mr_base r..<mr_end r} \<inter> {a. a < ?m \<and> amap rs a \<noteq> None} = {}" using low by auto
    then have "card {a. a < ?m \<and> amap (r # rs) a \<noteq> None} = mr_size r + (limit - mr_size r)"
      unfolding eq using IH(3) by (subst card_Un_disjoint) (auto simp: mr_end_def)
    then show ?thesis using IH False unfolding m by auto
  qed
qed simp

text \<open>The covered addresses lie below \<^const>\<open>PHYS_ADDR_MAX\<close>.\<close>

lemma covered_below_max: "ordered rs \<Longrightarrow> amap rs a \<noteq> None \<Longrightarrow> a < PHYS_ADDR_MAX"
  unfolding amap_eq_None by (auto simp: covers_def dest!: ordered_end_le)

lemma nothing_above_max: "ordered rs \<Longrightarrow> PHYS_ADDR_MAX \<le> a \<Longrightarrow> amap rs a = None"
  using covered_below_max [of rs a] by (metis leD)

lemma enforce_memory_limit_spec:
  assumes wf: "wf_state s" and limit: "0 < limit" "limit \<le> PHYS_ADDR_MAX"
    and room: "mt_cnt (mb_memory s) + 2 \<le> mt_max (mb_memory s)" "mt_cnt (mb_reserved s) + 2 \<le> mt_max (mb_reserved s)"
  shows "\<exists>s'. memblock_enforce_memory_limit env limit s = Inr s' \<and> wf_type (mb_memory s') \<and> wf_type (mb_reserved s') \<and>
    memblock_phys_mem_size s' = min limit (memblock_phys_mem_size s) \<and>
    (\<exists>top. \<forall>a. amap (live (mb_memory s')) a = (if a < top then amap (live (mb_memory s)) a else None) \<and>
               amap (live (mb_reserved s')) a = (if a < top then amap (live (mb_reserved s)) a else None))"
proof -
  let ?M = "live (mb_memory s)" and ?R = "live (mb_reserved s)"
  have wfm: "wf_type (mb_memory s)" and wfr: "wf_type (mb_reserved s)" using wf by (simp_all add: wf_state_def)
  have o: "ordered ?M" "ordered ?R" using wfm wfr by (simp_all add: wf_type_def)
  have tot: "memblock_phys_mem_size s = sizes ?M"
    using wf_type_total [OF wfm] by (simp add: memblock_phys_mem_size_def)
  define m where "m = find_max_addr limit s"
  have m_eq: "m = find_max_addr_in ?M limit" by (simp add: m_def find_max_addr_def live_def)
  show ?thesis
  proof (cases "m = PHYS_ADDR_MAX")
    case True
    have "sizes ?M \<le> limit"
    proof (rule ccontr)
      assume c: "\<not> sizes ?M \<le> limit"
      then have "card {a. a < m \<and> amap ?M a \<noteq> None} = limit"
        using find_max_addr_within [OF o(1) limit(1)] m_eq by simp
      moreover have "{a. a < m \<and> amap ?M a \<noteq> None} = {a. amap ?M a \<noteq> None}"
        using covered_below_max [OF o(1)] True by auto
      ultimately show False using sizes_card [OF o(1)] c by simp
    qed
    moreover have "memblock_enforce_memory_limit env limit s = Inr s"
      using True limit by (simp add: memblock_enforce_memory_limit_def Let_def m_def)
    moreover have "\<forall>a. amap ?M a = (if a < PHYS_ADDR_MAX then amap ?M a else None) \<and>
        amap ?R a = (if a < PHYS_ADDR_MAX then amap ?R a else None)"
      using covered_below_max [OF o(1)] covered_below_max [OF o(2)] by metis
    ultimately show ?thesis
      using tot wfm wfr by (intro exI [of _ s] conjI exI [of _ PHYS_ADDR_MAX]) simp_all
  next
    case False
    then have le: "limit \<le> sizes ?M" using find_max_addr_above [OF limit(2), of ?M] m_eq by fastforce
    have mM: "m \<le> PHYS_ADDR_MAX" and card: "card {a. a < m \<and> amap ?M a \<noteq> None} = limit"
      using find_max_addr_within [OF o(1) limit(1) le] m_eq by simp_all
    have e: "PHYS_ADDR_MAX = min (m + PHYS_ADDR_MAX) PHYS_ADDR_MAX" by simp
    obtain tm L1 where tm: "memblock_remove_range (doubler_of env) Memory m PHYS_ADDR_MAX s = Inr (0, s\<lparr>mb_memory := tm\<rparr>)"
      "arr_upd (mb_memory s) L1 tm" "wf_type tm"
      "\<forall>a. amap L1 a = (if m \<le> a \<and> a < PHYS_ADDR_MAX then None else amap ?M a)"
      using remove_range_room [of Memory s m PHYS_ADDR_MAX PHYS_ADDR_MAX "doubler_of env"] wfm mM e room(1) by auto
    let ?s1 = "s\<lparr>mb_memory := tm\<rparr>"
    obtain tr L2 where tr: "memblock_remove_range (doubler_of env) Reserved m PHYS_ADDR_MAX ?s1 = Inr (0, ?s1\<lparr>mb_reserved := tr\<rparr>)"
      "arr_upd (mb_reserved s) L2 tr" "wf_type tr"
      "\<forall>a. amap L2 a = (if m \<le> a \<and> a < PHYS_ADDR_MAX then None else amap ?R a)"
      using remove_range_room [of Reserved ?s1 m PHYS_ADDR_MAX PHYS_ADDR_MAX "doubler_of env"] wfr mM e room(2) by auto
    have am: "amap (live tm) a = (if a < m then amap ?M a else None)"
      "amap (live tr) a = (if a < m then amap ?R a else None)" for a
      using tm(4) tr(4) arr_updD(2) [OF tm(2)] arr_updD(2) [OF tr(2)] nothing_above_max [OF o(1), of a]
        nothing_above_max [OF o(2), of a] by auto
    have "mt_total_size tm = card {a. amap (live tm) a \<noteq> None}"
      using wf_type_total [OF tm(3)] sizes_card [of "live tm"] tm(3) by (simp add: wf_type_def)
    also have "{a. amap (live tm) a \<noteq> None} = {a. a < m \<and> amap ?M a \<noteq> None}" by (auto simp: am(1))
    finally have "mt_total_size tm = limit" using card by simp
    moreover have "memblock_enforce_memory_limit env limit s = Inr (?s1\<lparr>mb_reserved := tr\<rparr>)"
      using False limit tm(1) tr(1) by (simp add: memblock_enforce_memory_limit_def Let_def m_def)
    ultimately show ?thesis
      using tm(3) tr(3) am le tot
      by (intro exI [of _ "?s1\<lparr>mb_reserved := tr\<rparr>"] conjI exI [of _ m]) (simp_all add: memblock_phys_mem_size_def)
  qed
qed

section \<open>Trimming to an alignment\<close>

text \<open>What is left of a region, and of a list of regions.\<close>

definition trim_region :: "u64 \<Rightarrow> memblock_region \<Rightarrow> memblock_region" where
  "trim_region align r = r\<lparr>mr_base := round_up (mr_base r) align,
     mr_size := round_down (mr_end r) align - round_up (mr_base r) align\<rparr>"

definition trim_keeps :: "u64 \<Rightarrow> memblock_region \<Rightarrow> bool" where
  "trim_keeps align r \<longleftrightarrow> round_up (mr_base r) align < round_down (mr_end r) align"

definition trim_list :: "u64 \<Rightarrow> memblock_region list \<Rightarrow> memblock_region list" where
  "trim_list align rs = map (trim_region align) (filter (trim_keeps align) rs)"

definition array_ok :: "memblock_type \<Rightarrow> bool" where
  "array_ok t \<longleftrightarrow> length (mt_regions t) = mt_max t \<and> mt_cnt t \<le> mt_max t"

lemma array_ok_nth:
  assumes "array_ok t" "live t = pre @ r # suf" "length pre = i"
  shows "i < mt_cnt t" "mt_regions t ! i = r" "mt_cnt t = Suc (i + length suf)"
proof -
  have "length (live t) = mt_cnt t" using assms(1) by (simp add: array_ok_def live_def)
  then show c: "mt_cnt t = Suc (i + length suf)" using assms by simp
  then show "i < mt_cnt t" by simp
  then show "mt_regions t ! i = r" using assms by (simp add: regions_nth_live nth_append)
qed

lemma remove_region_live:
  assumes "array_ok t" "live t = pre @ r # suf" "length pre = i" "1 < mt_cnt t"
  shows "array_ok (memblock_remove_region t i)" "live (memblock_remove_region t i) = pre @ suf"
  using assms array_ok_nth [OF assms(1-3)] memmove_remove [of i "mt_cnt t" "mt_regions t"]
  by (auto simp: memblock_remove_region_def Let_def array_ok_def live_def length_memmove)

lemma remove_region_only:
  assumes "array_ok t" "mt_cnt t = 1"
  shows "array_ok (memblock_remove_region t 0)" "is_dummy (live (memblock_remove_region t 0))"
  using assms by (cases "mt_regions t";
      auto simp: memblock_remove_region_def Let_def array_ok_def live_def is_dummy_def memmove_def)+

lemma round_down_0: "round_down 0 y = 0"
  by (simp add: round_down_def)

lemma trim_dummy:
  assumes "array_ok t" "is_dummy (live t)" "k < 64"
  shows "trim_from (Suc (Suc n)) (2 ^ k) 0 t = Inr t"
proof -
  obtain r where r: "live t = [r]" "mr_base r = 0" "mr_size r = 0" using assms(2) by (auto simp: is_dummy_def)
  have "mt_cnt t = 1" "mt_regions t ! 0 = r" using array_ok_nth [of t "[]" r "[]" 0] assms(1) r(1) by auto
  moreover have "u64_add 0 0 = 0" by (simp add: u64_add_def)
  ultimately show ?thesis using r assms(3) by (simp add: Let_def round_down_0)
qed

lemma trim_from_spec:
  assumes "array_ok t" "live t = pre @ rs" "length pre = i" "ordered rs" "nonempty rs" "k < 64"
    and "length rs + 2 \<le> n" "live t \<noteq> []" "mt_total_size t = (x + sizes rs) mod u64_lim"
  shows "\<exists>t'. trim_from n (2 ^ k) i t = Inr t' \<and> array_ok t' \<and>
    mt_total_size t' = (x + sizes (filter (trim_keeps (2 ^ k)) rs)) mod u64_lim \<and>
    (if pre @ trim_list (2 ^ k) rs = [] then is_dummy (live t') else live t' = pre @ trim_list (2 ^ k) rs)"
  using assms
proof (induction rs arbitrary: t pre i n x)
  case Nil
  obtain m where "n = Suc m" using Nil.prems(7) by (cases n) auto
  moreover have "length (live t) = mt_cnt t" using Nil.prems(1) by (simp add: array_ok_def live_def)
  ultimately show ?case using Nil.prems by (simp add: trim_list_def)
next
  case (Cons r rs)
  obtain m where m: "n = Suc m" "length rs + 2 \<le> m" using Cons.prems(7) by (cases n) auto
  have i: "i < mt_cnt t" "mt_regions t ! i = r" "mt_cnt t = Suc (i + length rs)"
    using array_ok_nth [OF Cons.prems(1-3)] by auto
  have o: "ordered rs" "nonempty rs" and rM: "mr_end r \<le> PHYS_ADDR_MAX" and pos: "mr_base r < mr_end r"
    using Cons.prems(4,5) by (auto simp: ordered_Cons nonempty_def mr_end_def)
  have e: "u64_add (mr_base r) (mr_size r) = mr_end r" using rM by (simp add: u64_add_mr_end)
  let ?s = "round_up (mr_base r) (2 ^ k)" and ?e = "round_down (mr_end r) (2 ^ k)"
  have eM: "?e \<le> PHYS_ADDR_MAX"
    using round_down_le [of "mr_end r" k] rM Cons.prems(6) by (auto simp: less_u64_lim_iff)
  consider "?s = mr_base r" "?e = mr_end r" | "\<not> (?s = mr_base r \<and> ?e = mr_end r)" "?s < ?e"
    | "\<not> (?s = mr_base r \<and> ?e = mr_end r)" "\<not> ?s < ?e" by blast
  then show ?case
  proof cases
    case 1
    have step: "trim_from n (2 ^ k) i t = trim_from m (2 ^ k) (i + 1) t"
      using i e 1 m by (simp add: Let_def)
    have "trim_region (2 ^ k) r = r" unfolding trim_region_def 1 by (simp add: mr_end_def)
    moreover have "trim_keeps (2 ^ k) r" using 1 pos by (simp add: trim_keeps_def)
    ultimately have L: "trim_list (2 ^ k) (r # rs) = r # trim_list (2 ^ k) rs"
      "filter (trim_keeps (2 ^ k)) (r # rs) = r # filter (trim_keeps (2 ^ k)) rs" by (simp_all add: trim_list_def)
    show ?thesis
      unfolding step L using Cons.IH [of t "pre @ [r]" "i + 1" m "x + mr_size r"] Cons.prems o m(2) by (simp add: add.assoc)
  next
    case 2
    define t1 where "t1 = t\<lparr>mt_regions := (mt_regions t)[i := r\<lparr>mr_base := ?s, mr_size := u64_sub ?e ?s\<rparr>]\<rparr>"
    have "u64_sub ?e ?s = ?e - ?s" using 2 eM by (simp add: u64_sub_max)
    then have r': "r\<lparr>mr_base := ?s, mr_size := u64_sub ?e ?s\<rparr> = trim_region (2 ^ k) r"
      by (simp add: trim_region_def)
    have step: "trim_from n (2 ^ k) i t = trim_from m (2 ^ k) (i + 1) t1"
      using i e 2 m by (auto simp: Let_def t1_def)
    have L: "trim_list (2 ^ k) (r # rs) = trim_region (2 ^ k) r # trim_list (2 ^ k) rs"
      "filter (trim_keeps (2 ^ k)) (r # rs) = r # filter (trim_keeps (2 ^ k)) rs"
      using 2 by (simp_all add: trim_list_def trim_keeps_def)
    have "mt_total_size t1 = mt_total_size t" by (simp add: t1_def)
    moreover have "array_ok t1" using Cons.prems(1) by (simp add: array_ok_def t1_def)
    moreover have "live t1 = (pre @ [trim_region (2 ^ k) r]) @ rs"
      using Cons.prems(2,3) r' by (simp add: live_def t1_def take_update_swap list_update_append)
    ultimately show ?thesis
      unfolding step L using Cons.IH [of t1 "pre @ [trim_region (2 ^ k) r]" "i + 1" m "x + mr_size r"] Cons.prems o m(2)
      by (simp add: add.assoc)
  next
    case 3
    have step: "trim_from n (2 ^ k) i t = trim_from m (2 ^ k) i (memblock_remove_region t i)"
      using i e 3 m by (auto simp: Let_def)
    have L: "trim_list (2 ^ k) (r # rs) = trim_list (2 ^ k) rs"
      "filter (trim_keeps (2 ^ k)) (r # rs) = filter (trim_keeps (2 ^ k)) rs"
      using 3 by (simp_all add: trim_list_def trim_keeps_def)
    have "mt_total_size (memblock_remove_region t i) = u64_sub ((x + sizes rs + mr_size r) mod u64_lim) (mr_size r)"
      using Cons.prems(9) i(2) by (simp add: memblock_remove_region_def Let_def ac_simps)
    then have tot: "mt_total_size (memblock_remove_region t i) = (x + sizes rs) mod u64_lim" by (simp only: u64_sub_mod)
    show ?thesis
    proof (cases "1 < mt_cnt t")
      case True
      note rem = remove_region_live [OF Cons.prems(1-3) True]
      have "pre @ rs \<noteq> []" using True i(3) Cons.prems(3) by auto
      then show ?thesis
        unfolding step L using Cons.IH [of "memblock_remove_region t i" pre i m x] rem tot Cons.prems o m(2) by simp
    next
      case False
      then have z: "i = 0" "rs = []" "pre = []" "mt_cnt t = 1" using i(3) Cons.prems(3) by auto
      note rem = remove_region_only [OF Cons.prems(1) z(4)]
      obtain m' where "m = Suc (Suc m')" using m(2) by (metis add_2_eq_Suc' le_Suc_ex add_Suc)
      then have "trim_from m (2 ^ k) i (memblock_remove_region t i) = Inr (memblock_remove_region t i)"
        using trim_dummy [OF rem Cons.prems(6)] by (simp only: z(1))
      then show ?thesis unfolding step L using rem tot z by (simp add: trim_list_def)
    qed
  qed
qed

lemma trim_region_within:
  assumes "mr_end r \<le> PHYS_ADDR_MAX" "k < 64" "trim_keeps (2 ^ k) r" "mr_base r \<le> round_up (mr_base r) (2 ^ k)"
  shows "mr_base r \<le> mr_base (trim_region (2 ^ k) r)" "mr_end (trim_region (2 ^ k) r) \<le> mr_end r"
    "2 ^ k dvd mr_base (trim_region (2 ^ k) r)" "2 ^ k dvd mr_end (trim_region (2 ^ k) r)"
    "0 < mr_size (trim_region (2 ^ k) r)"
proof -
  have b: "mr_base r < u64_lim" "mr_end r < u64_lim"
    using assms(1) mr_base_le_end [of r] unfolding less_u64_lim_iff by linarith+
  have e: "mr_end (trim_region (2 ^ k) r) = round_down (mr_end r) (2 ^ k)"
    using assms(3) by (simp add: trim_region_def trim_keeps_def mr_end_def)
  show "mr_base r \<le> mr_base (trim_region (2 ^ k) r)" using assms(4) by (simp add: trim_region_def)
  show "mr_end (trim_region (2 ^ k) r) \<le> mr_end r" unfolding e by (rule round_down_le [OF b(2) assms(2)])
  show "2 ^ k dvd mr_base (trim_region (2 ^ k) r)"
    using round_up_cases [OF b(1) assms(2)] by (auto simp: trim_region_def)
  show "2 ^ k dvd mr_end (trim_region (2 ^ k) r)" unfolding e by (rule round_down_dvd [OF b(2) assms(2)])
  show "0 < mr_size (trim_region (2 ^ k) r)" using assms(3) by (simp add: trim_region_def trim_keeps_def)
qed

section \<open>Properties\<close>

lemma demo_wf_state: "wf_state demo_state"
  by (simp add: wf_state_def demo_wf)

text \<open>
  C5: An allocation with a power-of-two alignment and a free slot in the reserved array returns.
  If the address is not 0, the area is aligned, inside matching memory and the window, and
  disjoint from every earlier reservation; afterwards exactly this area has been added to the
  reserved memory and nothing else of the state has changed. If the address is 0, the state is
  unchanged and no suitable area existed.
\<close>

theorem memblock_alloc_range_nid_correct:
  assumes "wf_state s" "eff_align env align = 2 ^ k" "k < 64" "0 < sz"
    and "start \<le> PHYS_ADDR_MAX" "end \<le> PHYS_ADDR_MAX" "mt_cnt (mb_reserved s) < mt_max (mb_reserved s)"
  shows "\<exists>c s'. memblock_alloc_range_nid env sz align start end nid flags s = Inr (c, s') \<and>
    (if c = 0 then s' = s \<and> (\<forall>c'. \<not> found_at env s sz (2 ^ k) start end nid flags c')
     else found_at env s sz (2 ^ k) start end nid flags c \<and> reserved_after s c sz s')"
  unfolding alloc_range_nid_eq assms(2) using find_and_reserve_spec assms by blast

theorem memblock_alloc_range_nid_correct_witness:
  "\<exists>c s'. memblock_alloc_range_nid demo_env 0x1000 0 0 0 NUMA_NO_NODE 0 demo_state = Inr (c, s') \<and>
    (if c = 0 then s' = demo_state \<and> (\<forall>c'. \<not> found_at demo_env demo_state 0x1000 (2 ^ 6) 0 0 NUMA_NO_NODE 0 c')
     else found_at demo_env demo_state 0x1000 (2 ^ 6) 0 0 NUMA_NO_NODE 0 c \<and> reserved_after demo_state c 0x1000 s')"
  by (rule memblock_alloc_range_nid_correct) (simp_all add: demo_wf_state, simp_all add: demo_env_def)

text \<open>
  C15: When a suitable area is free, the allocation succeeds, and freeing it again restores the reserved addresses, and the memory array
  has not been touched.
\<close>

theorem memblock_alloc_free_roundtrip:
  assumes "wf_state s" "eff_align env align = 2 ^ k" "k < 64" "0 < sz"
    and "start \<le> PHYS_ADDR_MAX" "end \<le> PHYS_ADDR_MAX" "mt_cnt (mb_reserved s) + 3 \<le> mt_max (mb_reserved s)"
    and "found_at env s sz (2 ^ k) start end nid flags c0"
  shows "\<exists>c s' s''. memblock_alloc_range_nid env sz align start end nid flags s = Inr (c, s') \<and> c \<noteq> 0 \<and>
    memblock_free env c sz s' = Inr (0, s'') \<and> wf_type (mb_reserved s'') \<and>
    mb_memory s'' = mb_memory s \<and> amap (live (mb_reserved s'')) = amap (live (mb_reserved s))"
proof -
  have lim: "mb_current_limit s \<le> PHYS_ADDR_MAX" using assms(1) by (simp add: wf_state_def)
  obtain c s' where cs: "memblock_alloc_range_nid env sz align start end nid flags s = Inr (c, s')"
    "if c = 0 then s' = s \<and> (\<forall>c'. \<not> found_at env s sz (2 ^ k) start end nid flags c')
     else found_at env s sz (2 ^ k) start end nid flags c \<and> reserved_after s c sz s'"
    using find_and_reserve_spec [OF assms(1,3,4,5,6), of env nid flags] assms(7)
    unfolding alloc_range_nid_eq assms(2) by auto
  then have f: "found_at env s sz (2 ^ k) start end nid flags c" and ra: "reserved_after s c sz s'" and "c \<noteq> 0"
    using assms(8) by (auto split: if_splits)
  note fb = found_at_bounds [OF f assms(5,6) lim]
  obtain t' where t': "s' = s\<lparr>mb_reserved := t'\<rparr>" "wf_type t'" "mt_max t' = mt_max (mb_reserved s)"
    "mt_cnt t' \<le> mt_cnt (mb_reserved s) + 1"
    "\<forall>a. amap (live t') a = (if c \<le> a \<and> a < c + sz then Some (MAX_NUMNODES, 0) else amap (live (mb_reserved s)) a)"
    using ra by (auto simp: reserved_after_def)
  have c: "c \<le> PHYS_ADDR_MAX" "c + sz = min (c + sz) PHYS_ADDR_MAX" using fb(1) by auto
  obtain t'' L where t'': "memblock_free env c sz s' = Inr (0, s'\<lparr>mb_reserved := t''\<rparr>)" "arr_upd t' L t''" "wf_type t''"
    "\<forall>a. amap L a = (if c \<le> a \<and> a < c + sz then None else amap (live t') a)"
    using remove_range_room [of Reserved s' c "c + sz" sz "doubler_of env"] t' c assms(7)
    by (auto simp: memblock_free_def)
  have "amap (live (mb_reserved s)) a = None" if "c \<le> a" "a < c + sz" for a
    using fb(2) that unfolding amap_eq_None by (auto simp: covers_def)
  then have "amap (live t'') = amap (live (mb_reserved s))"
    using t'(5) t''(4) arr_updD(2) [OF t''(2)] by (auto simp: fun_eq_iff)
  then show ?thesis
    using t' t'' cs(1) \<open>c \<noteq> 0\<close> by (intro exI [of _ c] exI [of _ s'] exI [of _ "s'\<lparr>mb_reserved := t''\<rparr>"]) simp
qed

theorem memblock_alloc_free_roundtrip_witness:
  "\<exists>c s' s''. memblock_alloc_range_nid demo_env 0x1000 0x1000 0 0 NUMA_NO_NODE 0 demo_state = Inr (c, s') \<and> c \<noteq> 0 \<and>
    memblock_free demo_env c 0x1000 s' = Inr (0, s'') \<and> wf_type (mb_reserved s'') \<and>
    mb_memory s'' = mb_memory demo_state \<and> amap (live (mb_reserved s'')) = amap (live (mb_reserved demo_state))"
proof (rule memblock_alloc_free_roundtrip [where k = 12])
  show "found_at demo_env demo_state 0x1000 (2 ^ 12) 0 0 NUMA_NO_NODE 0 0x18000"
    by (simp add: found_at_def free_area_def demo_live win_start_def win_end_def PAGE_SIZE_def mr_end_def
        mem_range_skip_def walk_nid_def NUMA_NO_NODE_def MAX_NUMNODES_def demo_env_def memblock_is_nomap_def
        MEMBLOCK_NOMAP_def MEMBLOCK_ALLOC_ACCESSIBLE_def max_numerals)
qed (simp_all add: demo_wf_state)

text \<open>
  C16: \<^verbatim>\<open>memblock_virt_alloc_internal\<close> before the slab is up always returns. It fails only when no
  aligned area of the size is free anywhere below the limit, on any node and mirrored or not;
  on success the area is free and suitable for one of the fallback combinations (the asked
  node or any, the asked lower bound or none, mirrored or not), and exactly this area becomes
  reserved.
\<close>

theorem memblock_virt_alloc_internal_correct:
  assumes "wf_state s" "\<not> env_slab_is_available env" "eff_align env align = 2 ^ k" "k < 64" "0 < sz"
    and "min_addr \<le> PHYS_ADDR_MAX" "mt_cnt (mb_reserved s) < mt_max (mb_reserved s)"
  shows "\<exists>c s'. memblock_virt_alloc_internal env sz align min_addr max_addr nid s = Inr (c, s') \<and>
    virt_outcome env s sz (2 ^ k) min_addr (min max_addr (mb_current_limit s))
      (if nid = MAX_NUMNODES then NUMA_NO_NODE else nid) (choose_memblock_flags s) c s'"
proof -
  have lim: "min max_addr (mb_current_limit s) \<le> PHYS_ADDR_MAX"
    "(if max_addr > mb_current_limit s then mb_current_limit s else max_addr) = min max_addr (mb_current_limit s)"
    using assms(1) by (auto simp: wf_state_def min_def)
  show ?thesis
    unfolding memblock_virt_alloc_internal_def Let_def lim(2) assms(3)
    using virt_alloc_again_spec [OF assms(1,4,5,6) lim(1) assms(7)] assms(2) by simp
qed

theorem memblock_virt_alloc_internal_correct_witness:
  "\<exists>c s'. memblock_virt_alloc_internal demo_env 0x2000 0x1000 0x19000 0x20000 1 demo_state = Inr (c, s') \<and>
    virt_outcome demo_env demo_state 0x2000 (2 ^ 12) 0x19000 (min 0x20000 (mb_current_limit demo_state))
      (if (1::int) = MAX_NUMNODES then NUMA_NO_NODE else 1) (choose_memblock_flags demo_state) c s'"
  by (rule memblock_virt_alloc_internal_correct)
    (simp_all add: demo_wf_state max_numerals, simp_all add: demo_env_def)

text \<open>
  C19: \<^verbatim>\<open>memblock_enforce_memory_limit\<close> leaves exactly \<^verbatim>\<open>limit\<close> bytes of memory (all of it if there
  is less), keeps the lowest addresses, and truncates the reservations at the same address.
\<close>

theorem memblock_enforce_memory_limit_correct:
  assumes "wf_state s" "0 < limit" "limit \<le> PHYS_ADDR_MAX"
    and "mt_cnt (mb_memory s) + 2 \<le> mt_max (mb_memory s)" "mt_cnt (mb_reserved s) + 2 \<le> mt_max (mb_reserved s)"
  shows "\<exists>s'. memblock_enforce_memory_limit env limit s = Inr s' \<and> wf_type (mb_memory s') \<and> wf_type (mb_reserved s') \<and>
    memblock_phys_mem_size s' = min limit (memblock_phys_mem_size s) \<and>
    (\<exists>top. \<forall>a. amap (live (mb_memory s')) a = (if a < top then amap (live (mb_memory s)) a else None) \<and>
               amap (live (mb_reserved s')) a = (if a < top then amap (live (mb_reserved s)) a else None))"
  using assms by (rule enforce_memory_limit_spec)

theorem memblock_enforce_memory_limit_correct_witness:
  "\<exists>s'. memblock_enforce_memory_limit demo_env 0x5000 demo_state = Inr s' \<and> wf_type (mb_memory s') \<and>
    wf_type (mb_reserved s') \<and> memblock_phys_mem_size s' = min 0x5000 (memblock_phys_mem_size demo_state) \<and>
    (\<exists>top. \<forall>a. amap (live (mb_memory s')) a = (if a < top then amap (live (mb_memory demo_state)) a else None) \<and>
               amap (live (mb_reserved s')) a = (if a < top then amap (live (mb_reserved demo_state)) a else None))"
  by (rule memblock_enforce_memory_limit_correct) (simp_all add: demo_wf_state max_numerals)

end
