(* ===== verification/Memblock_Limits.thy ===== *)
theory Memblock_Limits
  imports Memblock_Alloc
begin

text \<open>
  Trimming memory to an alignment and capping it to a range: what is kept, exactly, and two places
  where \<^verbatim>\<open>mm/memblock.c\<close> loses information, the total that is not adjusted when a region is trimmed
  and the end of a capped range that wraps around.
\<close>

lemma round_up_least:
  assumes "x \<le> c" "2 ^ k dvd c" "c < u64_lim" "k < 64"
  shows "round_up x (2 ^ k) \<le> c"
proof (cases "x = 0")
  case False
  obtain q where q: "c = 2 ^ k * q" using assms(2) by blast
  have "x - 1 < c" using assms(1) False by simp
  then have "(x - 1) div 2 ^ k < q" using q by (simp add: less_mult_imp_div_less mult.commute)
  then have "(x - 1) div 2 ^ k + 1 \<le> q" by simp
  then have le: "((x - 1) div 2 ^ k + 1) * 2 ^ k \<le> c" using q by (metis mult.commute mult_le_mono2)
  have "x < u64_lim" using assms by simp
  then have "round_up x (2 ^ k) = ((x - 1) div 2 ^ k + 1) * 2 ^ k mod u64_lim"
    using False assms(4) by (intro round_up_pow2) simp_all
  also have "\<dots> = ((x - 1) div 2 ^ k + 1) * 2 ^ k" using le assms(3) by (intro mod_less) simp
  finally show ?thesis using le by simp
qed (use assms in simp)

lemma trim_list_ordered:
  assumes "ordered rs" "k < 64" "\<forall>r\<in>set rs. mr_base r \<le> round_up (mr_base r) (2 ^ k)"
  shows "ordered (trim_list (2 ^ k) rs)"
  using assms
proof (induction rs)
  case (Cons r rs)
  have IH: "ordered (trim_list (2 ^ k) rs)" using Cons by (simp add: ordered_Cons)
  show ?case
  proof (cases "trim_keeps (2 ^ k) r")
    case True
    have r: "mr_end r \<le> PHYS_ADDR_MAX" using Cons.prems(1) by (simp add: ordered_Cons)
    note w = trim_region_within [OF r Cons.prems(2) True]
    have "mr_end (trim_region (2 ^ k) r) \<le> mr_base q" if q: "q \<in> set (trim_list (2 ^ k) rs)" for q
    proof -
      obtain p where p: "p \<in> set rs" "q = trim_region (2 ^ k) p" using q by (auto simp: trim_list_def)
      have "mr_end (trim_region (2 ^ k) r) \<le> mr_end r" using w Cons.prems(3) by simp
      also have "\<dots> \<le> mr_base p" using p Cons.prems(1) by (simp add: ordered_Cons)
      also have "\<dots> \<le> mr_base q" using p Cons.prems(3) by (simp add: trim_region_def)
      finally show ?thesis .
    qed
    moreover have "mr_end (trim_region (2 ^ k) r) \<le> PHYS_ADDR_MAX" using w Cons.prems(3) r by simp
    ultimately show ?thesis using True IH by (simp add: trim_list_def ordered_Cons)
  qed (use IH in \<open>simp add: trim_list_def\<close>)
qed (simp add: trim_list_def)

lemma trim_memory_spec:
  assumes wf: "wf_type (mb_memory s)" and k: "k < 64"
  shows "\<exists>t'. memblock_trim_memory (2 ^ k) s = Inr (s\<lparr>mb_memory := t'\<rparr>) \<and>
    mt_total_size t' = sizes (filter (trim_keeps (2 ^ k)) (live (mb_memory s))) mod u64_lim \<and>
    (if trim_list (2 ^ k) (live (mb_memory s)) = [] then is_dummy (live t')
     else live t' = trim_list (2 ^ k) (live (mb_memory s)))"
proof -
  let ?t = "mb_memory s"
  have ok: "array_ok ?t" "ordered (live ?t)" using wf by (simp_all add: wf_type_def wf_array_def array_ok_def)
  have len: "length (live ?t) = mt_cnt ?t" using wf by (simp add: wf_type_def)
  have tot: "mt_total_size ?t = (0 + sizes (live ?t)) mod u64_lim" using wf by (simp add: wf_type_def wf_array_def)
  show ?thesis
  proof (cases "is_dummy (live ?t)")
    case True
    then have "trim_list (2 ^ k) (live ?t) = []" "filter (trim_keeps (2 ^ k)) (live ?t) = []"
      using k by (auto simp: is_dummy_def trim_list_def trim_keeps_def mr_end_def round_down_0)
    moreover have "mt_total_size ?t = 0" using tot True by (auto simp: is_dummy_def)
    moreover have "trim_from (mt_cnt ?t + 2) (2 ^ k) 0 ?t = Inr ?t"
      using trim_dummy [OF ok(1) True k, of "mt_cnt ?t"] by (simp only: add_2_eq_Suc')
    ultimately show ?thesis
      using True by (intro exI [of _ ?t]) (simp add: memblock_trim_memory_def del: trim_from.simps)
  next
    case False
    then have "nonempty (live ?t)" using wf by (simp add: wf_type_def)
    then obtain t' where "trim_from (mt_cnt ?t + 2) (2 ^ k) 0 ?t = Inr t'"
      "mt_total_size t' = sizes (filter (trim_keeps (2 ^ k)) (live ?t)) mod u64_lim"
      "if [] @ trim_list (2 ^ k) (live ?t) = [] then is_dummy (live t') else live t' = [] @ trim_list (2 ^ k) (live ?t)"
      using trim_from_spec [of ?t "[]" "live ?t" 0 k "mt_cnt ?t + 2" 0] ok k len tot wf_type_neq_Nil [OF wf] by auto
    then show ?thesis by (intro exI [of _ t']) (simp add: memblock_trim_memory_def del: trim_from.simps)
  qed
qed

lemma trim_list_sub:
  assumes "ordered rs" "k < 64" "\<forall>r\<in>set rs. mr_base r \<le> round_up (mr_base r) (2 ^ k)"
    and "amap (trim_list (2 ^ k) rs) a \<noteq> None"
  shows "amap (trim_list (2 ^ k) rs) a = amap rs a"
proof -
  have "\<exists>q\<in>set (trim_list (2 ^ k) rs). covers q a" using assms(4) unfolding amap_eq_None by blast
  then obtain r where r: "r \<in> set rs" "trim_keeps (2 ^ k) r" "covers (trim_region (2 ^ k) r) a"
    by (auto simp: trim_list_def)
  have rM: "mr_end r \<le> PHYS_ADDR_MAX" using assms(1) r(1) by (simp add: ordered_end_le)
  have "covers r a"
    using trim_region_within(1,2) [OF rM assms(2) r(2)] assms(3) r(1,3) unfolding covers_def by (meson le_trans less_le_trans)
  then obtain i where i: "i < length rs" "rs ! i = r" "covers (rs ! i) a" using r(1) by (metis in_set_conv_nth)
  let ?ts = "trim_list (2 ^ k) rs"
  have "trim_region (2 ^ k) r \<in> set ?ts" using r(1,2) by (simp add: trim_list_def)
  then obtain j where j: "j < length ?ts" "?ts ! j = trim_region (2 ^ k) r" by (metis in_set_conv_nth)
  have "amap ?ts a = Some (mr_nid (?ts ! j), mr_flags (?ts ! j))"
    using amap_nth [OF trim_list_ordered [OF assms(1-3)] j(1)] r(3) j(2) by simp
  moreover have "amap rs a = Some (mr_nid r, mr_flags r)" using amap_nth [OF assms(1) i(1,3)] i(2) by simp
  ultimately show ?thesis using j(2) by (simp add: trim_region_def)
qed

lemma search_iff:
  assumes "wf_type t"
  shows "memblock_search t a \<noteq> -1 \<longleftrightarrow> amap (live t) a \<noteq> None"
  using search_correct [OF assms, of a] amap_nth [of "live t" _ a] assms by (auto simp: wf_type_def)

text \<open>How much smaller trimming makes a list of regions.\<close>

lemma trim_region_shrinks:
  assumes "mr_end r \<le> PHYS_ADDR_MAX" "k < 64" "trim_keeps (2 ^ k) r" "mr_base r \<le> round_up (mr_base r) (2 ^ k)"
  shows "mr_size (trim_region (2 ^ k) r) \<le> mr_size r"
    "mr_size (trim_region (2 ^ k) r) < mr_size r \<longleftrightarrow> \<not> (2 ^ k dvd mr_base r \<and> 2 ^ k dvd mr_end r)"
proof -
  let ?b = "mr_base (trim_region (2 ^ k) r)" and ?e = "mr_end (trim_region (2 ^ k) r)"
  note w = trim_region_within [OF assms]
  have sz: "mr_size (trim_region (2 ^ k) r) = ?e - ?b" "mr_size r = mr_end r - mr_base r" "?b < ?e"
    using w(5) by (simp_all add: mr_end_def)
  show "mr_size (trim_region (2 ^ k) r) \<le> mr_size r" using w(1,2) sz by linarith
  have lt: "mr_end r < u64_lim" using assms(1) unfolding less_u64_lim_iff .
  have "?b = mr_base r" if "2 ^ k dvd mr_base r"
    using round_up_least [OF order_refl that _ assms(2)] lt mr_base_le_end [of r] w(1) by (simp add: trim_region_def)
  moreover have "?e = mr_end r" if "2 ^ k dvd mr_end r"
    using round_down_greatest [OF lt assms(2) that order_refl] w(2) assms(3)
    by (simp add: trim_region_def trim_keeps_def mr_end_def)
  ultimately have "?b = mr_base r \<and> ?e = mr_end r \<longleftrightarrow> 2 ^ k dvd mr_base r \<and> 2 ^ k dvd mr_end r"
    using w(3,4) by metis
  moreover have "?e - ?b < mr_end r - mr_base r \<longleftrightarrow> \<not> (?b = mr_base r \<and> ?e = mr_end r)"
    using w(1,2) sz(3) by linarith
  ultimately show "mr_size (trim_region (2 ^ k) r) < mr_size r \<longleftrightarrow> \<not> (2 ^ k dvd mr_base r \<and> 2 ^ k dvd mr_end r)"
    using sz by simp
qed

lemma trim_list_sizes:
  assumes "k < 64" "\<forall>r\<in>set rs. mr_end r \<le> PHYS_ADDR_MAX \<and> mr_base r \<le> round_up (mr_base r) (2 ^ k)"
  shows "sizes (trim_list (2 ^ k) rs) \<le> sizes (filter (trim_keeps (2 ^ k)) rs) \<and>
    (sizes (trim_list (2 ^ k) rs) < sizes (filter (trim_keeps (2 ^ k)) rs) \<longleftrightarrow>
      (\<exists>r\<in>set rs. trim_keeps (2 ^ k) r \<and> \<not> (2 ^ k dvd mr_base r \<and> 2 ^ k dvd mr_end r)))"
  using assms(2)
proof (induction rs)
  case (Cons r rs)
  show ?case
  proof (cases "trim_keeps (2 ^ k) r")
    case True
    have "mr_size (trim_region (2 ^ k) r) \<le> mr_size r"
      "mr_size (trim_region (2 ^ k) r) < mr_size r \<longleftrightarrow> \<not> (2 ^ k dvd mr_base r \<and> 2 ^ k dvd mr_end r)"
      using trim_region_shrinks [OF _ assms(1) True] Cons.prems by simp_all
    moreover have "sizes (trim_list (2 ^ k) (r # rs)) = mr_size (trim_region (2 ^ k) r) + sizes (trim_list (2 ^ k) rs)"
      "sizes (filter (trim_keeps (2 ^ k)) (r # rs)) = mr_size r + sizes (filter (trim_keeps (2 ^ k)) rs)"
      using True by (simp_all add: trim_list_def)
    moreover note Cons.IH
    ultimately show ?thesis using Cons.prems True by (auto simp del: filter.simps)
  qed (use Cons in \<open>simp add: trim_list_def\<close>)
qed (simp add: trim_list_def)

lemma sizes_filter_le: "sizes (filter P rs) \<le> sizes rs"
  by (induction rs) auto

section \<open>Capping the memory\<close>

text \<open>The loops that drop the regions outside of the range, unless they are marked no-map.\<close>

lemma remove_mapped_down_spec:
  assumes "wf_array t" "live t = pre @ mid @ suf" "live t \<noteq> []"
  shows "\<exists>L. arr_upd t L (remove_mapped_down (length pre) (length mid) t) \<and>
    (if pre @ filter memblock_is_nomap mid @ suf = [] then is_dummy L else L = pre @ filter memblock_is_nomap mid @ suf)"
  using assms
proof (induction mid arbitrary: t suf rule: rev_induct)
  case Nil
  then show ?case using arr_upd_refl [of t] by auto
next
  case (snoc r mid)
  let ?i = "length pre + length mid"
  have cnt: "mt_cnt t = Suc (?i + length suf)" using length_live [OF snoc.prems(1)] snoc.prems(2) by simp
  then have i: "?i < mt_cnt t" by simp
  have nth: "mt_regions t ! ?i = r"
    using regions_nth_live [OF i] snoc.prems(2) by (simp add: nth_append)
  show ?case
  proof (cases "memblock_is_nomap r")
    case True
    then show ?thesis using snoc.IH [of t "r # suf"] snoc.prems nth by simp
  next
    case mapped: False
    have step: "remove_mapped_down (length pre) (length (mid @ [r])) t =
        remove_mapped_down (length pre) (length mid) (memblock_remove_region t ?i)"
      using mapped nth by simp
    show ?thesis
    proof (cases "pre @ mid @ suf = []")
      case True
      then have "mt_cnt t = 1" using cnt by simp
      note last = remove_region_last [OF snoc.prems(1) this]
      have "arr_upd t (live (memblock_remove_region t 0)) (memblock_remove_region t 0)"
        using last by (simp add: arr_upd_def)
      then show ?thesis using True step mapped last(2) by auto
    next
      case False
      then have "1 < mt_cnt t" using cnt by (auto simp: neq_Nil_conv)
      then have "arr_upd t (take ?i (live t) @ drop (?i + 1) (live t)) (memblock_remove_region t ?i)"
        by (rule remove_region_arr [OF snoc.prems(1) i])
      then have u: "arr_upd t (pre @ mid @ suf) (memblock_remove_region t ?i)" using snoc.prems(2) by simp
      have "live (memblock_remove_region t ?i) \<noteq> []" using arr_updD(2) [OF u] False by simp
      from snoc.IH [OF arr_updD(1,2) [OF u] this] obtain L where
        "arr_upd (memblock_remove_region t ?i) L (remove_mapped_down (length pre) (length mid) (memblock_remove_region t ?i))"
        "if pre @ filter memblock_is_nomap mid @ suf = [] then is_dummy L else L = pre @ filter memblock_is_nomap mid @ suf"
        by blast
      then show ?thesis unfolding step using arr_upd_trans [OF u] mapped by (intro exI [of _ L]) simp
    qed
  qed
qed

definition nomap_at :: "memblock_region list \<Rightarrow> u64 \<Rightarrow> bool" where
  "nomap_at rs a \<longleftrightarrow> (\<exists>nid fl. amap rs a = Some (nid, fl) \<and> fl AND MEMBLOCK_NOMAP \<noteq> 0)"

lemma amap_filter_nomap:
  "ordered rs \<Longrightarrow> amap (filter memblock_is_nomap rs) a = (if nomap_at rs a then amap rs a else None)"
proof (induction rs)
  case (Cons r rs)
  have "amap rs a = None" if "covers r a"
    using Cons.prems that by (intro amap_below) (force simp: ordered_Cons covers_def)
  then show ?case using Cons by (auto simp: ordered_Cons nomap_at_def memblock_is_nomap_def)
qed (simp add: nomap_at_def)

lemma kept_amap:
  assumes "isolated b e lo mid hi st en" "ordered (lo @ mid @ hi)"
  shows "amap (filter memblock_is_nomap lo @ mid @ filter memblock_is_nomap hi) a =
    (if b \<le> a \<and> a < e \<or> nomap_at (lo @ mid @ hi) a then amap (lo @ mid @ hi) a else None)"
proof -
  have lo: "amap lo a = None" if "b \<le> a" using amap_above [of lo a] assms(1) that by (force simp: isolated_def)
  have hi: "amap hi a = None" if "a < e" using amap_below [of hi a] assms(1) that by (force simp: isolated_def)
  have mid: "amap mid a = None" if "\<not> (b \<le> a \<and> a < e)"
    using assms(1) that unfolding amap_eq_None by (auto simp: isolated_def covers_def)
  have be: "amap lo a \<noteq> None \<Longrightarrow> amap hi a = None"
  proof -
    assume "amap lo a \<noteq> None"
    then obtain r where r: "r \<in> set lo" "covers r a" unfolding amap_eq_None by blast
    then have "\<forall>s\<in>set hi. mr_end r \<le> mr_base s" using assms(2) by (auto simp: ordered_append)
    then show ?thesis using r(2) by (intro amap_below) (force simp: covers_def)
  qed
  have "ordered lo" "ordered hi" using assms(2) by (simp_all add: ordered_append)
  note f = amap_filter_nomap [OF this(1), of a] amap_filter_nomap [OF this(2), of a]
  show ?thesis
    using lo hi mid be by (cases "b \<le> a \<and> a < e") (auto simp: amap_append f nomap_at_def split: option.splits)
qed

lemma ordered_filter: "ordered rs \<Longrightarrow> ordered (filter P rs)"
  by (auto simp: ordered_def sorted_wrt_filter)

lemma kept_wf:
  assumes t: "wf_array t" "ordered (live t)" "is_dummy (live t) \<or> nonempty (live t)" "live t \<noteq> []"
    and L: "live t = lo @ mid @ hi" "mid = [] \<longrightarrow> st = 0 \<and> en = 0" "mid \<noteq> [] \<longrightarrow> st = length lo \<and> en = length lo + length mid"
  shows "\<exists>t'. remove_mapped_down 0 st (remove_mapped_down en (mt_cnt t - en) t) = t' \<and>
    mt_max t' = mt_max t \<and> wf_type t' \<and>
    (\<forall>a. amap (live t') a = amap (filter memblock_is_nomap lo @ mid @ filter memblock_is_nomap hi) a)"
proof -
  let ?K = "filter memblock_is_nomap lo @ mid @ filter memblock_is_nomap hi"
  have cnt: "mt_cnt t = length lo + length mid + length hi" using length_live [OF t(1)] L(1) by simp
  have "\<exists>L' t'. remove_mapped_down 0 st (remove_mapped_down en (mt_cnt t - en) t) = t' \<and> arr_upd t L' t' \<and>
      (if ?K = [] then is_dummy L' else L' = ?K)"
  proof (cases "mid = []")
    case True
    then show ?thesis
      using remove_mapped_down_spec [OF t(1), of "[]" "lo @ hi" "[]"] t(4) L(1,2) cnt by auto
  next
    case False
    define t1 where "t1 = remove_mapped_down en (mt_cnt t - en) t"
    have "t1 = remove_mapped_down (length (lo @ mid)) (length hi) t" using False L(3) cnt by (simp add: t1_def)
    with remove_mapped_down_spec [OF t(1), of "lo @ mid" hi "[]"] t(4) L(1) False
    have u: "arr_upd t (lo @ mid @ filter memblock_is_nomap hi) t1" by auto
    then have "live t1 = [] @ lo @ mid @ filter memblock_is_nomap hi" "live t1 \<noteq> []"
      using arr_updD(2) [OF u] False by simp_all
    from remove_mapped_down_spec [OF arr_updD(1) [OF u] this] False L(3)
    have "arr_upd t1 ?K (remove_mapped_down 0 st t1)" by auto
    then show ?thesis using arr_upd_trans [OF u] False by (auto simp: t1_def)
  qed
  then obtain L' t' where t': "remove_mapped_down 0 st (remove_mapped_down en (mt_cnt t - en) t) = t'" "arr_upd t L' t'"
      "if ?K = [] then is_dummy L' else L' = ?K" by blast
  have o: "ordered ?K" using t(2) ordered_filter unfolding L(1) ordered_append by auto
  have "?K \<noteq> [] \<Longrightarrow> is_dummy ?K \<or> nonempty ?K"
    using t(3) unfolding L(1) by (auto simp: is_dummy_def nonempty_def append_eq_Cons_conv)
  then have "wf_type t'"
    using wf_type_upd [OF t'(2)] t'(3) o ordered_dummy by (auto simp: is_dummy_def split: if_splits)
  moreover have "amap (live t') a = amap ?K a" for a
    using t'(3) arr_updD(2) [OF t'(2)] amap_dummy [of L' a] by (auto split: if_splits)
  ultimately show ?thesis using t'(1) arr_updD(4) [OF t'(2)] by blast
qed

text \<open>Capping, with room in both arrays; the upper end of the reservations is the sum that may wrap.\<close>

lemma cap_memory_range_spec:
  assumes wf: "wf_state s" and sz: "0 < sz" "base < PHYS_ADDR_MAX"
    and room: "mt_cnt (mb_memory s) + 2 \<le> mt_max (mb_memory s)" "mt_cnt (mb_reserved s) + 4 \<le> mt_max (mb_reserved s)"
  shows "\<exists>s'. memblock_cap_memory_range env base sz s = Inr s' \<and> wf_type (mb_memory s') \<and> wf_type (mb_reserved s') \<and>
    (\<forall>a. amap (live (mb_memory s')) a =
       (if base \<le> a \<and> a < base + sz \<or> nomap_at (live (mb_memory s)) a then amap (live (mb_memory s)) a else None) \<and>
     amap (live (mb_reserved s')) a =
       (if base \<le> a \<and> a < u64_add base sz then amap (live (mb_reserved s)) a else None))"
proof -
  let ?M = "live (mb_memory s)" and ?R = "live (mb_reserved s)" and ?d = "doubler_of env"
  define e where "e = min (base + sz) PHYS_ADDR_MAX"
  have be: "base < e" using sz by (simp add: e_def)
  have wfm: "wf_type (mb_memory s)" and wfr: "wf_type (mb_reserved s)" using wf by (simp_all add: wf_state_def)
  have o: "ordered ?M" "ordered ?R" using wfm wfr by (simp_all add: wf_type_def)
  obtain lo mid hi st en t1 where i: "memblock_isolate_range ?d Memory base sz s = Inr (0, st, en, s\<lparr>mb_memory := t1\<rparr>)"
    "arr_upd (mb_memory s) (lo @ mid @ hi) t1" "lo @ mid @ hi = isolate_list base e ?M" "isolated base e lo mid hi st en"
    using isolate_range_room [of Memory s base e sz ?d] wfm be e_def room(1) by auto
  have L1: "live t1 = lo @ mid @ hi" by (rule arr_updD(2) [OF i(2)])
  have w1: "wf_array t1" "ordered (live t1)" "is_dummy (live t1) \<or> nonempty (live t1)" "live t1 \<noteq> []"
    using arr_updD(1) [OF i(2)] wfm isolate_list_ordered [OF o(1)] isolate_list_dn [of ?M e base] wf_type_neq_Nil [OF wfm]
    unfolding L1 i(3) by (simp_all add: wf_type_def)
  obtain t2 where t2: "remove_mapped_down 0 st (remove_mapped_down en (mt_cnt t1 - en) t1) = t2" "wf_type t2"
    "\<forall>a. amap (live t2) a = amap (filter memblock_is_nomap lo @ mid @ filter memblock_is_nomap hi) a"
    using kept_wf [OF w1 L1, of st en] i(4) by (auto simp: isolated_def)
  have am: "amap (lo @ mid @ hi) a = amap ?M a" for a unfolding i(3) by (simp add: split_at_amap)
  have mem: "amap (live t2) a = (if base \<le> a \<and> a < base + sz \<or> nomap_at ?M a then amap ?M a else None)" for a
    using t2(3) kept_amap [OF i(4), of a] w1(2) am nothing_above_max [OF o(1), of a]
    by (cases "a < PHYS_ADDR_MAX") (auto simp: L1 nomap_at_def e_def)
  let ?s1 = "s\<lparr>mb_memory := t2\<rparr>"
  obtain r1 R1 where r1: "memblock_remove_range ?d Reserved 0 base ?s1 = Inr (0, ?s1\<lparr>mb_reserved := r1\<rparr>)"
    "arr_upd (mb_reserved s) R1 r1" "wf_type r1" "\<forall>a. amap R1 a = (if a < base then None else amap ?R a)"
    "length R1 \<le> length ?R + 2"
    using remove_range_room [of Reserved ?s1 0 base base ?d] wfr sz(2) room(2) by auto
  let ?s2 = "?s1\<lparr>mb_reserved := r1\<rparr>" and ?u = "u64_add base sz"
  have u: "?u \<le> PHYS_ADDR_MAX" by (simp add: u64_add_def PHYS_ADDR_MAX_def u64_lim_def less_Suc_eq_le flip: Suc_le_eq)
  have len: "length ?R = mt_cnt (mb_reserved s)" using wfr by (simp add: wf_type_def)
  have "mt_cnt r1 + 2 \<le> mt_max r1" using arr_updD(3,4) [OF r1(2)] r1(5) room(2) len by simp
  then obtain r2 R2 where r2: "memblock_remove_range ?d Reserved ?u PHYS_ADDR_MAX ?s2 = Inr (0, ?s2\<lparr>mb_reserved := r2\<rparr>)"
    "arr_upd r1 R2 r2" "wf_type r2" "\<forall>a. amap R2 a = (if ?u \<le> a \<and> a < PHYS_ADDR_MAX then None else amap (live r1) a)"
    using remove_range_room [of Reserved ?s2 ?u PHYS_ADDR_MAX PHYS_ADDR_MAX ?d] r1(3) u by auto
  have "amap (live r2) a = (if base \<le> a \<and> a < ?u then amap ?R a else None)" for a
    using r1(4) r2(4) arr_updD(2) [OF r1(2)] arr_updD(2) [OF r2(2)] nothing_above_max [OF o(2), of a] by auto
  moreover have "memblock_cap_memory_range env base sz s = Inr (?s2\<lparr>mb_reserved := r2\<rparr>)"
    using sz(1) i(1) t2(1) r1(1) r2(1) by (simp add: memblock_cap_memory_range_def Let_def)
  ultimately show ?thesis
    using mem t2(2) r2(3) by (intro exI [of _ "?s2\<lparr>mb_reserved := r2\<rparr>"]) simp
qed

definition demo_unaligned :: memblock_type where
  "demo_unaligned = \<lparr>mt_cnt = 1, mt_max = 2, mt_total_size = 0x3800,
     mt_regions = [\<lparr>mr_base = 0x10800, mr_size = 0x3800, mr_flags = 0, mr_nid = 0\<rparr>, zero_region],
     mt_array = Memory_init_regions, mt_name = ''memory''\<rparr>"

section \<open>Properties\<close>

text \<open>
  C20: \<^verbatim>\<open>memblock_trim_memory\<close> with a power-of-two alignment always ends (no rounding up may wrap
  around). Afterwards every memory region starts and ends on the alignment, the regions stay
  sorted and disjoint, no address is made up and none changes its node or flags, and every
  aligned block that lay inside one region is still memory.
\<close>

theorem memblock_trim_memory_correct:
  assumes "wf_type (mb_memory s)" "k < 64" "\<forall>r\<in>set (live (mb_memory s)). mr_base r \<le> round_up (mr_base r) (2 ^ k)"
  shows "\<exists>t'. memblock_trim_memory (2 ^ k) s = Inr (s\<lparr>mb_memory := t'\<rparr>) \<and> ordered (live t') \<and>
    (\<forall>r\<in>set (live t'). 2 ^ k dvd mr_base r \<and> 2 ^ k dvd mr_end r) \<and>
    (\<forall>a. amap (live t') a \<noteq> None \<longrightarrow> amap (live t') a = amap (live (mb_memory s)) a) \<and>
    (\<forall>m\<in>set (live (mb_memory s)). \<forall>c. 2 ^ k dvd c \<and> mr_base m \<le> c \<and> c + 2 ^ k \<le> mr_end m \<longrightarrow>
       amap (live t') c \<noteq> None)"
proof -
  let ?rs = "live (mb_memory s)" and ?ts = "trim_list (2 ^ k) (live (mb_memory s))"
  have o: "ordered ?rs" using assms(1) by (simp add: wf_type_def)
  obtain t' where t': "memblock_trim_memory (2 ^ k) s = Inr (s\<lparr>mb_memory := t'\<rparr>)"
    "if ?ts = [] then is_dummy (live t') else live t' = ?ts"
    using trim_memory_spec [OF assms(1,2)] by blast
  have am: "amap (live t') a = amap ?ts a" for a
    using t'(2) amap_dummy [of "live t'" a] by (auto split: if_splits)
  have "ordered (live t')"
    using t'(2) ordered_dummy trim_list_ordered [OF o assms(2,3)] by (auto split: if_splits)
  moreover have "2 ^ k dvd mr_base r \<and> 2 ^ k dvd mr_end r" if r: "r \<in> set (live t')" for r
  proof (cases "?ts = []")
    case True
    then show ?thesis using t'(2) r by (auto simp: is_dummy_def mr_end_def)
  next
    case False
    then obtain p where "p \<in> set ?rs" "trim_keeps (2 ^ k) p" "r = trim_region (2 ^ k) p"
      using t'(2) r by (auto simp: trim_list_def)
    then show ?thesis using trim_region_within(3,4) [of p k] ordered_end_le [OF o] assms(2,3) by blast
  qed
  moreover have "amap (live t') c \<noteq> None"
    if "m \<in> set ?rs" "2 ^ k dvd c" "mr_base m \<le> c" "c + 2 ^ k \<le> mr_end m" for m c
  proof -
    have b: "c + 2 ^ k < u64_lim" "mr_end m < u64_lim"
      using that(4) ordered_end_le [OF o that(1)] unfolding less_u64_lim_iff by linarith+
    have up: "round_up (mr_base m) (2 ^ k) \<le> c" using round_up_least [OF that(3,2) _ assms(2)] b(1) by simp
    have "2 ^ k dvd c + 2 ^ k" using that(2) by simp
    then have "c + 2 ^ k \<le> round_down (mr_end m) (2 ^ k)"
      using that(4) by (rule round_down_greatest [OF b(2) assms(2)])
    moreover have "0 < (2 :: nat) ^ k" by simp
    ultimately have dn: "c < round_down (mr_end m) (2 ^ k)" by linarith
    then have "trim_region (2 ^ k) m \<in> set ?ts" using that(1) up by (auto simp: trim_list_def trim_keeps_def)
    moreover have "covers (trim_region (2 ^ k) m) c"
      using up dn by (simp add: covers_def trim_region_def mr_end_def)
    ultimately show ?thesis unfolding am amap_eq_None by blast
  qed
  ultimately show ?thesis
    using t'(1) trim_list_sub [OF o assms(2,3)] by (intro exI [of _ t']) (simp add: am)
qed

theorem memblock_trim_memory_correct_witness:
  "\<exists>t'. memblock_trim_memory (2 ^ 13) demo_state = Inr (demo_state\<lparr>mb_memory := t'\<rparr>) \<and> ordered (live t') \<and>
    (\<forall>r\<in>set (live t'). 2 ^ 13 dvd mr_base r \<and> 2 ^ 13 dvd mr_end r) \<and>
    (\<forall>a. amap (live t') a \<noteq> None \<longrightarrow> amap (live t') a = amap (live (mb_memory demo_state)) a) \<and>
    (\<forall>m\<in>set (live (mb_memory demo_state)). \<forall>c. 2 ^ 13 dvd c \<and> mr_base m \<le> c \<and> c + 2 ^ 13 \<le> mr_end m \<longrightarrow>
       amap (live t') c \<noteq> None)"
  by (rule memblock_trim_memory_correct)
    (simp_all add: demo_wf demo_live round_up_pow2 [of _ 13, simplified] max_numerals)


text \<open>
  C26: \<^verbatim>\<open>memblock_trim_memory\<close> subtracts from the recorded total only the regions it drops as a
  whole and forgets what it cuts off the others: afterwards \<^verbatim>\<open>memblock_phys_mem_size\<close> is the old size
  of the regions that are kept, which is more than is left exactly when one of them did not start and end
  on the alignment.
\<close>

theorem memblock_trim_memory_stale_total:
  assumes "wf_type (mb_memory s)" "k < 64" "\<forall>r\<in>set (live (mb_memory s)). mr_base r \<le> round_up (mr_base r) (2 ^ k)"
  shows "\<exists>s'. memblock_trim_memory (2 ^ k) s = Inr s' \<and>
    memblock_phys_mem_size s' = sizes (filter (trim_keeps (2 ^ k)) (live (mb_memory s))) \<and>
    (sizes (live (mb_memory s')) < memblock_phys_mem_size s' \<longleftrightarrow>
      (\<exists>r\<in>set (live (mb_memory s)). trim_keeps (2 ^ k) r \<and> \<not> (2 ^ k dvd mr_base r \<and> 2 ^ k dvd mr_end r)))"
proof -
  let ?rs = "live (mb_memory s)" and ?ts = "trim_list (2 ^ k) (live (mb_memory s))"
  have o: "ordered ?rs" using assms(1) by (simp add: wf_type_def)
  obtain t' where t': "memblock_trim_memory (2 ^ k) s = Inr (s\<lparr>mb_memory := t'\<rparr>)"
    "mt_total_size t' = sizes (filter (trim_keeps (2 ^ k)) ?rs) mod u64_lim"
    "if ?ts = [] then is_dummy (live t') else live t' = ?ts"
    using trim_memory_spec [OF assms(1,2)] by blast
  have "sizes (live t') = sizes ?ts" using t'(3) by (auto simp: is_dummy_def split: if_splits)
  moreover have "sizes (filter (trim_keeps (2 ^ k)) ?rs) < u64_lim"
    using sizes_filter_le [of "trim_keeps (2 ^ k)" ?rs] sizes_le_end [OF o, of 0] by (simp add: less_u64_lim_iff)
  moreover have "\<forall>r\<in>set ?rs. mr_end r \<le> PHYS_ADDR_MAX \<and> mr_base r \<le> round_up (mr_base r) (2 ^ k)"
    using assms(3) ordered_end_le [OF o] by blast
  note trim_list_sizes [OF assms(2) this]
  ultimately show ?thesis using t'(1,2) by (simp add: memblock_phys_mem_size_def)
qed

lemma demo_unaligned_wf: "wf_type demo_unaligned"
  by (simp add: wf_type_def wf_array_def live_def demo_unaligned_def ordered_Cons nonempty_def mr_end_def max_numerals)

theorem memblock_trim_memory_stale_total_witness:
  "\<exists>s'. memblock_trim_memory (2 ^ 12) (demo_state\<lparr>mb_memory := demo_unaligned\<rparr>) = Inr s' \<and>
    memblock_phys_mem_size s' = 0x3800 \<and> sizes (live (mb_memory s')) < memblock_phys_mem_size s'"
proof -
  let ?r = "\<lparr>mr_base = 0x10800, mr_size = 0x3800, mr_flags = 0, mr_nid = 0\<rparr> :: memblock_region"
  have live: "live demo_unaligned = [?r]" by (simp add: live_def demo_unaligned_def)
  have "round_up 0x10800 (2 ^ 12) = 0x11000" "round_down 0x14000 (2 ^ 12) = 0x14000"
    using round_up_pow2 [of "0x10800" 12] round_down_pow2 [of "0x14000" 12] by (simp_all add: max_numerals)
  then have "trim_keeps (2 ^ 12) ?r" "mr_base ?r \<le> round_up (mr_base ?r) (2 ^ 12)" by (simp_all add: trim_keeps_def mr_end_def)
  moreover have "\<not> 2 ^ 12 dvd mr_base ?r" by simp
  ultimately show ?thesis
    using memblock_trim_memory_stale_total [of "demo_state\<lparr>mb_memory := demo_unaligned\<rparr>" 12] demo_unaligned_wf live by simp
qed

text \<open>
  C27: \<^verbatim>\<open>memblock_cap_memory_range\<close> keeps exactly the memory inside the range and the no-map regions.
  Of the reservations it keeps those between the base and the sum of base and size, which it computes
  without a cap: where the sum passes the end of the address space it wraps around and every
  reservation is dropped, although all memory from the base on stays.  (The base is an address, and the
  arrays have room for the regions that are split.)
\<close>

theorem memblock_cap_memory_range_exact:
  assumes "wf_state s" "0 < sz" "sz \<le> PHYS_ADDR_MAX" "base < PHYS_ADDR_MAX"
    and "mt_cnt (mb_memory s) + 2 \<le> mt_max (mb_memory s)" "mt_cnt (mb_reserved s) + 4 \<le> mt_max (mb_reserved s)"
  shows "\<exists>s'. memblock_cap_memory_range env base sz s = Inr s' \<and> wf_type (mb_memory s') \<and> wf_type (mb_reserved s') \<and>
    (\<forall>a. amap (live (mb_memory s')) a =
       (if base \<le> a \<and> a < base + sz \<or> nomap_at (live (mb_memory s)) a then amap (live (mb_memory s)) a else None)) \<and>
    (\<forall>a. amap (live (mb_reserved s')) a =
       (if base + sz < u64_lim \<and> base \<le> a \<and> a < base + sz then amap (live (mb_reserved s)) a else None))"
proof -
  obtain s' where s': "memblock_cap_memory_range env base sz s = Inr s'" "wf_type (mb_memory s')" "wf_type (mb_reserved s')"
    "\<forall>a. amap (live (mb_memory s')) a =
       (if base \<le> a \<and> a < base + sz \<or> nomap_at (live (mb_memory s)) a then amap (live (mb_memory s)) a else None)"
    "\<forall>a. amap (live (mb_reserved s')) a = (if base \<le> a \<and> a < u64_add base sz then amap (live (mb_reserved s)) a else None)"
    using cap_memory_range_spec [OF assms(1,2,4-6)] by blast
  have "u64_add base sz = (if base + sz < u64_lim then base + sz else base + sz - u64_lim)"
    using assms(3,4) by (auto simp: u64_add_def max_numerals mod_if)
  moreover have "base + sz - u64_lim \<le> base" using assms(3) by (simp add: max_numerals)
  ultimately show ?thesis using s' by (intro exI [of _ s']) auto
qed

text \<open>The demonstration state with more room for reservations.\<close>

definition demo_roomy :: memblock_state where
  "demo_roomy = demo_state\<lparr>mb_reserved := demo_reserved\<lparr>mt_max := 6, mt_regions := mt_regions demo_reserved @ replicate 2 zero_region\<rparr>\<rparr>"

lemma demo_roomy_wf: "wf_state demo_roomy"
  using demo_wf_state
  by (simp add: demo_roomy_def wf_state_def) (simp add: wf_type_def wf_array_def live_def demo_reserved_def)

theorem memblock_cap_memory_range_exact_witness:
  "\<exists>s'. memblock_cap_memory_range demo_env 0x10000 PHYS_ADDR_MAX demo_roomy = Inr s' \<and>
     amap (live (mb_memory s')) 0x12000 \<noteq> None \<and> amap (live (mb_reserved demo_roomy)) 0x12000 \<noteq> None \<and>
     amap (live (mb_reserved s')) 0x12000 = None"
proof -
  have b: "0 < PHYS_ADDR_MAX" "0x10000 < PHYS_ADDR_MAX" by (simp_all add: max_numerals)
  have room: "mt_cnt (mb_memory demo_roomy) + 2 \<le> mt_max (mb_memory demo_roomy)"
    "mt_cnt (mb_reserved demo_roomy) + 4 \<le> mt_max (mb_reserved demo_roomy)"
    by (simp_all add: demo_roomy_def demo_memory_def demo_reserved_def)
  have "amap (live (mb_memory demo_roomy)) 0x12000 \<noteq> None" "amap (live (mb_reserved demo_roomy)) 0x12000 \<noteq> None"
    by (simp_all add: demo_roomy_def demo_live covers_def mr_end_def) (simp add: live_def demo_reserved_def covers_def mr_end_def)
  then show ?thesis
    using memblock_cap_memory_range_exact [OF demo_roomy_wf b(1) order_refl b(2) room, of demo_env] by (auto simp: max_numerals)
qed

end
