(* ===== verification/Memblock_Boot.thy ===== *)
theory Memblock_Boot
  imports Memblock_Limits
begin

text \<open>
  Early boot as a state machine: from the static initial state of \<^verbatim>\<open>mm/memblock.c\<close>, any sequence
  of calls of the operations listed in \<open>boot_call\<close> before \<^verbatim>\<open>memblock_allow_resize\<close>. They are total
  and keep the invariant, so that no \<^verbatim>\<open>BUG_ON\<close> can be reached.  Not in the list: the wrappers that
  panic when an allocation fails, which add nothing to the state, and \<^verbatim>\<open>memblock_trim_memory\<close>, which
  leaves a wrong total behind (\<open>Memblock_Limits\<close>) and which neither of the two architectures of this
  repository calls.
\<close>

text \<open>The invariant: both arrays well-formed, with room for an index to be an \<^verbatim>\<open>int\<close>.\<close>

definition early :: "memblock_state \<Rightarrow> bool" where
  "early s \<longleftrightarrow> \<not> memblock_can_resize s \<and> mb_current_limit s \<le> PHYS_ADDR_MAX \<and>
     (\<forall>sel. wf_type (get_type sel s) \<and> 2 \<le> mt_max (get_type sel s) \<and> int (mt_max (get_type sel s)) < 2 ^ 31 - 1)"

lemma early_wf_state:
  assumes "early s"
  shows "wf_state s"
proof -
  have "mt_cnt (get_type sel s) \<le> mt_max (get_type sel s)" for sel
    using assms by (simp add: early_def wf_type_def wf_array_def)
  then have "int (mt_cnt (get_type sel s)) < 2 ^ 31 - 1" for sel
    using assms unfolding early_def by (meson le_less_trans of_nat_le_iff)
  then show ?thesis
    using assms get_type.simps unfolding early_def wf_state_def by metis
qed

lemma all_mb_sel: "(\<forall>sel. P sel) \<longleftrightarrow> P Memory \<and> P Reserved"
  using mb_sel.exhaust by metis

lemma early_put:
  assumes "early s" "wf_type t'" "mt_max t' = mt_max (get_type sel s)"
  shows "early (put_type sel t' s)"
  unfolding early_def
proof (intro conjI allI)
  fix sel'
  have *: "get_type sel' (put_type sel t' s) = (if sel' = sel then t' else get_type sel' s)"
    by (cases sel; cases sel') simp_all
  show "wf_type (get_type sel' (put_type sel t' s))" "2 \<le> mt_max (get_type sel' (put_type sel t' s))"
    "int (mt_max (get_type sel' (put_type sel t' s))) < 2 ^ 31 - 1"
    using assms by (simp_all add: * early_def)
qed (use assms in \<open>cases sel; simp add: early_def\<close>)+

lemma add_list_nothing: "e \<le> b \<Longrightarrow> add_list b e nid fl rs = rs"
  by (induction rs arbitrary: b) auto

text \<open>Every operation on a range returns, and keeps the invariant.\<close>

lemma add_range_early:
  assumes s: "early s" and base: "base \<le> PHYS_ADDR_MAX" and fuel: "0 < env_fuel env"
  shows "\<exists>ret s'. memblock_add_range (doubler_of env) sel base sz nid fl s = Inr (ret, s') \<and> early s'"
proof -
  let ?t = "get_type sel s" and ?e = "min (base + sz) PHYS_ADDR_MAX"
  have wf: "wf_type ?t" and max: "2 \<le> mt_max ?t" and nr: "\<not> memblock_can_resize s" using s by (simp_all add: early_def)
  have o: "ordered (live ?t)" "is_dummy (live ?t) \<or> nonempty (live ?t)" "mt_cnt ?t \<le> mt_max ?t" "length (live ?t) = mt_cnt ?t"
    using wf by (simp_all add: wf_type_def wf_array_def live_def)
  show ?thesis
  proof (cases "length (add_list base ?e nid fl (live ?t)) \<le> mt_max ?t")
    case True
    obtain t' where t': "memblock_add_range (doubler_of env) sel base sz nid fl s = Inr (0, put_type sel t' s)"
      "arr_upd ?t (add_regions base ?e nid fl (live ?t)) t'"
      using add_range_room [OF wf base refl True] by blast
    have "wf_type t'"
      using wf_type_upd [OF t'(2)] add_regions_neq_Nil [OF wf_type_neq_Nil [OF wf]]
        add_regions_ordered [OF o(1)] add_regions_nonempty [OF o(2)] by simp
    then show ?thesis using t'(1) early_put [OF s] arr_updD(4) [OF t'(2)] by blast
  next
    case False
    then have "base < ?e" using add_list_nothing [of ?e base nid fl "live ?t"] o(3,4) by force
    moreover have "\<not> is_dummy (live ?t)"
      using False max \<open>base < ?e\<close> by (auto simp: is_dummy_def mr_end_def split: if_splits)
    ultimately show ?thesis using add_range_refused [OF wf base refl _ _ _ nr fuel] False s by force
  qed
qed

lemma isolate_range_early:
  assumes s: "early s" and base: "base \<le> PHYS_ADDR_MAX" and fuel: "0 < env_fuel env"
    and full: "\<not> mt_cnt (get_type sel s) + 2 \<le> mt_max (get_type sel s)" "base < min (base + sz) PHYS_ADDR_MAX"
  shows "memblock_isolate_range (doubler_of env) sel base sz s = Inr (- ENOMEM, 0, 0, s)"
  by (rule isolate_range_refused [OF full(2) refl]) (use assms in \<open>simp_all add: early_def\<close>)

lemma remove_range_early:
  assumes s: "early s" and base: "base \<le> PHYS_ADDR_MAX" and fuel: "0 < env_fuel env"
  shows "\<exists>ret s'. memblock_remove_range (doubler_of env) sel base sz s = Inr (ret, s') \<and> early s'"
proof -
  have wf: "wf_type (get_type sel s)" using s by (simp add: early_def)
  consider "mt_cnt (get_type sel s) + 2 \<le> mt_max (get_type sel s)"
    | "min (base + sz) PHYS_ADDR_MAX \<le> base"
    | "\<not> mt_cnt (get_type sel s) + 2 \<le> mt_max (get_type sel s)" "base < min (base + sz) PHYS_ADDR_MAX"
    by linarith
  then show ?thesis
  proof cases
    case 1
    then obtain t' L where t': "memblock_remove_range (doubler_of env) sel base sz s = Inr (0, put_type sel t' s)"
      "arr_upd (get_type sel s) L t'" "wf_type t'"
      using remove_range_room [OF wf base refl] by blast
    then show ?thesis using early_put [OF s t'(3)] arr_updD(4) [OF t'(2)] by blast
  next
    case 2
    then show ?thesis using isolate_range_nop [OF base, of sz] s by (simp add: memblock_remove_range_def)
  next
    case 3
    then show ?thesis using isolate_range_early [OF s base fuel] s by (simp add: memblock_remove_range_def)
  qed
qed

lemma update_range_early:
  assumes s: "early s" and base: "base \<le> PHYS_ADDR_MAX" and fuel: "0 < env_fuel env" and f: "attr_update f g"
  shows "\<exists>ret s'. update_range (doubler_of env) sel f base sz s = Inr (ret, s') \<and> early s'"
proof (cases "\<not> mt_cnt (get_type sel s) + 2 \<le> mt_max (get_type sel s) \<and> base < min (base + sz) PHYS_ADDR_MAX")
  case True
  then show ?thesis using isolate_range_early [OF s base fuel] s by (simp add: update_range_def)
next
  case False
  have wf: "wf_type (get_type sel s)" using s by (simp add: early_def)
  then have wfa: "wf_array (get_type sel s)" "ordered (live (get_type sel s))" by (simp_all add: wf_type_def)
  show ?thesis
  proof (cases "mt_cnt (get_type sel s) + 2 \<le> mt_max (get_type sel s)")
    case True
    then obtain t' L where t': "update_range (doubler_of env) sel f base sz s = Inr (0, put_type sel t' s)"
      "arr_upd (get_type sel s) L t'" "wf_type t'"
      using update_range_room [OF wf base refl _ f] by blast
    then show ?thesis using early_put [OF s t'(3)] arr_updD(4) [OF t'(2)] by blast
  next
    case no: False
    then have "memblock_isolate_range (doubler_of env) sel base sz s = Inr (0, 0, 0, s)"
      using False no by (intro isolate_range_nop [OF base]) linarith
    moreover obtain t' where t': "memblock_merge_regions (get_type sel s) = Inr t'"
      "arr_upd (get_type sel s) (merge_list (live (get_type sel s))) t'"
      using merge_regions_arr [OF wfa] .
    moreover have "wf_type t'"
      using wf_type_upd [OF t'(2)] wf wf_type_neq_Nil [OF wf] merge_list_ordered [OF wfa(2)]
        merge_list_nonempty dummy_merge by (metis merge_list_neq_Nil wf_type_def)
    ultimately show ?thesis
      using early_put [OF s, of t' sel] arr_updD(4) [OF t'(2)] by (simp add: update_range_def)
  qed
qed

lemma setclr_flag_early:
  assumes "early s" "base \<le> PHYS_ADDR_MAX" "0 < env_fuel env"
  shows "\<exists>ret s'. memblock_setclr_flag env base sz set_flag flag s = Inr (ret, s') \<and> early s'"
  unfolding setclr_flag_update_range
  by (rule update_range_early [OF assms, where g = "\<lambda>(nid, fl). (nid, if set_flag then fl OR flag else fl AND NOT flag)"])
    (simp add: attr_update_def memblock_set_region_flags_def memblock_clear_region_flags_def)

lemma set_node_early:
  assumes "early s" "base \<le> PHYS_ADDR_MAX" "0 < env_fuel env"
  shows "\<exists>ret s'. memblock_set_node env base sz sel nid s = Inr (ret, s') \<and> early s'"
  unfolding set_node_update_range
  by (rule update_range_early [OF assms, where g = "\<lambda>(_, fl). (nid, fl)"])
    (simp add: attr_update_def memblock_set_region_node_def)

lemma alloc_early:
  assumes s: "early s" and k: "k < 64" "eff_align env align = 2 ^ k" and sz: "0 < sz"
    and b: "start \<le> PHYS_ADDR_MAX" "end \<le> PHYS_ADDR_MAX" and fuel: "0 < env_fuel env"
  shows "\<exists>c s'. memblock_alloc_range_nid env sz align start end nid flags s = Inr (c, s') \<and> early s'"
proof -
  have lim: "mb_current_limit s \<le> PHYS_ADDR_MAX" using s by (simp add: early_def)
  obtain c where c: "memblock_find_in_range_node env s sz (2 ^ k) start end nid flags = Inr c"
    "c \<noteq> 0 \<longrightarrow> found_at env s sz (2 ^ k) start end nid flags c"
    "c = 0 \<longrightarrow> (\<forall>c'. \<not> found_at env s sz (2 ^ k) start end nid flags c')"
    using find_in_range_node_spec [OF wf_state_walkable [OF early_wf_state [OF s]] k(1) sz b lim] .
  show ?thesis
  proof (cases "c = 0")
    case True
    then show ?thesis using c(1) k(2) s by (simp add: alloc_range_nid_eq find_and_reserve_def)
  next
    case False
    then have "c \<le> PHYS_ADDR_MAX" using found_at_bounds(1) [OF _ b lim] c(2) by fastforce
    then obtain ret s' where "memblock_reserve env c sz s = Inr (ret, s')" "early s'"
      using add_range_early [OF s _ fuel] unfolding memblock_reserve_def by metis
    then show ?thesis using False c(1) k(2) by (cases "ret = 0") (simp_all add: alloc_range_nid_eq find_and_reserve_def)
  qed
qed

text \<open>The same for the allocator with fallbacks.\<close>

lemma find_and_reserve_early:
  assumes "early s" "k < 64" "0 < sz" "start \<le> PHYS_ADDR_MAX" "end \<le> PHYS_ADDR_MAX" "0 < env_fuel env"
  shows "\<exists>c s'. find_and_reserve env sz (2 ^ k) start end nid flags s = Inr (c, s') \<and> early s'"
  using alloc_early [OF assms(1,2) _ assms(3-6), of "2 ^ k" nid flags] by (simp add: alloc_range_nid_eq)

lemma virt_alloc_again_early:
  assumes "early s" "k < 64" "0 < sz" "mn \<le> PHYS_ADDR_MAX" "mx \<le> PHYS_ADDR_MAX" "0 < env_fuel env"
  shows "\<exists>c s'. virt_alloc_again env sz (2 ^ k) mn mx nid flags s = Inr (c, s') \<and> early s'"
  using assms
proof (induction env sz "2 ^ k :: nat" mn mx nid flags s rule: virt_alloc_again.induct)
  case (1 env sz mn mx nid flags s)
  note IH = "1.hyps" and b = "1.prems"(2-6)
  obtain c1 s1 where f1: "find_and_reserve env sz (2 ^ k) mn mx nid flags s = Inr (c1, s1)" "early s1"
    using find_and_reserve_early [OF "1.prems"(1) b] by blast
  obtain c2 s2 where f2: "(if nid \<noteq> NUMA_NO_NODE then find_and_reserve env sz (2 ^ k) mn mx NUMA_NO_NODE flags s1 else Inr (0, s1)) =
      Inr (c2, s2)" "early s2"
    using find_and_reserve_early [OF f1(2) b, of NUMA_NO_NODE flags] f1(2) by (cases "nid = NUMA_NO_NODE") auto
  note unf = virt_alloc_again.simps [of env sz "2 ^ k" mn mx nid flags s]
  consider "c1 \<noteq> 0" | "c1 = 0" "c2 \<noteq> 0" | "c1 = 0" "c2 = 0" "mn \<noteq> 0" | "c1 = 0" "c2 = 0" "mn = 0" "flags AND MEMBLOCK_MIRROR \<noteq> 0"
    | "c1 = 0" "c2 = 0" "mn = 0" "flags AND MEMBLOCK_MIRROR = 0" by blast
  then show ?case
  proof cases
    case 3
    then have "virt_alloc_again env sz (2 ^ k) mn mx nid flags s = virt_alloc_again env sz (2 ^ k) 0 mx nid flags s2"
      using f1(1) f2(1) by (subst unf) (simp only: run_bind.simps prod.case, simp)
    then show ?thesis using IH(1) [of 0 0 s2] 3 f2(2) b by simp
  next
    case 4
    then have "virt_alloc_again env sz (2 ^ k) mn mx nid flags s =
        virt_alloc_again env sz (2 ^ k) mn mx nid (flags AND NOT MEMBLOCK_MIRROR) s2"
      using f1(1) f2(1) by (subst unf) (simp only: run_bind.simps prod.case, simp)
    then show ?thesis using IH(2) [of 0 0 s2] 4 f2(2) b by simp
  qed (subst unf; use f1 f2 in \<open>simp only: run_bind.simps prod.case, simp\<close>)+
qed

lemma virt_alloc_early:
  assumes "early s" "k < 64" "0 < sz" "mn \<le> PHYS_ADDR_MAX" "0 < env_fuel env"
  shows "\<exists>c s'. memblock_virt_alloc_internal env sz (2 ^ k) mn mx nid s = Inr (c, s') \<and> early s'"
proof -
  have "(if mx > mb_current_limit s then mb_current_limit s else mx) \<le> PHYS_ADDR_MAX" using assms(1) by (auto simp: early_def)
  from virt_alloc_again_early [OF assms(1-4) this assms(5)] show ?thesis
    using assms(1) by (simp add: memblock_virt_alloc_internal_def Let_def)
qed

lemma alloc_nid_early:
  assumes s: "early s" and b: "k < 64" "0 < sz" "0 < env_fuel env"
  shows "\<exists>c s'. memblock_alloc_nid env sz (2 ^ k) nid s = Inr (c, s') \<and> early s'"
proof -
  have al: "\<exists>c s'. memblock_alloc_base_nid env sz (2 ^ k) MEMBLOCK_ALLOC_ACCESSIBLE nid fl t = Inr (c, s') \<and> early s'"
    if "early t" for t fl
    using alloc_early [OF that b(1) _ b(2) _ _ b(3), of "2 ^ k" 0 0 nid fl]
    by (simp add: memblock_alloc_base_nid_def MEMBLOCK_ALLOC_ACCESSIBLE_def)
  obtain c s1 where "memblock_alloc_base_nid env sz (2 ^ k) MEMBLOCK_ALLOC_ACCESSIBLE nid (choose_memblock_flags s) s = Inr (c, s1)"
    "early s1" using al [OF s] by blast
  then show ?thesis using al [of s1] by (simp add: memblock_alloc_nid_def Let_def)
qed

text \<open>Capping and limiting the memory, whether there is room to split a region or not.\<close>

lemma cap_early:
  assumes s: "early s" and base: "base \<le> PHYS_ADDR_MAX" and fuel: "0 < env_fuel env"
  shows "\<exists>s'. memblock_cap_memory_range env base sz s = Inr s' \<and> early s'"
proof -
  let ?t = "mb_memory s" and ?d = "doubler_of env"
  define e where "e = min (base + sz) PHYS_ADDR_MAX"
  have wf: "wf_type ?t" using s by (simp add: early_def all_mb_sel)
  have drop: "\<exists>s'. run_bind (memblock_remove_range ?d Reserved 0 base u)
      (\<lambda>(_, s2). run_bind (memblock_remove_range ?d Reserved (u64_add base sz) PHYS_ADDR_MAX s2) (\<lambda>(_, s3). Inr s3)) = Inr s' \<and> early s'"
    if u: "early u" for u
  proof -
    obtain r1 s1 where 1: "memblock_remove_range ?d Reserved 0 base u = Inr (r1, s1)" "early s1"
      using remove_range_early [OF u _ fuel, of 0 Reserved base] by auto
    have "u64_add base sz \<le> PHYS_ADDR_MAX" by (simp add: u64_add_def PHYS_ADDR_MAX_def u64_lim_def less_Suc_eq_le flip: Suc_le_eq)
    then obtain r2 s2 where "memblock_remove_range ?d Reserved (u64_add base sz) PHYS_ADDR_MAX s1 = Inr (r2, s2)" "early s2"
      using remove_range_early [OF 1(2) _ fuel] by blast
    then show ?thesis using 1 by simp
  qed
  consider "sz = 0" | "0 < sz" "\<not> mt_cnt ?t + 2 \<le> mt_max ?t" "base < e" | "0 < sz" "e \<le> base" | "0 < sz" "mt_cnt ?t + 2 \<le> mt_max ?t" "base < e"
    by linarith
  then show ?thesis
  proof cases
    case 1
    then show ?thesis using s by (simp add: memblock_cap_memory_range_def)
  next
    case 2
    then show ?thesis
      using isolate_range_early [OF s base fuel, of Memory sz] s by (simp add: memblock_cap_memory_range_def e_def ENOMEM_def)
  next
    case 3
    have "wf_array ?t" "ordered (live ?t)" "is_dummy (live ?t) \<or> nonempty (live ?t)" using wf by (simp_all add: wf_type_def)
    from kept_wf [OF this wf_type_neq_Nil [OF wf], of "live ?t" "[]" "[]" 0 0] obtain t' where
      t': "remove_mapped_down 0 (mt_cnt ?t) ?t = t'" "mt_max t' = mt_max ?t" "wf_type t'" by auto
    have "early (s\<lparr>mb_memory := t'\<rparr>)" using early_put [OF s t'(3), of Memory] t'(2) by simp
    moreover have "memblock_isolate_range ?d Memory base sz s = Inr (0, 0, 0, s)"
      using 3 by (intro isolate_range_nop [OF base]) (simp add: e_def)
    ultimately show ?thesis using drop 3(1) t'(1) by (simp add: memblock_cap_memory_range_def Let_def)
  next
    case 4
    obtain lo mid hi st en t1 where i: "memblock_isolate_range ?d Memory base sz s = Inr (0, st, en, s\<lparr>mb_memory := t1\<rparr>)"
      "arr_upd ?t (lo @ mid @ hi) t1" "lo @ mid @ hi = isolate_list base e (live ?t)" "isolated base e lo mid hi st en"
      using isolate_range_room [of Memory s base e sz ?d] wf 4 e_def by auto
    have L1: "live t1 = lo @ mid @ hi" by (rule arr_updD(2) [OF i(2)])
    have w1: "wf_array t1" "ordered (live t1)" "is_dummy (live t1) \<or> nonempty (live t1)" "live t1 \<noteq> []"
      using arr_updD(1) [OF i(2)] wf isolate_list_ordered [of "live ?t"] isolate_list_dn [of "live ?t" e base] wf_type_neq_Nil [OF wf]
      unfolding L1 i(3) by (simp_all add: wf_type_def)
    obtain t2 where t2: "remove_mapped_down 0 st (remove_mapped_down en (mt_cnt t1 - en) t1) = t2" "mt_max t2 = mt_max t1" "wf_type t2"
      using kept_wf [OF w1 L1, of st en] i(4) by (auto simp: isolated_def)
    have "early (s\<lparr>mb_memory := t2\<rparr>)" using early_put [OF s t2(3), of Memory] t2(2) arr_updD(4) [OF i(2)] by simp
    then show ?thesis using drop 4(1) i(1) t2(1) by (simp add: memblock_cap_memory_range_def Let_def)
  qed
qed

lemma find_max_addr_bound:
  assumes "early s" "0 < limit" "limit \<le> PHYS_ADDR_MAX"
  shows "find_max_addr limit s \<le> PHYS_ADDR_MAX"
proof -
  let ?M = "live (mb_memory s)"
  have o: "ordered ?M" using assms(1) by (simp add: early_def all_mb_sel wf_type_def)
  have "find_max_addr limit s = find_max_addr_in ?M limit" by (simp add: find_max_addr_def live_def)
  then show ?thesis
    using find_max_addr_within [OF o assms(2)] find_max_addr_above [OF assms(3), of ?M] by (cases "sizes ?M < limit") auto
qed

lemma limit_early:
  assumes s: "early s" and l: "limit \<le> PHYS_ADDR_MAX" and fuel: "0 < env_fuel env"
  shows "\<exists>s'. memblock_enforce_memory_limit env limit s = Inr s' \<and> early s'"
    "\<exists>s'. memblock_mem_limit_remove_map env limit s = Inr s' \<and> early s'"
proof -
  let ?m = "find_max_addr limit s"
  have m: "?m \<le> PHYS_ADDR_MAX" if "limit \<noteq> 0" using find_max_addr_bound [OF s _ l] that by simp
  then show "\<exists>s'. memblock_mem_limit_remove_map env limit s = Inr s' \<and> early s'"
    using s cap_early [OF s _ fuel, of 0 ?m] by (simp add: memblock_mem_limit_remove_map_def Let_def)
  show "\<exists>s'. memblock_enforce_memory_limit env limit s = Inr s' \<and> early s'"
  proof (cases "limit = 0 \<or> ?m = PHYS_ADDR_MAX")
    case False
    then obtain r1 s1 where 1: "memblock_remove_range (doubler_of env) Memory ?m PHYS_ADDR_MAX s = Inr (r1, s1)" "early s1"
      using remove_range_early [OF s m fuel] by blast
    obtain r2 s2 where "memblock_remove_range (doubler_of env) Reserved ?m PHYS_ADDR_MAX s1 = Inr (r2, s2)" "early s2"
      using remove_range_early [OF 1(2) m fuel] False by blast
    then show ?thesis using 1 False by (simp add: memblock_enforce_memory_limit_def Let_def)
  qed (use s in \<open>auto simp: memblock_enforce_memory_limit_def Let_def\<close>)
qed

section \<open>The state machine\<close>

datatype boot_call =
    Add u64 u64 | Add_node u64 u64 int | Remove u64 u64 | Reserve u64 u64 | Free u64 u64
  | Mark_hotplug u64 u64 | Clear_hotplug u64 u64 | Mark_mirror u64 u64 | Mark_nomap u64 u64 | Clear_nomap u64 u64
  | Set_node u64 u64 mb_sel int | Alloc u64 nat u64 u64 int memblock_flags
  | Alloc_nid u64 nat int | Virt_alloc u64 nat u64 u64 int
  | Cap_memory_range u64 u64 | Enforce_memory_limit u64 | Mem_limit_remove_map u64
  | Set_limit u64 | Set_bottom_up bool

text \<open>The arguments are physical addresses; an allocation has a size and a power-of-two alignment.\<close>

fun call_ok :: "boot_call \<Rightarrow> bool" where
  "call_ok (Add b n) \<longleftrightarrow> b \<le> PHYS_ADDR_MAX"
| "call_ok (Add_node b n nid) \<longleftrightarrow> b \<le> PHYS_ADDR_MAX"
| "call_ok (Remove b n) \<longleftrightarrow> b \<le> PHYS_ADDR_MAX"
| "call_ok (Reserve b n) \<longleftrightarrow> b \<le> PHYS_ADDR_MAX"
| "call_ok (Free b n) \<longleftrightarrow> b \<le> PHYS_ADDR_MAX"
| "call_ok (Mark_hotplug b n) \<longleftrightarrow> b \<le> PHYS_ADDR_MAX"
| "call_ok (Clear_hotplug b n) \<longleftrightarrow> b \<le> PHYS_ADDR_MAX"
| "call_ok (Mark_mirror b n) \<longleftrightarrow> b \<le> PHYS_ADDR_MAX"
| "call_ok (Mark_nomap b n) \<longleftrightarrow> b \<le> PHYS_ADDR_MAX"
| "call_ok (Clear_nomap b n) \<longleftrightarrow> b \<le> PHYS_ADDR_MAX"
| "call_ok (Set_node b n sel nid) \<longleftrightarrow> b \<le> PHYS_ADDR_MAX"
| "call_ok (Alloc n k start end nid fl) \<longleftrightarrow> 0 < n \<and> k < 64 \<and> start \<le> PHYS_ADDR_MAX \<and> end \<le> PHYS_ADDR_MAX"
| "call_ok (Alloc_nid n k nid) \<longleftrightarrow> 0 < n \<and> k < 64"
| "call_ok (Virt_alloc n k mn mx nid) \<longleftrightarrow> 0 < n \<and> k < 64 \<and> mn \<le> PHYS_ADDR_MAX"
| "call_ok (Cap_memory_range b n) \<longleftrightarrow> b \<le> PHYS_ADDR_MAX"
| "call_ok (Enforce_memory_limit l) \<longleftrightarrow> l \<le> PHYS_ADDR_MAX"
| "call_ok (Mem_limit_remove_map l) \<longleftrightarrow> l \<le> PHYS_ADDR_MAX"
| "call_ok (Set_limit l) \<longleftrightarrow> l \<le> PHYS_ADDR_MAX"
| "call_ok (Set_bottom_up b) \<longleftrightarrow> True"

fun run_call :: "boot_env \<Rightarrow> boot_call \<Rightarrow> memblock_state \<Rightarrow> memblock_state run" where
  "run_call env (Add b n) s = run_bind (memblock_add env b n s) (\<lambda>(_, s'). Inr s')"
| "run_call env (Add_node b n nid) s = run_bind (memblock_add_node env b n nid s) (\<lambda>(_, s'). Inr s')"
| "run_call env (Remove b n) s = run_bind (memblock_remove env b n s) (\<lambda>(_, s'). Inr s')"
| "run_call env (Reserve b n) s = run_bind (memblock_reserve env b n s) (\<lambda>(_, s'). Inr s')"
| "run_call env (Free b n) s = run_bind (memblock_free env b n s) (\<lambda>(_, s'). Inr s')"
| "run_call env (Mark_hotplug b n) s = run_bind (memblock_mark_hotplug env b n s) (\<lambda>(_, s'). Inr s')"
| "run_call env (Clear_hotplug b n) s = run_bind (memblock_clear_hotplug env b n s) (\<lambda>(_, s'). Inr s')"
| "run_call env (Mark_mirror b n) s = run_bind (memblock_mark_mirror env b n s) (\<lambda>(_, s'). Inr s')"
| "run_call env (Mark_nomap b n) s = run_bind (memblock_mark_nomap env b n s) (\<lambda>(_, s'). Inr s')"
| "run_call env (Clear_nomap b n) s = run_bind (memblock_clear_nomap env b n s) (\<lambda>(_, s'). Inr s')"
| "run_call env (Set_node b n sel nid) s = run_bind (memblock_set_node env b n sel nid s) (\<lambda>(_, s'). Inr s')"
| "run_call env (Alloc n k start end nid fl) s =
     run_bind (memblock_alloc_range_nid env n (2 ^ k) start end nid fl s) (\<lambda>(_, s'). Inr s')"
| "run_call env (Alloc_nid n k nid) s = run_bind (memblock_alloc_nid env n (2 ^ k) nid s) (\<lambda>(_, s'). Inr s')"
| "run_call env (Virt_alloc n k mn mx nid) s =
     run_bind (memblock_virt_alloc_internal env n (2 ^ k) mn mx nid s) (\<lambda>(_, s'). Inr s')"
| "run_call env (Cap_memory_range b n) s = memblock_cap_memory_range env b n s"
| "run_call env (Enforce_memory_limit l) s = memblock_enforce_memory_limit env l s"
| "run_call env (Mem_limit_remove_map l) s = memblock_mem_limit_remove_map env l s"
| "run_call env (Set_limit l) s = Inr (memblock_set_current_limit l s)"
| "run_call env (Set_bottom_up b) s = Inr (memblock_set_bottom_up b s)"

inductive reach :: "boot_env \<Rightarrow> memblock_state \<Rightarrow> bool" for env where
  init: "reach env memblock_init"
| step: "reach env s \<Longrightarrow> call_ok c \<Longrightarrow> run_call env c s = Inr s' \<Longrightarrow> reach env s'"

lemma run_call_early:
  assumes s: "early s" and fuel: "0 < env_fuel env" and ok: "call_ok c"
  shows "\<exists>s'. run_call env c s = Inr s' \<and> early s'"
proof -
  have lift: "\<exists>s'. run_bind r (\<lambda>(_, s'). Inr s') = Inr s' \<and> early s'" if "\<exists>x s'. r = Inr (x, s') \<and> early s'"
    for r :: "('x \<times> memblock_state) run"
    using that by auto
  note add = add_range_early [OF s _ fuel] and rem = remove_range_early [OF s _ fuel]
    and flag = setclr_flag_early [OF _ _ fuel] and node = set_node_early [OF s _ fuel]
  have mirror: "early (s\<lparr>system_has_some_mirror := True\<rparr>)"
    using s unfolding early_def by (auto simp: all_mb_sel)
  have limit: "early (memblock_set_current_limit l s)" if "l \<le> PHYS_ADDR_MAX" for l
    using s that unfolding early_def by (auto simp: memblock_set_current_limit_def all_mb_sel)
  have bottom: "early (memblock_set_bottom_up b s)" for b
    using s unfolding early_def by (auto simp: memblock_set_bottom_up_def all_mb_sel)
  show ?thesis
  proof (cases c)
    case (Alloc n k start e nid fl)
    then show ?thesis
      using ok alloc_early [OF s _ _ _ _ _ fuel, of k "2 ^ k" n start e nid fl] by (auto intro!: lift)
  next
    case (Alloc_nid n k nid)
    then show ?thesis using ok alloc_nid_early [OF s _ _ fuel, of k n nid] by (auto intro!: lift)
  next
    case (Virt_alloc n k mn mx nid)
    then show ?thesis using ok virt_alloc_early [OF s _ _ _ fuel, of k n mn mx nid] by (auto intro!: lift)
  qed (use ok s mirror limit bottom cap_early [OF s _ fuel] limit_early [OF s _ fuel] in \<open>auto intro!: lift add rem flag node simp: memblock_add_def memblock_add_node_def
      memblock_remove_def memblock_reserve_def memblock_free_def memblock_mark_hotplug_def memblock_clear_hotplug_def
      memblock_mark_mirror_def memblock_mark_nomap_def memblock_clear_nomap_def\<close>)
qed

lemma early_init: "early memblock_init"
proof -
  have live: "live (get_type sel memblock_init) = [zero_region]" for sel
    by (cases sel) (simp_all add: live_def memblock_init_def INIT_MEMBLOCK_REGIONS_def numeral_eq_Suc)
  have f: "mt_cnt (get_type sel memblock_init) = 1" "mt_total_size (get_type sel memblock_init) = 0"
    "length (mt_regions (get_type sel memblock_init)) = 128" "mt_max (get_type sel memblock_init) = 128" for sel
    by (cases sel; simp add: memblock_init_def INIT_MEMBLOCK_REGIONS_def)+
  have "wf_type (get_type sel memblock_init)" for sel
    by (simp add: wf_type_def wf_array_def live f is_dummy_def zero_region_def ordered_Cons mr_end_def)
  then show ?thesis
    by (simp add: early_def f) (simp add: memblock_init_def MEMBLOCK_ALLOC_ANYWHERE_def PHYS_ADDR_MAX_def)
qed

lemma reach_early: "reach env s \<Longrightarrow> 0 < env_fuel env \<Longrightarrow> early s"
proof (induction rule: reach.induct)
  case (step s c s')
  then show ?case using run_call_early [of s env c] by auto
qed (rule early_init)

section \<open>Properties\<close>

text \<open>
  C7: Before \<^verbatim>\<open>memblock_allow_resize\<close>, in every state that is reached from the static one by calls,
  with valid arguments, of the operations of \<open>boot_call\<close> (adding, removing, reserving, freeing, marking,
  setting the node, allocating without panic, capping and limiting the memory, setting the limit and the direction),
  both region arrays are well-formed, and every further such call returns: no \<^verbatim>\<open>BUG_ON\<close> of
  \<^verbatim>\<open>mm/memblock.c\<close> is hit and no loop runs away.  \<^verbatim>\<open>memblock_trim_memory\<close> is not among them.
\<close>

theorem memblock_early_boot_safe:
  assumes "reach env s" "0 < env_fuel env"
  shows "wf_type (mb_memory s) \<and> wf_type (mb_reserved s) \<and>
    (\<forall>c. call_ok c \<longrightarrow> (\<exists>s'. run_call env c s = Inr s' \<and> reach env s'))"
proof (intro conjI allI impI)
  have s: "early s" using reach_early assms by blast
  then show "wf_type (mb_memory s)" "wf_type (mb_reserved s)"
    using early_wf_state by (simp_all add: wf_state_def)
  fix c assume c: "call_ok c"
  then obtain s' where "run_call env c s = Inr s'" using run_call_early [OF s assms(2)] by blast
  then show "\<exists>s'. run_call env c s = Inr s' \<and> reach env s'" using reach.step [OF assms(1) c] by blast
qed

theorem memblock_early_boot_safe_witness:
  "wf_type (mb_memory (memblock_set_bottom_up True memblock_init)) \<and>
   wf_type (mb_reserved (memblock_set_bottom_up True memblock_init)) \<and>
   (\<exists>s'. run_call demo_env (Add 0x80000000 0x40000000) (memblock_set_bottom_up True memblock_init) = Inr s' \<and>
      reach demo_env s') \<and>
   (\<exists>s'. run_call demo_env (Cap_memory_range 0x80000000 0x10000000) (memblock_set_bottom_up True memblock_init) = Inr s' \<and>
      reach demo_env s')"
proof -
  have r: "reach demo_env (memblock_set_bottom_up True memblock_init)"
    by (rule reach.step [OF reach.init, of "Set_bottom_up True"]) simp_all
  have "0 < env_fuel demo_env" by (simp add: demo_env_def)
  moreover have "call_ok (Add 0x80000000 0x40000000)" "call_ok (Cap_memory_range 0x80000000 0x10000000)"
    by (simp_all add: max_numerals)
  ultimately show ?thesis using memblock_early_boot_safe [OF r] by blast
qed

end
