(* ===== verification/Memblock_Iter.thy ===== *)
theory Memblock_Iter
  imports Memblock_Find
begin

text \<open>
  What the two range iterators of \<^verbatim>\<open>mm/memblock.c\<close> enumerate, and the search for a free area
  that is built on them.
\<close>

text \<open>
  The ranges a \<^verbatim>\<open>for_each_mem_range\<close> loop sees when its body never leaves the loop
  (\<^verbatim>\<open>include/linux/memblock.h\<close>).
\<close>

primrec collect_ranges :: "nat \<Rightarrow> (u64 \<Rightarrow> u64 \<times> (u64 \<times> u64 \<times> int) option) \<Rightarrow> u64 \<Rightarrow> (u64 \<times> u64 \<times> int) list" where
  "collect_ranges 0 next_range i = []"
| "collect_ranges (Suc n) next_range i =
     (case next_range i of
        (i', Some out) \<Rightarrow> (if i' = ULLONG_MAX then [] else out # collect_ranges n next_range i')
      | (i', None) \<Rightarrow> [])"

context range_iterator
begin

lemma collect_runs:
  assumes "before c i outs" "length outs < n"
  shows "collect_ranges n (step c) i = outs"
  using assms
proof (induction outs arbitrary: i n)
  case Nil
  obtain k where "n = Suc k" using Nil.prems(2) by (cases n) auto
  then show ?case using step_end [OF Nil.prems(1)] by (cases "step c i") simp
next
  case (Cons out outs)
  obtain k where n: "n = Suc k" using Cons.prems(2) by (cases n) auto
  obtain i' where i': "step c i = (i', Some out)" "i' \<noteq> ULLONG_MAX" "before c i' outs"
    using step_next [OF Cons.prems(1)] by blast
  with Cons.IH [OF i'(3), of k] Cons.prems(2) n show ?case by simp
qed

end

text \<open>Addresses the walk should see: memory that is not skipped and not reserved.\<close>

definition free_address :: "boot_env \<Rightarrow> int \<Rightarrow> memblock_flags \<Rightarrow> memblock_type \<Rightarrow> memblock_type \<Rightarrow> u64 \<Rightarrow> bool" where
  "free_address env nid flags mem res a \<longleftrightarrow>
     a < PHYS_ADDR_MAX \<and> amap (live res) a = None \<and>
     (\<exists>m\<in>set (live mem). \<not> mem_range_skip env (walk_nid nid) flags m \<and> covers m a)"

lemma piece_range: "piece m g = (s, e, n) \<Longrightarrow> (s \<le> a \<and> a < e) \<longleftrightarrow> covers m a \<and> in_range a g"
  by (auto simp: piece_def covers_def in_range_def)

text \<open>Both walks produce the pieces of unskipped memory and gaps that overlap.\<close>

lemma pieces_cover:
  assumes w: "walkable mem res"
    and sound: "\<And>out. out \<in> set outs \<Longrightarrow> \<exists>m\<in>set (live mem). \<exists>g\<in>set (areas res). \<not> skip m \<and> out = piece m g"
    and complete: "\<And>m g. m \<in> set (live mem) \<Longrightarrow> g \<in> set (areas res) \<Longrightarrow> \<not> skip m \<Longrightarrow> overlap m g \<Longrightarrow>
      piece m g \<in> set outs"
    and skip: "skip = mem_range_skip env (walk_nid nid) flags"
  shows "(\<exists>(s, e, n)\<in>set outs. s \<le> a \<and> a < e) \<longleftrightarrow> free_address env nid flags mem res a"
proof -
  have gaps: "(\<exists>g\<in>set (areas res). in_range a g) \<longleftrightarrow> a < PHYS_ADDR_MAX \<and> amap (live res) a = None"
    using in_gaps_from [of "live res" 0 a] w by (simp add: walkable_def)
  show ?thesis
  proof
    assume "\<exists>(s, e, n)\<in>set outs. s \<le> a \<and> a < e"
    then obtain s e n where out: "(s, e, n) \<in> set outs" "s \<le> a" "a < e" by auto
    then obtain m g where mg: "m \<in> set (live mem)" "g \<in> set (areas res)" "\<not> skip m" "piece m g = (s, e, n)"
      using sound by metis
    then have "covers m a" "in_range a g" using piece_range [OF mg(4)] out by auto
    then show "free_address env nid flags mem res a"
      using mg gaps skip by (auto simp: free_address_def)
  next
    assume f: "free_address env nid flags mem res a"
    then obtain m where m: "m \<in> set (live mem)" "\<not> skip m" "covers m a"
      using skip by (auto simp: free_address_def)
    obtain g where g: "g \<in> set (areas res)" "in_range a g" using f gaps by (auto simp: free_address_def)
    have "overlap m g" using m(3) g(2) by (auto simp: overlap_def covers_def in_range_def)
    then have "piece m g \<in> set outs" using complete m g by blast
    moreover obtain s e n where p: "piece m g = (s, e, n)" by (cases "piece m g") auto
    ultimately show "\<exists>(s, e, n)\<in>set outs. s \<le> a \<and> a < e"
      using piece_range [OF p, of a] m(3) g(2) by force
  qed
qed

lemma forward_start:
  fixes s :: memblock_state and env :: boot_env and nid :: int and flags :: memblock_flags
  assumes w: "walkable (mb_memory s) (mb_reserved s)"
  defines "outs \<equiv> isect (mem_range_skip env (walk_nid nid) flags) (live (mb_memory s)) (areas (mb_reserved s))"
  shows "fwd_before (env, nid, flags, mb_memory s, mb_reserved s) 0 outs" "length outs < range_steps s"
proof -
  have "pack_idx (int 0) (int 0) = 0" by (simp add: pack_idx_eq)
  then show "fwd_before (env, nid, flags, mb_memory s, mb_reserved s) 0 outs"
    using w by (force simp: fwd_before_def outs_def)
  show "length outs < range_steps s"
    using isect_length [of "mem_range_skip env (walk_nid nid) flags" "live (mb_memory s)" "areas (mb_reserved s)"]
      walkable_areas [OF w] by (simp add: range_steps_def outs_def)
qed

lemma forward_ranges:
  assumes w: "walkable (mb_memory s) (mb_reserved s)"
  shows "collect_ranges (range_steps s) (next_mem_range env nid flags (mb_memory s) (Some (mb_reserved s))) 0 =
    isect (mem_range_skip env (walk_nid nid) flags) (live (mb_memory s)) (areas (mb_reserved s))"
  using fwd.collect_runs [OF forward_start [OF w]] by simp

lemma reverse_ranges:
  assumes w: "walkable (mb_memory s) (mb_reserved s)"
  shows "collect_ranges (range_steps s) (next_mem_range_rev env nid flags (mb_memory s) (Some (mb_reserved s))) ULLONG_MAX =
    isect_rev (mem_range_skip env (walk_nid nid) flags) (rev (live (mb_memory s))) (rev (areas (mb_reserved s)))"
proof -
  let ?c = "(env, nid, flags, mb_memory s, mb_reserved s)"
  let ?outs = "isect_rev (mem_range_skip env (walk_nid nid) flags) (rev (live (mb_memory s))) (rev (areas (mb_reserved s)))"
  note wa = walkable_areas [OF w]
  have "rev_before ?c ULLONG_MAX ?outs" using w wa by (force simp: rev_before_def)
  moreover have "length ?outs < range_steps s"
    using isect_rev_length [of "mem_range_skip env (walk_nid nid) flags" "rev (live (mb_memory s))" "rev (areas (mb_reserved s))"] wa
    by (simp add: range_steps_def)
  ultimately show ?thesis using bwd.collect_runs [of ?c ULLONG_MAX ?outs "range_steps s"] by simp
qed

section \<open>Properties\<close>

lemma forward_cover:
  assumes "walkable (mb_memory s) (mb_reserved s)"
  shows "(\<exists>(b, e, n)\<in>set (collect_ranges (range_steps s)
             (next_mem_range env nid flags (mb_memory s) (Some (mb_reserved s))) 0). b \<le> a \<and> a < e) \<longleftrightarrow>
    free_address env nid flags (mb_memory s) (mb_reserved s) a"
  unfolding forward_ranges [OF assms]
proof (rule pieces_cover [OF assms _ _ refl])
  fix out
  assume "out \<in> set (isect (mem_range_skip env (walk_nid nid) flags) (live (mb_memory s)) (areas (mb_reserved s)))"
  then show "\<exists>m\<in>set (live (mb_memory s)). \<exists>g\<in>set (areas (mb_reserved s)).
      \<not> mem_range_skip env (walk_nid nid) flags m \<and> out = piece m g"
    by (rule isect_sound) blast
qed (rule isect_complete, use assms walkable_areas [OF assms] in \<open>simp_all add: walkable_def\<close>)

text \<open>
  C13: Walking the free ranges upwards (\<^verbatim>\<open>__next_mem_range\<close> from index 0) ends, and the ranges it
  returns cover exactly the addresses of memory of the wanted node and kind that are not
  reserved: none is missed and none is made up.
\<close>

theorem next_mem_range_walks_free_memory:
  assumes "walkable (mb_memory s) (mb_reserved s)"
  shows "(\<exists>(b, e, n)\<in>set (collect_ranges (range_steps s)
             (next_mem_range env nid flags (mb_memory s) (Some (mb_reserved s))) 0). b \<le> a \<and> a < e) \<longleftrightarrow>
    free_address env nid flags (mb_memory s) (mb_reserved s) a"
  by (rule forward_cover [OF assms])

theorem next_mem_range_walks_free_memory_witness:
  "(\<exists>(b, e, n)\<in>set (collect_ranges (range_steps demo_state)
       (next_mem_range demo_env NUMA_NO_NODE 0 (mb_memory demo_state) (Some (mb_reserved demo_state))) 0).
       b \<le> 0x11000 \<and> (0x11000 :: u64) < e) \<longleftrightarrow>
   free_address demo_env NUMA_NO_NODE 0 (mb_memory demo_state) (mb_reserved demo_state) 0x11000"
  by (rule next_mem_range_walks_free_memory) (use demo_wf in \<open>simp add: walkable_def wf_type_def\<close>)

text \<open>
  C14: Walking downwards (\<^verbatim>\<open>__next_mem_range_rev\<close> from index \<^verbatim>\<open>ULLONG_MAX\<close>) covers the same
  addresses as the specification of the upward walk.
\<close>

theorem next_mem_range_rev_walks_free_memory:
  assumes "walkable (mb_memory s) (mb_reserved s)"
  shows "(\<exists>(b, e, n)\<in>set (collect_ranges (range_steps s)
             (next_mem_range_rev env nid flags (mb_memory s) (Some (mb_reserved s))) ULLONG_MAX). b \<le> a \<and> a < e) \<longleftrightarrow>
    free_address env nid flags (mb_memory s) (mb_reserved s) a"
  unfolding reverse_ranges [OF assms]
proof (rule pieces_cover [OF assms _ _ refl])
  fix out
  assume "out \<in> set (isect_rev (mem_range_skip env (walk_nid nid) flags) (rev (live (mb_memory s)))
      (rev (areas (mb_reserved s))))"
  then show "\<exists>m\<in>set (live (mb_memory s)). \<exists>g\<in>set (areas (mb_reserved s)).
      \<not> mem_range_skip env (walk_nid nid) flags m \<and> out = piece m g"
    by (rule isect_rev_sound) auto
qed (rule isect_rev_complete, use assms walkable_areas [OF assms] in \<open>simp_all add: walkable_def\<close>)

theorem next_mem_range_rev_walks_free_memory_witness:
  "(\<exists>(b, e, n)\<in>set (collect_ranges (range_steps demo_state)
       (next_mem_range_rev demo_env NUMA_NO_NODE 0 (mb_memory demo_state) (Some (mb_reserved demo_state))) ULLONG_MAX).
       b \<le> 0x12800 \<and> (0x12800 :: u64) < e) \<longleftrightarrow>
   free_address demo_env NUMA_NO_NODE 0 (mb_memory demo_state) (mb_reserved demo_state) 0x12800"
  by (rule next_mem_range_rev_walks_free_memory) (use demo_wf in \<open>simp add: walkable_def wf_type_def\<close>)

text \<open>
  C12: \<^verbatim>\<open>memblock_find_in_range_node\<close> with a power-of-two alignment returns an address of an
  aligned area of the wanted size that lies in one region of matching memory, meets no
  reservation and stays inside the window; it returns 0 only when there is no such area. This
  holds for top-down and for bottom-up searches alike.
\<close>

theorem memblock_find_in_range_node_correct:
  assumes "walkable (mb_memory s) (mb_reserved s)" "k < 64" "0 < sz"
    and "start \<le> PHYS_ADDR_MAX" "end \<le> PHYS_ADDR_MAX" "mb_current_limit s \<le> PHYS_ADDR_MAX"
  shows "\<exists>c. memblock_find_in_range_node env s sz (2 ^ k) start end nid flags = Inr c \<and>
    (c \<noteq> 0 \<longrightarrow> found_at env s sz (2 ^ k) start end nid flags c) \<and>
    (c = 0 \<longrightarrow> (\<forall>c'. \<not> found_at env s sz (2 ^ k) start end nid flags c'))"
proof -
  obtain c where "memblock_find_in_range_node env s sz (2 ^ k) start end nid flags = Inr c"
    "c \<noteq> 0 \<longrightarrow> found_at env s sz (2 ^ k) start end nid flags c"
    "c = 0 \<longrightarrow> (\<forall>c'. \<not> found_at env s sz (2 ^ k) start end nid flags c')"
    using find_in_range_node_spec [OF assms] .
  then show ?thesis by (intro exI [of _ c] conjI)
qed

theorem memblock_find_in_range_node_correct_witness:
  "\<exists>c. memblock_find_in_range_node demo_env demo_state 0x1000 (2 ^ 12) 0 0 NUMA_NO_NODE 0 = Inr c \<and>
    (c \<noteq> 0 \<longrightarrow> found_at demo_env demo_state 0x1000 (2 ^ 12) 0 0 NUMA_NO_NODE 0 c) \<and>
    (c = 0 \<longrightarrow> (\<forall>c'. \<not> found_at demo_env demo_state 0x1000 (2 ^ 12) 0 0 NUMA_NO_NODE 0 c'))"
  by (rule memblock_find_in_range_node_correct) (use demo_wf in \<open>simp_all add: walkable_def wf_type_def\<close>)

text \<open>
  C25: The two \<^verbatim>\<open>int\<close> indices survive being packed into the \<^verbatim>\<open>u64\<close> loop variable of the iterators.
\<close>

theorem pack_idx_roundtrip:
  assumes "- (2 ^ 31) \<le> a" "a < 2 ^ 31" "- (2 ^ 31) \<le> b" "b < 2 ^ 31"
  shows "idx_a_of (pack_idx a b) = a \<and> idx_b_of (pack_idx a b) = b"
  using assms by (simp only: idx_a_of_pack idx_b_of_pack)

theorem pack_idx_roundtrip_witness: "idx_a_of (pack_idx (-1) 5) = -1 \<and> idx_b_of (pack_idx (-1) 5) = 5"
  by (rule pack_idx_roundtrip) simp_all

end
