(* ===== verification/Memblock_Grow.thy ===== *)
theory Memblock_Grow
  imports Memblock_Alloc
begin

text \<open>
  Growing the region arrays: \<^verbatim>\<open>memblock_find_in_range\<close> with its mirror fallback, the first growth
  of the memory array out of memblock itself, and the corner of \<^verbatim>\<open>memblock_double_array\<close> where
  the new array of reservations may be placed inside the area that is being reserved.
\<close>

lemma PAGE_SIZE_pow2: "PAGE_SIZE = 2 ^ 12"
  by (simp add: PAGE_SIZE_def)

lemma PAGE_ALIGN_eq:
  assumes "x + 4095 \<le> PHYS_ADDR_MAX"
  shows "PAGE_ALIGN x = round_down (x + 4095) (2 ^ 12)"
proof -
  have "u64_sub PAGE_SIZE 1 = 4095" by (simp add: u64_sub_max PAGE_SIZE_def max_numerals)
  moreover have "round_mask (2 ^ 12) = 4095" by (simp add: round_mask_def u64_sub_max max_numerals)
  ultimately show ?thesis
    using assms by (simp add: PAGE_ALIGN_def ALIGN_def round_down_def u64_add_max)
qed

lemma PAGE_ALIGN_bounds:
  assumes "x + 4095 \<le> PHYS_ADDR_MAX"
  shows "x \<le> PAGE_ALIGN x" "PAGE_ALIGN x \<le> x + 4095" "2 ^ 12 dvd PAGE_ALIGN x"
proof -
  have l: "x + 4095 < u64_lim" using assms unfolding less_u64_lim_iff .
  show "PAGE_ALIGN x \<le> x + 4095" unfolding PAGE_ALIGN_eq [OF assms] by (rule round_down_le [OF l]) simp
  show "2 ^ 12 dvd PAGE_ALIGN x" unfolding PAGE_ALIGN_eq [OF assms] by (rule round_down_dvd [OF l]) simp
  show "x \<le> PAGE_ALIGN x"
    unfolding PAGE_ALIGN_eq [OF assms] using round_down_pow2 [OF l, of 12] by simp
qed

text \<open>Found for the flags that are preferred, or without the wish for mirrored memory.\<close>

lemma find_in_range_spec:
  assumes wf: "wf_state s" and "k < 64" "0 < sz" "start \<le> PHYS_ADDR_MAX" "end \<le> PHYS_ADDR_MAX"
  shows "\<exists>c. memblock_find_in_range env s start end sz (2 ^ k) = Inr c \<and>
    (if c = 0 then \<forall>c'. \<not> found_at env s sz (2 ^ k) start end NUMA_NO_NODE (choose_memblock_flags s AND NOT MEMBLOCK_MIRROR) c'
     else \<exists>f\<in>{choose_memblock_flags s, choose_memblock_flags s AND NOT MEMBLOCK_MIRROR}.
       found_at env s sz (2 ^ k) start end NUMA_NO_NODE f c)"
proof -
  have lim: "mb_current_limit s \<le> PHYS_ADDR_MAX" using wf by (simp add: wf_state_def)
  let ?f = "choose_memblock_flags s"
  have find: "\<exists>c. memblock_find_in_range_node env s sz (2 ^ k) start end NUMA_NO_NODE f = Inr c \<and>
      (if c = 0 then \<forall>c'. \<not> found_at env s sz (2 ^ k) start end NUMA_NO_NODE f c'
       else found_at env s sz (2 ^ k) start end NUMA_NO_NODE f c)" for f
  proof -
    obtain c where "memblock_find_in_range_node env s sz (2 ^ k) start end NUMA_NO_NODE f = Inr c"
      "c \<noteq> 0 \<longrightarrow> found_at env s sz (2 ^ k) start end NUMA_NO_NODE f c"
      "c = 0 \<longrightarrow> (\<forall>c'. \<not> found_at env s sz (2 ^ k) start end NUMA_NO_NODE f c')"
      using find_in_range_node_spec [OF wf_state_walkable [OF wf] assms(2-5) lim] .
    then show ?thesis by (intro exI [of _ c]) simp
  qed
  obtain c1 where c1: "memblock_find_in_range_node env s sz (2 ^ k) start end NUMA_NO_NODE ?f = Inr c1"
    "if c1 = 0 then \<forall>c'. \<not> found_at env s sz (2 ^ k) start end NUMA_NO_NODE ?f c'
     else found_at env s sz (2 ^ k) start end NUMA_NO_NODE ?f c1" using find by blast
  obtain c2 where c2: "memblock_find_in_range_node env s sz (2 ^ k) start end NUMA_NO_NODE (?f AND NOT MEMBLOCK_MIRROR) = Inr c2"
    "if c2 = 0 then \<forall>c'. \<not> found_at env s sz (2 ^ k) start end NUMA_NO_NODE (?f AND NOT MEMBLOCK_MIRROR) c'
     else found_at env s sz (2 ^ k) start end NUMA_NO_NODE (?f AND NOT MEMBLOCK_MIRROR) c2" using find by blast
  show ?thesis
  proof (cases "c1 = 0 \<and> ?f AND MEMBLOCK_MIRROR \<noteq> 0")
    case True
    then show ?thesis using c1 c2 by (simp add: memblock_find_in_range_def Let_def)
  next
    case False
    moreover have "?f AND NOT MEMBLOCK_MIRROR = ?f" if "c1 = 0" using False that by (simp add: no_mirror)
    ultimately show ?thesis using c1 by (auto simp: memblock_find_in_range_def Let_def)
  qed
qed

text \<open>The array after growth: the same regions in twice the room, at the new address.\<close>

definition grown :: "memblock_type \<Rightarrow> u64 \<Rightarrow> memblock_type \<Rightarrow> bool" where
  "grown t addr t' \<longleftrightarrow> live t' = live t \<and> mt_max t' = 2 * mt_max t \<and> mt_array t' = Array_at addr \<and>
     mt_total_size t' = mt_total_size t \<and> (wf_type t \<longrightarrow> wf_type t')"

lemma grown_copy:
  assumes "wf_array t" "2 * mt_max t < u64_lim"
    and "t' = t\<lparr>mt_regions := mt_regions t @ replicate (mt_max t) zero_region, mt_array := Array_at addr,
       mt_max := (mt_max t * 2) mod u64_lim\<rparr>"
  shows "grown t addr t'"
proof -
  have len: "length (mt_regions t) = mt_max t" "mt_cnt t \<le> mt_max t" using assms(1) by (auto simp: wf_array_def)
  then have l: "live t' = live t" by (simp add: assms(3) live_def)
  have "wf_array t'" using assms(1,2) len l by (simp add: wf_array_def assms(3) mult.commute)
  then show ?thesis
    using assms(2) l by (simp add: grown_def wf_type_def assms(3) mult.commute)
qed

lemma found_without_mirror:
  assumes "found_at env s sz align start end nid f c" "f = 0 \<or> f = MEMBLOCK_MIRROR"
  shows "found_at env s sz align start end nid MEMBLOCK_NONE c"
proof -
  have "MEMBLOCK_MIRROR AND MEMBLOCK_NOMAP = 0" by (simp add: MEMBLOCK_MIRROR_def MEMBLOCK_NOMAP_def)
  then have "mem_range_skip env n f m" if "mem_range_skip env n MEMBLOCK_NONE m" for n m
    using that assms(2) by (auto simp: mem_range_skip_def MEMBLOCK_NONE_def)
  then show ?thesis using assms(1) by (auto simp: found_at_def free_area_def)
qed

text \<open>The search that an array is placed with, with the preference for mirrored memory resolved.\<close>

lemma find_in_range_any:
  assumes "wf_state s" "k < 64" "0 < sz" "start \<le> PHYS_ADDR_MAX" "end \<le> PHYS_ADDR_MAX"
  obtains c where "memblock_find_in_range env s start end sz (2 ^ k) = Inr c"
    "if \<exists>c'. found_at env s sz (2 ^ k) start end NUMA_NO_NODE MEMBLOCK_NONE c'
     then c \<noteq> 0 \<and> found_at env s sz (2 ^ k) start end NUMA_NO_NODE MEMBLOCK_NONE c else c = 0"
proof -
  have fl: "choose_memblock_flags s = 0 \<or> choose_memblock_flags s = MEMBLOCK_MIRROR"
    "choose_memblock_flags s AND NOT MEMBLOCK_MIRROR = MEMBLOCK_NONE"
    by (simp_all add: choose_memblock_flags_def MEMBLOCK_NONE_def)
  obtain c where c: "memblock_find_in_range env s start end sz (2 ^ k) = Inr c"
    "if c = 0 then \<forall>c'. \<not> found_at env s sz (2 ^ k) start end NUMA_NO_NODE MEMBLOCK_NONE c'
     else \<exists>f\<in>{choose_memblock_flags s, MEMBLOCK_NONE}. found_at env s sz (2 ^ k) start end NUMA_NO_NODE f c"
    using find_in_range_spec [OF assms, of env] unfolding fl(2) by blast
  have "found_at env s sz (2 ^ k) start end NUMA_NO_NODE MEMBLOCK_NONE c" if "c \<noteq> 0"
    using c(2) that found_without_mirror fl(1) by auto
  then have "if \<exists>c'. found_at env s sz (2 ^ k) start end NUMA_NO_NODE MEMBLOCK_NONE c'
     then c \<noteq> 0 \<and> found_at env s sz (2 ^ k) start end NUMA_NO_NODE MEMBLOCK_NONE c else c = 0"
    using c(2) by (cases "c = 0") auto
  then show ?thesis using that c(1) by blast
qed

text \<open>Moving one of the static arrays to the place that was found.\<close>

lemma grow_static:
  assumes wf: "wf_state s" and res: "memblock_can_resize s" "\<not> env_slab_is_available env" "\<not> in_slab sel s"
    and arr: "mt_array (get_type sel s) \<in> {Memory_init_regions, Reserved_init_regions}" "0 < mt_max (get_type sel s)"
    and small: "mt_max (get_type sel s) * 48 + 4095 \<le> PHYS_ADDR_MAX"
    and room: "sel = Memory \<Longrightarrow> mt_cnt (mb_reserved s) < mt_max (mb_reserved s)"
    and new: "find_new_array env sel b sz (mt_max (get_type sel s) * 48) n s = Inr c" "n = PAGE_ALIGN (mt_max (get_type sel s) * 48)"
    and c: "c \<noteq> 0" "c + n \<le> PHYS_ADDR_MAX" "\<forall>r\<in>set (live (mb_reserved s)). mr_end r \<le> c \<or> c + n \<le> mr_base r"
  shows "\<exists>t1 s'. memblock_double_array (Suc m) env sel b sz s = Inr (0, s') \<and> grown (get_type sel s) c t1 \<and>
    reserved_after (put_type sel t1 s) c n s'"
proof -
  define t where "t = get_type sel s"
  have wfm: "wf_array t" and wfr: "wf_type (mb_reserved s)" and cnt: "mt_cnt t \<le> mt_max t"
    using wf by (cases sel; simp add: wf_state_def wf_type_def wf_array_def t_def)+
  have size: "(mt_max t * sizeof_memblock_region) mod u64_lim = mt_max t * 24"
    "(mt_max t * 24 * 2) mod u64_lim = mt_max t * 48" "2 * mt_max t < u64_lim"
    using small by (simp_all add: sizeof_memblock_region_def max_numerals t_def)
  have n0: "0 < n" using PAGE_ALIGN_bounds(1) [OF small] arr(2) new(2) by simp
  define t1 where "t1 = t\<lparr>mt_regions := mt_regions t @ replicate (mt_max t) zero_region, mt_array := Array_at c,
     mt_max := (mt_max t * 2) mod u64_lim\<rparr>"
  let ?s1 = "put_type sel t1 s"
  have g: "grown t c t1" by (rule grown_copy [OF wfm size(3) t1_def])
  have r1: "wf_type (mb_reserved ?s1)" "live (mb_reserved ?s1) = live (mb_reserved s)"
      "mt_cnt (mb_reserved ?s1) < mt_max (mb_reserved ?s1)"
    using g wfr room size(3) arr(2) cnt by (cases sel; auto simp: grown_def t_def t1_def)+
  obtain s3 where s3: "memblock_add_range (memblock_double_array m env) Reserved c n MAX_NUMNODES 0 ?s1 = Inr (0, s3)"
    "reserved_after ?s1 c n s3"
    using add_free_area [OF r1(1) c(2) n0 _ r1(3)] c(3) r1(2) by auto
  have "set_in_slab sel False s3 = s3"
    using s3(2) res(3) by (cases sel; auto simp: reserved_after_def set_in_slab_def in_slab_def)
  then have "memblock_double_array (Suc m) env sel b sz s = Inr (0, s3)"
    using new size res arr(1) c(1) s3(1)
    by (auto simp: double_array_with_def Let_def t1_def t_def)
  then show ?thesis using g s3(2) by (auto simp: t_def)
qed

text \<open>A machine whose only bank starts at address 0, with one reservation right above it that fills its array.\<close>

definition demo_low :: memblock_state where
  "demo_low = (memblock_allow_resize demo_state)\<lparr>mb_memory := demo_memory\<lparr>mt_cnt := 1, mt_total_size := 0x20000,
      mt_regions := [\<lparr>mr_base = 0, mr_size = 0x20000, mr_flags = 0, mr_nid = 0\<rparr>, zero_region, zero_region,
        zero_region, zero_region, zero_region]\<rparr>, mb_reserved := demo_full\<lparr>
      mt_regions := [\<lparr>mr_base = 0x20000, mr_size = 0x1000, mr_flags = 0, mr_nid = MAX_NUMNODES\<rparr>]\<rparr>\<rparr>"

lemma demo_low_wf: "wf_state demo_low"
  by (simp add: demo_low_def wf_state_def wf_type_def wf_array_def live_def ordered_Cons nonempty_def mr_end_def max_numerals
      demo_memory_def demo_full_def memblock_allow_resize_def)

lemma demo_low_fields:
  "live (mb_memory demo_low) = [\<lparr>mr_base = 0, mr_size = 0x20000, mr_flags = 0, mr_nid = 0\<rparr>]"
  "live (mb_reserved demo_low) = [\<lparr>mr_base = 0x20000, mr_size = 0x1000, mr_flags = 0, mr_nid = MAX_NUMNODES\<rparr>]"
  "mb_current_limit demo_low = PHYS_ADDR_MAX" "memblock_can_resize demo_low" "\<not> memblock_reserved_in_slab demo_low"
  "mt_array (mb_reserved demo_low) = Reserved_init_regions" "mt_max (mb_reserved demo_low) = 1"
  by (simp_all add: live_def demo_low_def demo_memory_def demo_full_def memblock_allow_resize_def)
    (simp add: demo_state_def memblock_init_def)

lemma demo_unskipped:
  "mr_flags m = 0 \<Longrightarrow> \<not> mem_range_skip demo_env (walk_nid NUMA_NO_NODE) MEMBLOCK_NONE m"
  by (simp add: mem_range_skip_def walk_nid_def NUMA_NO_NODE_def MAX_NUMNODES_def demo_env_def memblock_is_nomap_def
      memblock_is_hotpluggable_def MEMBLOCK_NONE_def)

section \<open>Properties\<close>

text \<open>
  C21: The first growth of the memory array (from its static array, before the slab is up, with a
  free slot for the reservation of the new array and no overflow of its size) succeeds exactly
  when resizing has been allowed and there is a free place for the new array below the current
  limit.  It then doubles the room, keeps every region and the total, places the new array in memory
  that was free, and reserves exactly the pages of the new array.  Otherwise it returns \<^verbatim>\<open>-1\<close> and
  changes nothing.
\<close>

theorem memblock_double_array_correct:
  assumes wf: "wf_state s" and res: "\<not> env_slab_is_available env" "\<not> memblock_memory_in_slab s"
    and arr: "mt_array (mb_memory s) = Memory_init_regions" "0 < mt_max (mb_memory s)"
    and small: "mt_max (mb_memory s) * 48 + 4095 \<le> PHYS_ADDR_MAX"
    and room: "mt_cnt (mb_reserved s) < mt_max (mb_reserved s)"
  shows "if memblock_can_resize s \<and>
      (\<exists>c. found_at env s (PAGE_ALIGN (mt_max (mb_memory s) * 48)) (2 ^ 12) 0 (mb_current_limit s) NUMA_NO_NODE MEMBLOCK_NONE c)
    then \<exists>addr s'. memblock_double_array (Suc n) env Memory b sz s = Inr (0, s') \<and>
      found_at env s (PAGE_ALIGN (mt_max (mb_memory s) * 48)) (2 ^ 12) 0 (mb_current_limit s) NUMA_NO_NODE MEMBLOCK_NONE addr \<and>
      grown (mb_memory s) addr (mb_memory s') \<and>
      reserved_after (s\<lparr>mb_memory := mb_memory s'\<rparr>) addr (PAGE_ALIGN (mt_max (mb_memory s) * 48)) s'
    else memblock_double_array (Suc n) env Memory b sz s = Inr (-1, s)"
proof (cases "memblock_can_resize s")
  case True
  let ?t = "mb_memory s" and ?n = "PAGE_ALIGN (mt_max (mb_memory s) * 48)"
  let ?found = "found_at env s ?n (2 ^ 12) 0 (mb_current_limit s) NUMA_NO_NODE MEMBLOCK_NONE"
  have lim: "mb_current_limit s \<le> PHYS_ADDR_MAX" using wf by (simp add: wf_state_def)
  have n0: "0 < ?n" using PAGE_ALIGN_bounds(1) [OF small] arr(2) by simp
  have k: "(12 :: nat) < 64" "(0 :: nat) \<le> PHYS_ADDR_MAX" by simp_all
  obtain c where c: "memblock_find_in_range env s 0 (mb_current_limit s) ?n (2 ^ 12) = Inr c"
    "if \<exists>c'. ?found c' then c \<noteq> 0 \<and> ?found c else c = 0"
    using find_in_range_any [OF wf k(1) n0 k(2) lim] .
  have "u64_add 0 0 = 0" by (simp add: u64_add_def)
  then have new: "find_new_array env Memory b sz (mt_max ?t * 48) ?n s = Inr c"
    using res(1) c(1) by (simp add: find_new_array_def PAGE_SIZE_pow2)
  show ?thesis
  proof (cases "\<exists>c'. ?found c'")
    case False
    have "(mt_max ?t * sizeof_memblock_region) mod u64_lim = mt_max ?t * 24" "(mt_max ?t * 24 * 2) mod u64_lim = mt_max ?t * 48"
      using small by (simp_all add: sizeof_memblock_region_def max_numerals)
    then have "memblock_double_array (Suc n) env Memory b sz s = Inr (-1, s)"
      using False c(2) new True by (simp add: double_array_with_def Let_def)
    then show ?thesis using False by simp
  next
    case found: True
    then have f: "c \<noteq> 0" "?found c" using c(2) by auto
    note fb = found_at_bounds [OF f(2) _ lim lim]
    have m: "\<not> in_slab Memory s" "mt_array (get_type Memory s) \<in> {Memory_init_regions, Reserved_init_regions}"
      "0 < mt_max (get_type Memory s)" "mt_max (get_type Memory s) * 48 + 4095 \<le> PHYS_ADDR_MAX"
      "find_new_array env Memory b sz (mt_max (get_type Memory s) * 48) ?n s = Inr c" "?n = PAGE_ALIGN (mt_max (get_type Memory s) * 48)"
      using res(2) arr small new by (simp_all add: in_slab_def)
    obtain t1 s' where s': "memblock_double_array (Suc n) env Memory b sz s = Inr (0, s')" "grown ?t c t1"
        "reserved_after (s\<lparr>mb_memory := t1\<rparr>) c ?n s'"
      using grow_static [OF wf True res(1) m(1-4) room m(5,6) f(1) fb(1,2), of n] unfolding get_type.simps put_type.simps by blast
    then have "mb_memory s' = t1" by (auto simp: reserved_after_def)
    then show ?thesis unfolding if_P [OF conjI [OF True found]] using s' f(2) by (intro exI [of _ c] exI [of _ s']) simp
  qed
qed (simp add: double_array_with_def)

theorem memblock_double_array_correct_witness:
  "(\<exists>addr s'. memblock_double_array (Suc 2) demo_env Memory 0 0 (memblock_allow_resize demo_state) = Inr (0, s') \<and>
      grown demo_memory addr (mb_memory s') \<and>
      reserved_after ((memblock_allow_resize demo_state)\<lparr>mb_memory := mb_memory s'\<rparr>) addr (PAGE_ALIGN (6 * 48)) s') \<and>
   memblock_double_array (Suc 2) demo_env Memory 0 0 demo_state = Inr (-1, demo_state)"
proof -
  let ?s = "memblock_allow_resize demo_state"
  have wf: "wf_state ?s" using demo_wf_state by (simp add: wf_state_def memblock_allow_resize_def)
  have f: "mb_memory ?s = demo_memory" "mb_reserved ?s = demo_reserved" "mb_current_limit ?s = PHYS_ADDR_MAX" "memblock_can_resize ?s"
    by (simp_all add: memblock_allow_resize_def)
  have m: "mt_array demo_memory = Memory_init_regions" "mt_max demo_memory = 6" "mt_cnt demo_reserved < mt_max demo_reserved"
      "\<not> env_slab_is_available demo_env" "\<not> memblock_memory_in_slab demo_state" "\<not> memblock_memory_in_slab ?s"
    by (simp_all add: demo_memory_def demo_reserved_def demo_env_def memblock_allow_resize_def)
      (simp_all add: demo_state_def memblock_init_def)
  have small: "6 * 48 + 4095 \<le> PHYS_ADDR_MAX" by (simp add: max_numerals)
  have "PAGE_ALIGN (6 * 48) \<le> 0x2000" using PAGE_ALIGN_bounds(2) [OF small] by simp
  then have "found_at demo_env ?s (PAGE_ALIGN (6 * 48)) (2 ^ 12) 0 PHYS_ADDR_MAX NUMA_NO_NODE MEMBLOCK_NONE 0x10000"
    using demo_unskipped [of "\<lparr>mr_base = 0x10000, mr_size = 0x4000, mr_flags = 0, mr_nid = 0\<rparr>"]
    by (simp add: found_at_def free_area_def f demo_live win_start_def win_end_def PAGE_SIZE_def mr_end_def max_numerals)
  then have "\<exists>c. found_at demo_env ?s (PAGE_ALIGN (6 * 48)) (2 ^ 12) 0 PHYS_ADDR_MAX NUMA_NO_NODE MEMBLOCK_NONE c" by blast
  moreover have "0 < (6::nat)" by simp
  ultimately show ?thesis
    using memblock_double_array_correct [OF wf m(4,6), of 2 0 0] memblock_double_array_correct [OF demo_wf_state m(4,5), of 2 0 0]
      f m small by auto
qed

text \<open>
  C28: When the static array of reservations has to grow while an area that starts at address 0 is
  being reserved, and the only free places for the new array are inside that area, the second search
  of \<^verbatim>\<open>memblock_double_array\<close>, which shall stay below the area, has the upper bound
  \<^verbatim>\<open>min(0, limit) = 0\<close>, and \<^verbatim>\<open>memblock_find_in_range\<close> reads 0 as \<^verbatim>\<open>no bound\<close>.  The call succeeds and
  moves the array into the area that its caller is about to reserve.
\<close>

theorem memblock_double_array_overlaps_new_area:
  assumes wf: "wf_state s" and res: "memblock_can_resize s" "\<not> env_slab_is_available env" "\<not> memblock_reserved_in_slab s"
    and arr: "mt_array (mb_reserved s) = Reserved_init_regions" "0 < mt_max (mb_reserved s)"
    and small: "mt_max (mb_reserved s) * 48 + 4095 \<le> PHYS_ADDR_MAX"
    and area: "0 < sz" "sz \<le> PHYS_ADDR_MAX"
    and below: "found_at env s (PAGE_ALIGN (mt_max (mb_reserved s) * 48)) (2 ^ 12) 0 (mb_current_limit s) NUMA_NO_NODE MEMBLOCK_NONE c"
    and above: "\<forall>c'. \<not> found_at env s (PAGE_ALIGN (mt_max (mb_reserved s) * 48)) (2 ^ 12) sz (mb_current_limit s) NUMA_NO_NODE MEMBLOCK_NONE c'"
  shows "\<exists>addr s'. memblock_double_array (Suc n) env Reserved 0 sz s = Inr (0, s') \<and>
    mt_array (mb_reserved s') = Array_at addr \<and> 0 < addr \<and> addr < sz \<and>
    (\<forall>a. addr \<le> a \<and> a < addr + PAGE_ALIGN (mt_max (mb_reserved s) * 48) \<longrightarrow> amap (live (mb_reserved s')) a \<noteq> None)"
proof -
  let ?t = "mb_reserved s" and ?n = "PAGE_ALIGN (mt_max (mb_reserved s) * 48)" and ?lim = "mb_current_limit s"
  have lim: "?lim \<le> PHYS_ADDR_MAX" using wf by (simp add: wf_state_def)
  have n0: "0 < ?n" using PAGE_ALIGN_bounds(1) [OF small] arr(2) by simp
  have k: "(12 :: nat) < 64" "(0 :: nat) \<le> PHYS_ADDR_MAX" by simp_all
  obtain c1 where c1: "memblock_find_in_range env s sz ?lim ?n (2 ^ 12) = Inr c1"
    "if \<exists>c'. found_at env s ?n (2 ^ 12) sz ?lim NUMA_NO_NODE MEMBLOCK_NONE c'
     then c1 \<noteq> 0 \<and> found_at env s ?n (2 ^ 12) sz ?lim NUMA_NO_NODE MEMBLOCK_NONE c1 else c1 = 0"
    using find_in_range_any [OF wf k(1) n0 area(2) lim] .
  have c10: "c1 = 0" using c1(2) above by auto
  have win: "win_end s 0 0 = win_end s 0 ?lim" by (simp add: win_end_def MEMBLOCK_ALLOC_ACCESSIBLE_def)
  obtain c2 where c2: "memblock_find_in_range env s 0 0 ?n (2 ^ 12) = Inr c2"
    "if \<exists>c'. found_at env s ?n (2 ^ 12) 0 0 NUMA_NO_NODE MEMBLOCK_NONE c'
     then c2 \<noteq> 0 \<and> found_at env s ?n (2 ^ 12) 0 0 NUMA_NO_NODE MEMBLOCK_NONE c2 else c2 = 0"
    using find_in_range_any [OF wf k(1) n0 k(2,2)] .
  have f: "c2 \<noteq> 0" "found_at env s ?n (2 ^ 12) 0 0 NUMA_NO_NODE MEMBLOCK_NONE c2"
    using c2(2) below win by (auto simp: found_at_def split: if_splits)
  note fb = found_at_bounds [OF f(2) k(2) k(2) lim]
  have "c2 < sz"
  proof (rule ccontr)
    assume "\<not> c2 < sz"
    then have "found_at env s ?n (2 ^ 12) sz ?lim NUMA_NO_NODE MEMBLOCK_NONE c2"
      using f(2) by (auto simp: found_at_def win_start_def win_end_def MEMBLOCK_ALLOC_ACCESSIBLE_def)
    then show False using above by blast
  qed
  have "u64_add 0 sz = sz" using area(2) by (simp add: u64_add_def max_numerals)
  then have new: "find_new_array env Reserved 0 sz (mt_max ?t * 48) ?n s = Inr c2"
    using res(2) c1(1) c10 c2(1) area(1) by (simp add: find_new_array_def PAGE_SIZE_pow2)
  have m: "\<not> in_slab Reserved s" "mt_array (get_type Reserved s) \<in> {Memory_init_regions, Reserved_init_regions}"
    "0 < mt_max (get_type Reserved s)" "mt_max (get_type Reserved s) * 48 + 4095 \<le> PHYS_ADDR_MAX"
    "Reserved = Memory \<Longrightarrow> mt_cnt (mb_reserved s) < mt_max (mb_reserved s)"
    "find_new_array env Reserved 0 sz (mt_max (get_type Reserved s) * 48) ?n s = Inr c2" "?n = PAGE_ALIGN (mt_max (get_type Reserved s) * 48)"
    using res(3) arr small new by (simp_all add: in_slab_def)
  obtain t1 s' where s': "memblock_double_array (Suc n) env Reserved 0 sz s = Inr (0, s')" "grown ?t c2 t1"
      "reserved_after (s\<lparr>mb_reserved := t1\<rparr>) c2 ?n s'"
    using grow_static [OF wf res(1,2) m f(1) fb(1,2), of n] unfolding get_type.simps put_type.simps by blast
  then show ?thesis using \<open>c2 < sz\<close> f(1)
    by (intro exI [of _ c2] exI [of _ s']) (auto simp: reserved_after_def grown_def)
qed

theorem memblock_double_array_overlaps_new_area_witness:
  "\<exists>addr s'. memblock_double_array (Suc 2) demo_env Reserved 0 0x20000 demo_low = Inr (0, s') \<and>
    mt_array (mb_reserved s') = Array_at addr \<and> 0 < addr \<and> addr < 0x20000 \<and>
    (\<forall>a. addr \<le> a \<and> a < addr + PAGE_ALIGN (mt_max (mb_reserved demo_low) * 48) \<longrightarrow> amap (live (mb_reserved s')) a \<noteq> None)"
proof -
  have small: "1 * 48 + 4095 \<le> PHYS_ADDR_MAX" by (simp add: max_numerals)
  have n: "PAGE_ALIGN 48 \<le> 0x2000" "0 < PAGE_ALIGN 48" using PAGE_ALIGN_bounds(1,2) [OF small] by simp_all
  have "found_at demo_env demo_low (PAGE_ALIGN (1 * 48)) (2 ^ 12) 0 PHYS_ADDR_MAX NUMA_NO_NODE MEMBLOCK_NONE 0x1000"
    using demo_unskipped [of "\<lparr>mr_base = 0, mr_size = 0x20000, mr_flags = 0, mr_nid = 0\<rparr>"] n
    by (simp add: found_at_def free_area_def demo_low_fields win_start_def win_end_def PAGE_SIZE_def mr_end_def max_numerals)
  moreover have "\<forall>c. \<not> found_at demo_env demo_low (PAGE_ALIGN (1 * 48)) (2 ^ 12) 0x20000 PHYS_ADDR_MAX NUMA_NO_NODE MEMBLOCK_NONE c"
    using n by (auto simp: found_at_def free_area_def demo_low_fields win_start_def mr_end_def)
  ultimately show ?thesis
    using memblock_double_array_overlaps_new_area [OF demo_low_wf demo_low_fields(4) _ demo_low_fields(5,6), of demo_env "0x20000" _ 2]
      small demo_low_fields by (simp add: demo_env_def max_numerals)
qed

end
