(* ===== verification/Bootmem.thy ===== *)
theory Bootmem
  imports Kernel_Prelude
begin

text \<open>
  The bootmem allocator of \<^verbatim>\<open>bootmem.c\<close>: one bitmap of pages per node, a bit being set while the
  page is reserved.  This theory holds the data, registering a node, and marking ranges of pages
  free or reserved, on one node and across nodes.

  The C names \<^verbatim>\<open>__free\<close> and \<^verbatim>\<open>__reserve\<close> are \<open>bootmem_free_bits\<close> and \<open>bootmem_reserve_bits\<close> here,
  since an identifier cannot start with an underscore.  A bitmap is the list of its 64-bit words;
  the page frame number of the first page it lies in is kept beside it, standing for the pointer
  \<^verbatim>\<open>node_bootmem_map\<close>, and \<open>None\<close> is \<^verbatim>\<open>NULL\<close>.
\<close>

type_synonym bitmap = "64 word list"

definition BITS_PER_LONG :: nat where
  "BITS_PER_LONG = 64"

definition BOOTMEM_DEFAULT :: nat where
  "BOOTMEM_DEFAULT = 0"

definition BOOTMEM_EXCLUSIVE :: nat where
  "BOOTMEM_EXCLUSIVE = 1"

definition DIV_ROUND_UP :: "u64 \<Rightarrow> u64 \<Rightarrow> u64" where
  "DIV_ROUND_UP n d = u64_sub (u64_add n d) 1 div d"

record bootmem_data =
  node_min_pfn :: u64
  node_low_pfn :: u64
  node_bootmem_map :: "(u64 \<times> bitmap) option"
  last_end_off :: u64
  hint_idx :: u64

text \<open>
  The allocator as a whole: the array \<^verbatim>\<open>bootmem_node_data\<close>, the list \<^verbatim>\<open>bdata_list\<close> as indices into
  that array, the counters the functions keep, the pages given to the page allocator (page,
  frame number argument, order) in the order of the calls, and the \<^verbatim>\<open>managed_pages\<close> of the zones
  of each node.
\<close>

record bootmem_state =
  bootmem_node_data :: "bootmem_data list"
  bdata_list :: "nat list"
  max_low_pfn :: u64
  min_low_pfn :: u64
  totalram_pages :: u64
  released :: "(u64 \<times> u64 \<times> nat) list"
  managed_pages :: "u64 list list"
  reset_managed_pages_done :: bool

text \<open>
  What the code calls and this repository does not hold: the search for a zero bit
  (\<^verbatim>\<open>lib/find_bit.c\<close>), the limits of the memory model, the slab allocator, and what the architecture
  says of the end of the DMA32 zone (\<open>None\<close> where it has none) and of the end of a node.
\<close>

record bootmem_env =
  find_next_zero_bit :: "bitmap \<Rightarrow> u64 \<Rightarrow> u64 \<Rightarrow> u64"
  validate_memmodel_limits :: "u64 \<Rightarrow> u64 \<Rightarrow> u64 \<times> u64"
  slab_is_available :: bool
  kzalloc :: "u64 \<Rightarrow> u64 option"
  kzalloc_node :: "u64 \<Rightarrow> nat \<Rightarrow> u64 option"
  max_dma32_pfn :: "u64 option"
  pgdat_end_pfn :: "nat \<Rightarrow> u64"

subsection \<open>Bits of a bitmap\<close>

definition test_bit :: "nat \<Rightarrow> bitmap \<Rightarrow> bool" where
  "test_bit nr m = bit (m ! (nr div BITS_PER_LONG)) (nr mod BITS_PER_LONG)"

definition bm_set_bit :: "nat \<Rightarrow> bitmap \<Rightarrow> bitmap" where
  "bm_set_bit nr m =
    m[nr div BITS_PER_LONG := set_bit (nr mod BITS_PER_LONG) (m ! (nr div BITS_PER_LONG))]"

definition bm_clear_bit :: "nat \<Rightarrow> bitmap \<Rightarrow> bitmap" where
  "bm_clear_bit nr m =
    m[nr div BITS_PER_LONG := unset_bit (nr mod BITS_PER_LONG) (m ! (nr div BITS_PER_LONG))]"

definition bm_valid :: "nat \<Rightarrow> bitmap \<Rightarrow> bool" where
  "bm_valid nr m = (nr div BITS_PER_LONG < length m)"

subsection \<open>Registering a node\<close>

definition bootmap_bytes :: "u64 \<Rightarrow> u64" where
  "bootmap_bytes pages = ALIGN (DIV_ROUND_UP pages 8) 8"

definition bootmem_bootmap_pages :: "u64 \<Rightarrow> u64" where
  "bootmem_bootmap_pages pages = PAGE_ALIGN (bootmap_bytes pages) div PAGE_SIZE"

fun link_bootmem :: "bootmem_data list \<Rightarrow> nat \<Rightarrow> nat list \<Rightarrow> nat list" where
  "link_bootmem nodes n [] = [n]"
| "link_bootmem nodes n (e # es) =
    (if node_min_pfn (nodes ! n) < node_min_pfn (nodes ! e) then n # e # es
     else e # link_bootmem nodes n es)"

definition init_bootmem_core ::
  "bootmem_env \<Rightarrow> bootmem_state \<Rightarrow> nat \<Rightarrow> u64 \<Rightarrow> u64 \<Rightarrow> u64 \<Rightarrow> bootmem_state \<times> u64" where
  "init_bootmem_core env s n mapstart start0 end0 =
    (let (start, end) = validate_memmodel_limits env start0 end0;
         mapsize = bootmap_bytes (u64_sub end start);
         bd = (bootmem_node_data s ! n)
           \<lparr>node_min_pfn := start, node_low_pfn := end,
            node_bootmem_map := Some (mapstart, replicate (mapsize div 8) (- 1))\<rparr>;
         nodes = (bootmem_node_data s)[n := bd]
     in (s\<lparr>bootmem_node_data := nodes, bdata_list := link_bootmem nodes n (bdata_list s)\<rparr>, mapsize))"

definition init_bootmem_node ::
  "bootmem_env \<Rightarrow> bootmem_state \<Rightarrow> nat \<Rightarrow> u64 \<Rightarrow> u64 \<Rightarrow> u64 \<Rightarrow> bootmem_state \<times> u64" where
  "init_bootmem_node env s nid freepfn startpfn endpfn =
    init_bootmem_core env s nid freepfn startpfn endpfn"

definition init_bootmem :: "bootmem_env \<Rightarrow> bootmem_state \<Rightarrow> u64 \<Rightarrow> u64 \<Rightarrow> bootmem_state \<times> u64" where
  "init_bootmem env s start pages =
    init_bootmem_core env (s\<lparr>max_low_pfn := pages, min_low_pfn := start\<rparr>) 0 start 0 pages"

subsection \<open>Freeing and reserving bits\<close>

function clear_bits :: "bitmap \<Rightarrow> u64 \<Rightarrow> u64 \<Rightarrow> bitmap run" where
  "clear_bits m idx eidx =
    (if idx < eidx then
       if \<not> bm_valid idx m then Inl Bad_access
       else if \<not> test_bit idx m then Inl Bug_on
       else clear_bits (bm_clear_bit idx m) (idx + 1) eidx
     else Inr m)"
  by pat_completeness auto
termination by (relation "measure (\<lambda>(m, idx, eidx). eidx - idx)") auto

definition bootmem_free_bits :: "bootmem_data \<Rightarrow> u64 \<Rightarrow> u64 \<Rightarrow> bootmem_data run" where
  "bootmem_free_bits bd sidx eidx =
    (case node_bootmem_map bd of
       None \<Rightarrow> Inr bd
     | Some (p, m) \<Rightarrow>
         let bd1 = (if hint_idx bd > sidx then bd\<lparr>hint_idx := sidx\<rparr> else bd)
         in run_bind (clear_bits m sidx eidx) (\<lambda>m'. Inr (bd1\<lparr>node_bootmem_map := Some (p, m')\<rparr>)))"

text \<open>
  The loop of \<^verbatim>\<open>__reserve\<close>; \<open>Some idx\<close> in the result is the page an exclusive reservation stopped
  at.
\<close>

function set_bits :: "bool \<Rightarrow> bitmap \<Rightarrow> u64 \<Rightarrow> u64 \<Rightarrow> (bitmap \<times> u64 option) run" where
  "set_bits exclusive m idx eidx =
    (if idx < eidx then
       if \<not> bm_valid idx m then Inl Bad_access
       else if test_bit idx m \<and> exclusive then Inr (m, Some idx)
       else set_bits exclusive (bm_set_bit idx m) (idx + 1) eidx
     else Inr (m, None))"
  by pat_completeness auto
termination by (relation "measure (\<lambda>(x, m, idx, eidx). eidx - idx)") auto

definition bootmem_reserve_bits ::
  "bootmem_data \<Rightarrow> u64 \<Rightarrow> u64 \<Rightarrow> nat \<Rightarrow> (bootmem_data \<times> int) run" where
  "bootmem_reserve_bits bd sidx eidx flags =
    (case node_bootmem_map bd of
       None \<Rightarrow> Inr (bd, 0)
     | Some (p, m) \<Rightarrow>
         run_bind (set_bits (flags AND BOOTMEM_EXCLUSIVE \<noteq> 0) m sidx eidx)
           (\<lambda>(m', busy).
              let bd' = bd\<lparr>node_bootmem_map := Some (p, m')\<rparr>
              in case busy of
                   None \<Rightarrow> Inr (bd', 0)
                 | Some idx \<Rightarrow> run_bind (bootmem_free_bits bd' sidx idx) (\<lambda>bd''. Inr (bd'', - EBUSY))))"

definition mark_bootmem_node ::
  "bootmem_data \<Rightarrow> u64 \<Rightarrow> u64 \<Rightarrow> bool \<Rightarrow> nat \<Rightarrow> (bootmem_data \<times> int) run" where
  "mark_bootmem_node bd start end reserve flags =
    (if start < node_min_pfn bd then Inl Bug_on
     else if end > node_low_pfn bd then Inl Bug_on
     else
       let sidx = u64_sub start (node_min_pfn bd);
           eidx = u64_sub end (node_min_pfn bd)
       in if reserve then bootmem_reserve_bits bd sidx eidx flags
          else run_bind (bootmem_free_bits bd sidx eidx) (\<lambda>bd'. Inr (bd', 0)))"

text \<open>
  The walk of \<^verbatim>\<open>mark_bootmem\<close> over \<^verbatim>\<open>bdata_list\<close>; \<open>Some (err, pos)\<close> in the result is the error a
  node answered and the position reached.
\<close>

primrec mark_nodes ::
  "u64 \<Rightarrow> u64 \<Rightarrow> bool \<Rightarrow> nat \<Rightarrow> nat list \<Rightarrow> bootmem_data list \<Rightarrow> u64
    \<Rightarrow> (bootmem_data list \<times> (int \<times> u64) option) run" where
  "mark_nodes start end reserve flags [] nodes pos = Inl Bug_on"
| "mark_nodes start end reserve flags (n # ns) nodes pos =
    (let bd = nodes ! n in
     if pos < node_min_pfn bd \<or> pos \<ge> node_low_pfn bd then
       if pos \<noteq> start then Inl Bug_on
       else mark_nodes start end reserve flags ns nodes pos
     else
       let max = min (node_low_pfn bd) end in
       run_bind (mark_bootmem_node bd pos max reserve flags)
         (\<lambda>(bd', err).
            let nodes' = nodes[n := bd'] in
            if reserve \<and> err \<noteq> 0 then Inr (nodes', Some (err, pos))
            else if max = end then Inr (nodes', None)
            else mark_nodes start end reserve flags ns nodes' (node_low_pfn bd)))"

definition mark_bootmem ::
  "bootmem_state \<Rightarrow> u64 \<Rightarrow> u64 \<Rightarrow> bool \<Rightarrow> nat \<Rightarrow> (bootmem_state \<times> int) run" where
  "mark_bootmem s start end reserve flags =
    run_bind (mark_nodes start end reserve flags (bdata_list s) (bootmem_node_data s) start)
      (\<lambda>(nodes, stop).
         case stop of
           None \<Rightarrow> Inr (s\<lparr>bootmem_node_data := nodes\<rparr>, 0)
         | Some (err, pos) \<Rightarrow>
             run_bind (mark_nodes start pos False 0 (bdata_list s) nodes start)
               (\<lambda>(nodes', _). Inr (s\<lparr>bootmem_node_data := nodes'\<rparr>, err)))"

definition free_bootmem_node :: "bootmem_state \<Rightarrow> nat \<Rightarrow> u64 \<Rightarrow> u64 \<Rightarrow> bootmem_state run" where
  "free_bootmem_node s nid physaddr sz =
    (let start = PFN_UP physaddr;
         end = PFN_DOWN (u64_add physaddr sz)
     in run_bind (mark_bootmem_node (bootmem_node_data s ! nid) start end False 0)
          (\<lambda>(bd, _). Inr (s\<lparr>bootmem_node_data := (bootmem_node_data s)[nid := bd]\<rparr>)))"

definition free_bootmem :: "bootmem_state \<Rightarrow> u64 \<Rightarrow> u64 \<Rightarrow> bootmem_state run" where
  "free_bootmem s physaddr sz =
    (let start = PFN_UP physaddr;
         end = PFN_DOWN (u64_add physaddr sz)
     in run_bind (mark_bootmem s start end False 0) (\<lambda>(s', _). Inr s'))"

definition reserve_bootmem_node ::
  "bootmem_state \<Rightarrow> nat \<Rightarrow> u64 \<Rightarrow> u64 \<Rightarrow> nat \<Rightarrow> (bootmem_state \<times> int) run" where
  "reserve_bootmem_node s nid physaddr sz flags =
    (let start = PFN_DOWN physaddr;
         end = PFN_UP (u64_add physaddr sz)
     in run_bind (mark_bootmem_node (bootmem_node_data s ! nid) start end True flags)
          (\<lambda>(bd, err). Inr (s\<lparr>bootmem_node_data := (bootmem_node_data s)[nid := bd]\<rparr>, err)))"

definition reserve_bootmem :: "bootmem_state \<Rightarrow> u64 \<Rightarrow> u64 \<Rightarrow> nat \<Rightarrow> (bootmem_state \<times> int) run" where
  "reserve_bootmem s addr sz flags =
    (let start = PFN_DOWN addr;
         end = PFN_UP (u64_add addr sz)
     in mark_bootmem s start end True flags)"

declare clear_bits.simps [simp del] set_bits.simps [simp del]

subsection \<open>Bitmaps as sets of bits\<close>

lemma length_bm_set_bit [simp]: "length (bm_set_bit i m) = length m"
  by (simp add: bm_set_bit_def)

lemma length_bm_clear_bit [simp]: "length (bm_clear_bit i m) = length m"
  by (simp add: bm_clear_bit_def)

lemma bm_valid_iff: "bm_valid i m \<longleftrightarrow> i < 64 * length m"
  by (auto simp: bm_valid_def BITS_PER_LONG_def less_mult_imp_div_less
      mult.commute div_less_iff_less_mult)

lemma test_bm_set_bit:
  assumes "bm_valid i m"
  shows "test_bit j (bm_set_bit i m) \<longleftrightarrow> j = i \<or> test_bit j m"
proof (cases "j div 64 = i div 64")
  case True
  then have "j mod 64 = i mod 64 \<longleftrightarrow> j = i" by (metis div_mult_mod_eq)
  then show ?thesis
    using assms True
    by (auto simp: test_bit_def bm_set_bit_def bm_valid_def BITS_PER_LONG_def bit_set_bit_iff)
qed (auto simp: test_bit_def bm_set_bit_def BITS_PER_LONG_def)

lemma test_bm_clear_bit:
  assumes "bm_valid i m"
  shows "test_bit j (bm_clear_bit i m) \<longleftrightarrow> j \<noteq> i \<and> test_bit j m"
proof (cases "j div 64 = i div 64")
  case True
  then have "j mod 64 = i mod 64 \<longleftrightarrow> j = i" by (metis div_mult_mod_eq)
  then show ?thesis
    using assms True
    by (auto simp: test_bit_def bm_clear_bit_def bm_valid_def BITS_PER_LONG_def bit_unset_bit_iff)
qed (auto simp: test_bit_def bm_clear_bit_def BITS_PER_LONG_def)

lemma bm_eqI:
  assumes "length m = length m'" "\<And>i. i < 64 * length m \<Longrightarrow> test_bit i m = test_bit i m'"
  shows "m = m'"
proof (rule nth_equalityI [OF assms(1)])
  fix k assume k: "k < length m"
  show "m ! k = m' ! k"
  proof (rule bit_word_eqI)
    fix n assume n: "n < LENGTH(64)"
    have "test_bit (64 * k + n) m = test_bit (64 * k + n) m'"
      by (rule assms(2)) (use k n in simp)
    then show "bit (m ! k) n = bit (m' ! k) n"
      using n by (simp add: test_bit_def BITS_PER_LONG_def)
  qed
qed

lemma clear_bits_all:
  assumes "e \<le> 64 * length m" "\<And>i. s \<le> i \<Longrightarrow> i < e \<Longrightarrow> test_bit i m"
  shows "\<exists>m'. clear_bits m s e = Inr m' \<and> length m' = length m \<and>
    (\<forall>i. test_bit i m' \<longleftrightarrow> test_bit i m \<and> \<not> (s \<le> i \<and> i < e))"
  using assms
proof (induction m s e rule: clear_bits.induct)
  case (1 m s e)
  show ?case
  proof (cases "s < e")
    case True
    then have v: "bm_valid s m" and t: "test_bit s m" using "1.prems" by (auto simp: bm_valid_iff)
    have "\<exists>m'. clear_bits (bm_clear_bit s m) (s + 1) e = Inr m' \<and> length m' = length (bm_clear_bit s m) \<and>
      (\<forall>i. test_bit i m' \<longleftrightarrow> test_bit i (bm_clear_bit s m) \<and> \<not> (s + 1 \<le> i \<and> i < e))"
      by (rule "1.IH") (use True v t "1.prems" in \<open>auto simp: test_bm_clear_bit\<close>)
    then obtain m' where m': "clear_bits (bm_clear_bit s m) (s + 1) e = Inr m'" "length m' = length m"
      "\<And>i. test_bit i m' \<longleftrightarrow> test_bit i (bm_clear_bit s m) \<and> \<not> (s + 1 \<le> i \<and> i < e)" by auto
    have "test_bit i m' \<longleftrightarrow> test_bit i m \<and> \<not> (s \<le> i \<and> i < e)" for i
      unfolding m'(3) using v True by (cases "i = s") (auto simp: test_bm_clear_bit)
    moreover have "clear_bits m s e = Inr m'"
      using True v t m'(1) by (simp add: clear_bits.simps [of m s e])
    ultimately show ?thesis using m'(2) by blast
  qed (subst clear_bits.simps, auto)
qed

lemma clear_bits_bug:
  assumes "e \<le> 64 * length m" "s \<le> k" "k < e" "\<not> test_bit k m"
  shows "clear_bits m s e = Inl Bug_on"
  using assms
proof (induction m s e rule: clear_bits.induct)
  case (1 m s e)
  then have v: "bm_valid s m" by (simp add: bm_valid_iff)
  show ?case
  proof (cases "test_bit s m")
    case True
    then have "s \<noteq> k" using "1.prems" by blast
    then have "clear_bits (bm_clear_bit s m) (s + 1) e = Inl Bug_on"
      using "1.prems" v True by (intro "1.IH") (auto simp: test_bm_clear_bit)
    then show ?thesis using "1.prems" v True by (subst clear_bits.simps) simp
  qed (use "1.prems" v in \<open>subst clear_bits.simps, simp\<close>)
qed

lemma set_bits_free:
  assumes "e \<le> 64 * length m" "\<And>i. x \<Longrightarrow> s \<le> i \<Longrightarrow> i < e \<Longrightarrow> \<not> test_bit i m"
  shows "\<exists>m'. set_bits x m s e = Inr (m', None) \<and> length m' = length m \<and>
    (\<forall>i. test_bit i m' \<longleftrightarrow> test_bit i m \<or> s \<le> i \<and> i < e)"
  using assms
proof (induction x m s e rule: set_bits.induct)
  case (1 x m s e)
  show ?case
  proof (cases "s < e")
    case True
    then have v: "bm_valid s m" and t: "\<not> (test_bit s m \<and> x)" using "1.prems" by (auto simp: bm_valid_iff)
    have "\<exists>m'. set_bits x (bm_set_bit s m) (s + 1) e = Inr (m', None) \<and> length m' = length (bm_set_bit s m) \<and>
      (\<forall>i. test_bit i m' \<longleftrightarrow> test_bit i (bm_set_bit s m) \<or> s + 1 \<le> i \<and> i < e)"
      by (rule "1.IH") (use True v t "1.prems" in \<open>auto simp: test_bm_set_bit\<close>)
    then obtain m' where m': "set_bits x (bm_set_bit s m) (s + 1) e = Inr (m', None)" "length m' = length m"
      "\<And>i. test_bit i m' \<longleftrightarrow> test_bit i (bm_set_bit s m) \<or> s + 1 \<le> i \<and> i < e" by auto
    have "test_bit i m' \<longleftrightarrow> test_bit i m \<or> s \<le> i \<and> i < e" for i
      unfolding m'(3) using v True by (cases "i = s") (auto simp: test_bm_set_bit)
    moreover have "set_bits x m s e = Inr (m', None)"
      using True v t m'(1) by (auto simp: set_bits.simps [of x m s e])
    ultimately show ?thesis using m'(2) by blast
  qed (subst set_bits.simps, auto)
qed

lemma set_bits_busy:
  assumes "e \<le> 64 * length m" "s \<le> k" "k < e" "test_bit k m" "\<And>i. s \<le> i \<Longrightarrow> i < k \<Longrightarrow> \<not> test_bit i m"
  shows "\<exists>m'. set_bits True m s e = Inr (m', Some k) \<and> length m' = length m \<and>
    (\<forall>i. test_bit i m' \<longleftrightarrow> test_bit i m \<or> s \<le> i \<and> i < k)"
  using assms
proof (induction True m s e rule: set_bits.induct)
  case (1 m s e)
  then have v: "bm_valid s m" by (simp add: bm_valid_iff)
  show ?case
  proof (cases "s = k")
    case True
    then show ?thesis using "1.prems" v by (subst set_bits.simps) auto
  next
    case False
    then have t: "\<not> test_bit s m" using "1.prems" by auto
    have "\<exists>m'. set_bits True (bm_set_bit s m) (s + 1) e = Inr (m', Some k) \<and> length m' = length (bm_set_bit s m) \<and>
      (\<forall>i. test_bit i m' \<longleftrightarrow> test_bit i (bm_set_bit s m) \<or> s + 1 \<le> i \<and> i < k)"
      by (rule "1.hyps") (use "1.prems" v t False in \<open>auto simp: test_bm_set_bit\<close>)
    then obtain m' where m': "set_bits True (bm_set_bit s m) (s + 1) e = Inr (m', Some k)" "length m' = length m"
      "\<And>i. test_bit i m' \<longleftrightarrow> test_bit i (bm_set_bit s m) \<or> s + 1 \<le> i \<and> i < k" by auto
    have "test_bit i m' \<longleftrightarrow> test_bit i m \<or> s \<le> i \<and> i < k" for i
      unfolding m'(3) using v False "1.prems"(2) by (cases "i = s") (auto simp: test_bm_set_bit)
    moreover have "set_bits True m s e = Inr (m', Some k)"
      using "1.prems" v t m'(1) by (simp add: set_bits.simps [of True m s e])
    ultimately show ?thesis using m'(2) by blast
  qed
qed

subsection \<open>One node\<close>

text \<open>
  A node is well-formed when its bitmap has a bit for every page, the spare bits of the last word
  are set, and the two memos of the allocator point into the node.  Frame numbers are below
  \<open>2 ^ 40\<close>, the 52-bit physical address space of arm64.
\<close>

definition node_pages :: "bootmem_data \<Rightarrow> nat" where
  "node_pages bd = node_low_pfn bd - node_min_pfn bd"

definition wf_bdata :: "bootmem_data \<Rightarrow> bool" where
  "wf_bdata bd \<longleftrightarrow> node_min_pfn bd < node_low_pfn bd \<and> node_low_pfn bd \<le> 2 ^ 40 \<and>
    hint_idx bd \<le> node_pages bd \<and> last_end_off bd \<le> node_pages bd * PAGE_SIZE \<and>
    (case node_bootmem_map bd of None \<Rightarrow> True
     | Some (p, m) \<Rightarrow> length m = (node_pages bd + 63) div 64 \<and>
         (\<forall>i<64 * length m. node_pages bd \<le> i \<longrightarrow> test_bit i m))"

definition mapped :: "bootmem_data \<Rightarrow> bool" where
  "mapped bd \<longleftrightarrow> node_bootmem_map bd \<noteq> None"

definition in_node :: "bootmem_data \<Rightarrow> u64 \<Rightarrow> bool" where
  "in_node bd pfn \<longleftrightarrow> node_min_pfn bd \<le> pfn \<and> pfn < node_low_pfn bd"

definition pfn_reserved :: "bootmem_data \<Rightarrow> u64 \<Rightarrow> bool" where
  "pfn_reserved bd pfn =
    (case node_bootmem_map bd of None \<Rightarrow> False | Some (p, m) \<Rightarrow> test_bit (pfn - node_min_pfn bd) m)"

text \<open>
  \<open>marked bd bd' R\<close>: \<open>bd'\<close> differs from \<open>bd\<close> at most in a lower hint and in its bitmap, in which
  the reserved pages are those that \<open>R\<close> holds of.
\<close>

definition marked :: "bootmem_data \<Rightarrow> bootmem_data \<Rightarrow> (u64 \<Rightarrow> bool) \<Rightarrow> bool" where
  "marked bd bd' R \<longleftrightarrow> (\<exists>h m. bd' = bd\<lparr>hint_idx := h, node_bootmem_map := m\<rparr> \<and> h \<le> hint_idx bd) \<and>
    mapped bd' \<and> wf_bdata bd' \<and> (\<forall>pfn. in_node bd pfn \<longrightarrow> (pfn_reserved bd' pfn \<longleftrightarrow> R pfn))"

lemma pfn_lim: "n \<le> 2 ^ 40 \<Longrightarrow> n < u64_lim"
  by (simp add: u64_lim_def)

lemma map_covers: "wf_bdata bd \<Longrightarrow> node_bootmem_map bd = Some (p, m) \<Longrightarrow> node_pages bd \<le> 64 * length m"
  by (simp add: wf_bdata_def)

lemma markedI:
  assumes "wf_bdata bd" "node_bootmem_map bd = Some (p, m)" "h \<le> hint_idx bd" "length m' = length m"
    "\<And>i. node_pages bd \<le> i \<Longrightarrow> i < 64 * length m \<Longrightarrow> test_bit i m' = test_bit i m"
    "\<And>i. i < node_pages bd \<Longrightarrow> test_bit i m' \<longleftrightarrow> R (node_min_pfn bd + i)"
  shows "marked bd (bd\<lparr>hint_idx := h, node_bootmem_map := Some (p, m')\<rparr>) R"
proof -
  have "pfn_reserved (bd\<lparr>hint_idx := h, node_bootmem_map := Some (p, m')\<rparr>) pfn = R pfn"
    if "in_node bd pfn" for pfn
    using that assms(6) [of "pfn - node_min_pfn bd"]
    by (auto simp: pfn_reserved_def in_node_def node_pages_def)
  then show ?thesis
    using assms(1-5) by (auto simp: marked_def mapped_def wf_bdata_def node_pages_def)
qed

lemma free_bits_spec:
  assumes "wf_bdata bd" "node_bootmem_map bd = Some (p, m)" "e \<le> node_pages bd"
    "\<And>i. s \<le> i \<Longrightarrow> i < e \<Longrightarrow> test_bit i m"
  shows "\<exists>m'. bootmem_free_bits bd s e =
      Inr (bd\<lparr>hint_idx := min (hint_idx bd) s, node_bootmem_map := Some (p, m')\<rparr>) \<and>
    length m' = length m \<and> (\<forall>i. test_bit i m' \<longleftrightarrow> test_bit i m \<and> \<not> (s \<le> i \<and> i < e))"
proof -
  have "e \<le> 64 * length m" using map_covers [OF assms(1,2)] assms(3) by simp
  from clear_bits_all [OF this assms(4)] obtain m' where
    "clear_bits m s e = Inr m'" "length m' = length m"
    "\<forall>i. test_bit i m' \<longleftrightarrow> test_bit i m \<and> \<not> (s \<le> i \<and> i < e)" by blast
  then show ?thesis
    using assms(2) by (intro exI [of _ m']) (auto simp: bootmem_free_bits_def min_def)
qed

lemma node_idx:
  assumes "wf_bdata bd" "node_min_pfn bd \<le> a" "a \<le> node_low_pfn bd"
  shows "u64_sub a (node_min_pfn bd) = a - node_min_pfn bd"
proof (rule u64_sub_eq [OF assms(2)])
  have "a \<le> 2 ^ 40" using assms unfolding wf_bdata_def by linarith
  then show "a < u64_lim" by (rule pfn_lim)
qed

lemma mark_node_idx:
  assumes "wf_bdata bd" "node_min_pfn bd \<le> a" "a \<le> b" "b \<le> node_low_pfn bd"
  shows "mark_bootmem_node bd a b reserve flags =
    (if reserve then bootmem_reserve_bits bd (a - node_min_pfn bd) (b - node_min_pfn bd) flags
     else run_bind (bootmem_free_bits bd (a - node_min_pfn bd) (b - node_min_pfn bd)) (\<lambda>bd'. Inr (bd', 0)))"
  using assms node_idx [of bd a] node_idx [of bd b] by (simp add: mark_bootmem_node_def)

lemma reserved_idx:
  "node_bootmem_map bd = Some (p, m) \<Longrightarrow> test_bit i m \<longleftrightarrow> pfn_reserved bd (node_min_pfn bd + i)"
  by (simp add: pfn_reserved_def)

lemma hint_same: "bd\<lparr>hint_idx := hint_idx bd, node_bootmem_map := x\<rparr> = bd\<lparr>node_bootmem_map := x\<rparr>"
  by (cases bd) simp

lemma reserve_node_ok:
  assumes "wf_bdata bd" "mapped bd" "node_min_pfn bd \<le> a" "a \<le> b" "b \<le> node_low_pfn bd"
    "flags AND BOOTMEM_EXCLUSIVE \<noteq> 0 \<longrightarrow> (\<forall>q. a \<le> q \<and> q < b \<longrightarrow> \<not> pfn_reserved bd q)"
  shows "\<exists>bd'. mark_bootmem_node bd a b True flags = Inr (bd', 0) \<and>
    marked bd bd' (\<lambda>q. pfn_reserved bd q \<or> a \<le> q \<and> q < b)"
proof -
  let ?n = "node_min_pfn bd"
  obtain p m where m: "node_bootmem_map bd = Some (p, m)" using assms(2) by (auto simp: mapped_def)
  have np: "b - ?n \<le> node_pages bd" using assms by (simp add: node_pages_def)
  then have e: "b - ?n \<le> 64 * length m" using map_covers [OF assms(1) m] by simp
  have clear: "\<not> test_bit i m"
    if "flags AND BOOTMEM_EXCLUSIVE \<noteq> 0" "a - ?n \<le> i" "i < b - ?n" for i
  proof -
    have "a \<le> ?n + i" "?n + i < b" using that(2,3) assms(3) by linarith+
    then show ?thesis using that(1) assms(6) by (simp add: reserved_idx [OF m])
  qed
  obtain m' where m': "set_bits (flags AND BOOTMEM_EXCLUSIVE \<noteq> 0) m (a - ?n) (b - ?n) = Inr (m', None)"
    "length m' = length m" "\<And>i. test_bit i m' \<longleftrightarrow> test_bit i m \<or> a - ?n \<le> i \<and> i < b - ?n"
    using set_bits_free [OF e clear] by blast
  have marked: "marked bd (bd\<lparr>hint_idx := hint_idx bd, node_bootmem_map := Some (p, m')\<rparr>)
      (\<lambda>q. pfn_reserved bd q \<or> a \<le> q \<and> q < b)"
  proof (rule markedI [OF assms(1) m order.refl m'(2)])
    show "test_bit i m' = test_bit i m" if "node_pages bd \<le> i" for i
      using that np by (simp add: m'(3))
    show "test_bit i m' \<longleftrightarrow> pfn_reserved bd (?n + i) \<or> a \<le> ?n + i \<and> ?n + i < b" for i
      unfolding m'(3) reserved_idx [OF m] le_diff_conv less_diff_conv add.commute [of i] ..
  qed
  have run: "mark_bootmem_node bd a b True flags = Inr (bd\<lparr>node_bootmem_map := Some (p, m')\<rparr>, 0)"
    using m m'(1) by (simp add: mark_node_idx [OF assms(1,3-5)] bootmem_reserve_bits_def)
  show ?thesis using marked unfolding hint_same by (intro exI conjI) (rule run)
qed

lemma reserve_node_busy:
  assumes "wf_bdata bd" "mapped bd" "node_min_pfn bd \<le> a" "b \<le> node_low_pfn bd"
    "flags AND BOOTMEM_EXCLUSIVE \<noteq> 0" "a \<le> q" "q < b" "pfn_reserved bd q"
  shows "\<exists>bd'. mark_bootmem_node bd a b True flags = Inr (bd', - EBUSY) \<and>
    node_bootmem_map bd' = node_bootmem_map bd \<and> marked bd bd' (pfn_reserved bd)"
proof -
  let ?n = "node_min_pfn bd"
  obtain p m where m: "node_bootmem_map bd = Some (p, m)" using assms(2) by (auto simp: mapped_def)
  have np: "b - ?n \<le> node_pages bd" using assms by (simp add: node_pages_def)
  then have e: "b - ?n \<le> 64 * length m" using map_covers [OF assms(1) m] by simp
  define k where "k = (LEAST i. a - ?n \<le> i \<and> test_bit i m)"
  have ex: "a - ?n \<le> q - ?n \<and> test_bit (q - ?n) m"
    using assms(3,6,8) by (simp add: reserved_idx [OF m])
  then have k: "a - ?n \<le> k" "test_bit k m" "k \<le> q - ?n"
    unfolding k_def by (metis (mono_tags, lifting) LeastI Least_le)+
  have below: "\<not> test_bit i m" if "a - ?n \<le> i" "i < k" for i
    using that not_less_Least unfolding k_def by blast
  have ke: "k < b - ?n" using k(3) assms(3,6,7) by linarith
  obtain m1 where m1: "set_bits True m (a - ?n) (b - ?n) = Inr (m1, Some k)" "length m1 = length m"
    "\<And>i. test_bit i m1 \<longleftrightarrow> test_bit i m \<or> a - ?n \<le> i \<and> i < k"
    using set_bits_busy [OF e k(1) ke k(2) below] by blast
  let ?bd1 = "bd\<lparr>node_bootmem_map := Some (p, m1)\<rparr>"
  have wf1: "wf_bdata ?bd1"
    using assms(1) m m1(2,3) by (auto simp: wf_bdata_def node_pages_def)
  have "\<exists>m2. bootmem_free_bits ?bd1 (a - ?n) k =
      Inr (?bd1\<lparr>hint_idx := min (hint_idx ?bd1) (a - ?n), node_bootmem_map := Some (p, m2)\<rparr>) \<and>
    length m2 = length m1 \<and> (\<forall>i. test_bit i m2 \<longleftrightarrow> test_bit i m1 \<and> \<not> (a - ?n \<le> i \<and> i < k))"
    by (rule free_bits_spec [OF wf1]) (use m1(3) ke np in \<open>simp_all add: node_pages_def\<close>)
  then obtain m2 where m2: "bootmem_free_bits ?bd1 (a - ?n) k =
      Inr (?bd1\<lparr>hint_idx := min (hint_idx ?bd1) (a - ?n), node_bootmem_map := Some (p, m2)\<rparr>)"
    "length m2 = length m1" "\<And>i. test_bit i m2 \<longleftrightarrow> test_bit i m1 \<and> \<not> (a - ?n \<le> i \<and> i < k)" by blast
  have "m2 = m" by (rule bm_eqI) (use m2(2,3) m1(2,3) below in auto)
  then have run: "mark_bootmem_node bd a b True flags =
      Inr (bd\<lparr>hint_idx := min (hint_idx bd) (a - ?n), node_bootmem_map := Some (p, m)\<rparr>, - EBUSY)"
    using m m1(1) m2(1) assms(4-7)
    by (simp add: mark_node_idx [OF assms(1,3)] bootmem_reserve_bits_def)
  have "marked bd (bd\<lparr>hint_idx := min (hint_idx bd) (a - ?n), node_bootmem_map := Some (p, m)\<rparr>) (pfn_reserved bd)"
    by (rule markedI [OF assms(1) m]) (simp_all add: reserved_idx [OF m])
  then show ?thesis using run m by (intro exI conjI) simp_all
qed

lemma free_node_ok:
  assumes "wf_bdata bd" "mapped bd" "node_min_pfn bd \<le> a" "a \<le> b" "b \<le> node_low_pfn bd"
    "\<And>q. a \<le> q \<Longrightarrow> q < b \<Longrightarrow> pfn_reserved bd q"
  shows "\<exists>bd'. mark_bootmem_node bd a b False flags = Inr (bd', 0) \<and>
    marked bd bd' (\<lambda>q. pfn_reserved bd q \<and> \<not> (a \<le> q \<and> q < b))"
proof -
  let ?n = "node_min_pfn bd"
  obtain p m where m: "node_bootmem_map bd = Some (p, m)" using assms(2) by (auto simp: mapped_def)
  have np: "b - ?n \<le> node_pages bd" using assms by (simp add: node_pages_def)
  have full: "test_bit i m" if "a - ?n \<le> i" "i < b - ?n" for i
  proof -
    have "a \<le> ?n + i" "?n + i < b" using that assms(3) by linarith+
    then show ?thesis using assms(6) by (simp add: reserved_idx [OF m])
  qed
  obtain m' where m': "bootmem_free_bits bd (a - ?n) (b - ?n) =
      Inr (bd\<lparr>hint_idx := min (hint_idx bd) (a - ?n), node_bootmem_map := Some (p, m')\<rparr>)"
    "length m' = length m" "\<And>i. test_bit i m' \<longleftrightarrow> test_bit i m \<and> \<not> (a - ?n \<le> i \<and> i < b - ?n)"
    using free_bits_spec [OF assms(1) m np full] by blast
  have "marked bd (bd\<lparr>hint_idx := min (hint_idx bd) (a - ?n), node_bootmem_map := Some (p, m')\<rparr>)
      (\<lambda>q. pfn_reserved bd q \<and> \<not> (a \<le> q \<and> q < b))"
  proof (rule markedI [OF assms(1) m min.cobounded1 m'(2)])
    show "test_bit i m' = test_bit i m" if "node_pages bd \<le> i" for i
      using that np by (simp add: m'(3))
    show "test_bit i m' \<longleftrightarrow> pfn_reserved bd (?n + i) \<and> \<not> (a \<le> ?n + i \<and> ?n + i < b)" for i
      unfolding m'(3) reserved_idx [OF m] le_diff_conv less_diff_conv add.commute [of i] ..
  qed
  then show ?thesis
    using m'(1) by (simp add: mark_node_idx [OF assms(1,3-5)])
qed

lemma free_node_bug:
  assumes "wf_bdata bd" "mapped bd" "node_min_pfn bd \<le> a" "b \<le> node_low_pfn bd"
    "a \<le> q" "q < b" "\<not> pfn_reserved bd q"
  shows "mark_bootmem_node bd a b False flags = Inl Bug_on"
proof -
  let ?n = "node_min_pfn bd"
  obtain p m where m: "node_bootmem_map bd = Some (p, m)" using assms(2) by (auto simp: mapped_def)
  have "b - ?n \<le> 64 * length m"
    using map_covers [OF assms(1) m] assms by (simp add: node_pages_def)
  then have "clear_bits m (a - ?n) (b - ?n) = Inl Bug_on"
    by (rule clear_bits_bug [of _ _ _ "q - ?n"])
      (use assms(3,5-7) in \<open>auto simp: reserved_idx [OF m]\<close>)
  then show ?thesis
    using m assms(4-6) by (simp add: mark_node_idx [OF assms(1,3)] bootmem_free_bits_def)
qed

text \<open>
  The two directions in one statement: a range that is refused, because an exclusive reservation
  meets a reserved page, leaves the reserved pages as they were; any other call marks the range.
\<close>

definition refused :: "bootmem_data \<Rightarrow> u64 \<Rightarrow> u64 \<Rightarrow> bool \<Rightarrow> nat \<Rightarrow> bool" where
  "refused bd a b reserve flags \<longleftrightarrow> reserve \<and> flags AND BOOTMEM_EXCLUSIVE \<noteq> 0 \<and>
    (\<exists>q. a \<le> q \<and> q < b \<and> in_node bd q \<and> pfn_reserved bd q)"

definition remark :: "bool \<Rightarrow> u64 \<Rightarrow> u64 \<Rightarrow> bootmem_data \<Rightarrow> u64 \<Rightarrow> bool" where
  "remark reserve a b bd q = (if a \<le> q \<and> q < b then reserve else pfn_reserved bd q)"

lemma marked_cong:
  "marked bd bd' R \<Longrightarrow> (\<And>q. in_node bd q \<Longrightarrow> R q \<longleftrightarrow> R' q) \<Longrightarrow> marked bd bd' R'"
  by (simp add: marked_def)

lemma marked_refl: "wf_bdata bd \<Longrightarrow> mapped bd \<Longrightarrow> marked bd bd (pfn_reserved bd)"
  unfolding marked_def by (intro conjI exI [of _ "hint_idx bd"] exI [of _ "node_bootmem_map bd"]) auto

lemma marked_range:
  assumes "marked bd bd' R"
  shows "node_min_pfn bd' = node_min_pfn bd" "node_low_pfn bd' = node_low_pfn bd" "in_node bd' = in_node bd"
  using assms by (auto simp: marked_def in_node_def)

lemma mark_node_spec:
  assumes "wf_bdata bd" "mapped bd" "node_min_pfn bd \<le> a" "a \<le> b" "b \<le> node_low_pfn bd"
    and "\<not> reserve \<Longrightarrow> \<forall>q. a \<le> q \<and> q < b \<longrightarrow> pfn_reserved bd q"
  shows "\<exists>bd'. mark_bootmem_node bd a b reserve flags =
      Inr (bd', if refused bd a b reserve flags then - EBUSY else 0) \<and>
    marked bd bd' (if refused bd a b reserve flags then pfn_reserved bd else remark reserve a b bd)"
proof (cases "refused bd a b reserve flags")
  case True
  then obtain q where q: "reserve" "flags AND BOOTMEM_EXCLUSIVE \<noteq> 0" "a \<le> q" "q < b" "pfn_reserved bd q"
    by (auto simp: refused_def)
  from reserve_node_busy [OF assms(1-3,5) q(2-)] obtain bd' where
    "mark_bootmem_node bd a b True flags = Inr (bd', - EBUSY)" "marked bd bd' (pfn_reserved bd)" by blast
  then show ?thesis using True q(1) by (intro exI [of _ bd']) simp
next
  case False
  show ?thesis
  proof (cases reserve)
    case True
    have "flags AND BOOTMEM_EXCLUSIVE \<noteq> 0 \<longrightarrow> (\<forall>q. a \<le> q \<and> q < b \<longrightarrow> \<not> pfn_reserved bd q)"
      using False True assms(3,5) by (fastforce simp: refused_def in_node_def)
    from reserve_node_ok [OF assms(1-5) this] obtain bd' where
      r: "mark_bootmem_node bd a b True flags = Inr (bd', 0)"
      "marked bd bd' (\<lambda>q. pfn_reserved bd q \<or> a \<le> q \<and> q < b)" by blast
    have "marked bd bd' (remark reserve a b bd)"
      by (rule marked_cong [OF r(2)]) (auto simp: remark_def True)
    then show ?thesis using r(1) True False by (intro exI [of _ bd']) simp
  next
    case f: False
    then have "\<And>q. a \<le> q \<Longrightarrow> q < b \<Longrightarrow> pfn_reserved bd q" using assms(6) by blast
    from free_node_ok [OF assms(1-5) this] obtain bd' where
      r: "mark_bootmem_node bd a b False flags = Inr (bd', 0)"
      "marked bd bd' (\<lambda>q. pfn_reserved bd q \<and> \<not> (a \<le> q \<and> q < b))" by blast
    have "marked bd bd' (remark reserve a b bd)"
      by (rule marked_cong [OF r(2)]) (auto simp: remark_def f)
    then show ?thesis using r(1) f False by (intro exI [of _ bd']) simp
  qed
qed

subsection \<open>All nodes\<close>

definition node_before :: "bootmem_data list \<Rightarrow> nat \<Rightarrow> nat \<Rightarrow> bool" where
  "node_before nodes i j \<longleftrightarrow> node_low_pfn (nodes ! i) \<le> node_min_pfn (nodes ! j)"

text \<open>The nodes on the list: in the order of their addresses, each with its bitmap.\<close>

definition wf_nodes :: "bootmem_data list \<Rightarrow> nat list \<Rightarrow> bool" where
  "wf_nodes nodes ns \<longleftrightarrow> distinct ns \<and> sorted_wrt (node_before nodes) ns \<and>
    (\<forall>n\<in>set ns. n < length nodes \<and> wf_bdata (nodes ! n) \<and> mapped (nodes ! n))"

definition on_nodes :: "bootmem_data list \<Rightarrow> nat list \<Rightarrow> u64 \<Rightarrow> bool" where
  "on_nodes nodes ns q \<longleftrightarrow> (\<exists>n\<in>set ns. in_node (nodes ! n) q)"

definition nodes_marked ::
  "bootmem_data list \<Rightarrow> bootmem_data list \<Rightarrow> nat list \<Rightarrow> (bootmem_data \<Rightarrow> u64 \<Rightarrow> bool) \<Rightarrow> bool" where
  "nodes_marked nodes nodes' ns R \<longleftrightarrow> length nodes' = length nodes \<and>
    (\<forall>n. n \<notin> set ns \<longrightarrow> nodes' ! n = nodes ! n) \<and>
    (\<forall>n\<in>set ns. marked (nodes ! n) (nodes' ! n) (R (nodes ! n)))"

definition page_reserved :: "bootmem_data list \<Rightarrow> nat list \<Rightarrow> u64 \<Rightarrow> bool" where
  "page_reserved nodes ns q \<longleftrightarrow> (\<exists>n\<in>set ns. in_node (nodes ! n) q \<and> pfn_reserved (nodes ! n) q)"

lemma wf_nodes_Cons:
  "wf_nodes nodes (n # ns) \<longleftrightarrow> n \<notin> set ns \<and> n < length nodes \<and> wf_bdata (nodes ! n) \<and> mapped (nodes ! n) \<and>
    (\<forall>k\<in>set ns. node_before nodes n k) \<and> wf_nodes nodes ns"
  by (auto simp: wf_nodes_def)

lemma before_cong:
  assumes "sorted_wrt (node_before nodes) ns"
    "\<And>n. n \<in> set ns \<Longrightarrow> node_min_pfn (nodes' ! n) = node_min_pfn (nodes ! n)"
    "\<And>n. n \<in> set ns \<Longrightarrow> node_low_pfn (nodes' ! n) = node_low_pfn (nodes ! n)"
  shows "sorted_wrt (node_before nodes') ns"
  by (rule sorted_wrt_mono_rel [OF _ assms(1)]) (simp add: node_before_def assms(2,3))

lemma wf_nodes_cong:
  assumes "wf_nodes nodes ns" "length nodes' = length nodes" "\<And>n. n \<in> set ns \<Longrightarrow> nodes' ! n = nodes ! n"
  shows "wf_nodes nodes' ns"
  using assms before_cong [of nodes ns nodes'] by (simp add: wf_nodes_def)

lemma nodes_marked_refl:
  "wf_nodes nodes ns \<Longrightarrow> nodes_marked nodes nodes ns pfn_reserved"
  by (simp add: nodes_marked_def wf_nodes_def marked_refl)

lemma nodes_marked_cong:
  assumes "nodes_marked nodes nodes' ns R"
    "\<And>n q. n \<in> set ns \<Longrightarrow> in_node (nodes ! n) q \<Longrightarrow> R (nodes ! n) q \<longleftrightarrow> R' (nodes ! n) q"
  shows "nodes_marked nodes nodes' ns R'"
proof -
  have "marked (nodes ! n) (nodes' ! n) (R' (nodes ! n))" if "n \<in> set ns" for n
    by (rule marked_cong [of _ _ "R (nodes ! n)"]) (use assms that in \<open>simp_all add: nodes_marked_def\<close>)
  then show ?thesis using assms(1) by (simp add: nodes_marked_def)
qed

lemma nodes_marked_Cons:
  assumes "nodes_marked (nodes[n := bd']) nodes' ns R" "n \<notin> set ns" "n < length nodes"
    "marked (nodes ! n) bd' (R (nodes ! n))"
  shows "nodes_marked nodes nodes' (n # ns) R"
proof -
  have "(nodes[n := bd']) ! k = nodes ! k" if "k \<in> set ns" for k
    using that assms(2) by (metis nth_list_update_neq)
  then have "\<forall>k\<in>set ns. marked (nodes ! k) (nodes' ! k) (R (nodes ! k))"
    using assms(1) by (simp add: nodes_marked_def)
  then show ?thesis using assms by (simp add: nodes_marked_def)
qed

lemma nodes_marked_wf:
  assumes "nodes_marked nodes nodes' ns R" "wf_nodes nodes ns"
  shows "wf_nodes nodes' ns"
proof -
  have m: "marked (nodes ! n) (nodes' ! n) (R (nodes ! n))" if "n \<in> set ns" for n
    using assms(1) that by (simp add: nodes_marked_def)
  have "sorted_wrt (node_before nodes') ns"
    by (rule before_cong [of nodes])
      (use assms(2) marked_range(1,2) [OF m] in \<open>simp_all add: wf_nodes_def\<close>)
  moreover have "\<forall>n\<in>set ns. n < length nodes' \<and> wf_bdata (nodes' ! n) \<and> mapped (nodes' ! n)"
    using m assms by (simp add: marked_def wf_nodes_def nodes_marked_def)
  ultimately show ?thesis using assms(2) by (simp add: wf_nodes_def)
qed

end
