(* ===== verification/Bootmem_Nodes.thy ===== *)
theory Bootmem_Nodes
  imports Bootmem
begin

text \<open>
  Marking a range that may span nodes: the walk of \<^verbatim>\<open>mark_bootmem\<close> over \<^verbatim>\<open>bdata_list\<close>, with the
  roll-back of an exclusive reservation that meets a reserved page.
\<close>

lemma refused_mono: "refused bd a b reserve flags \<Longrightarrow> a' \<le> a \<Longrightarrow> b \<le> b' \<Longrightarrow> refused bd a' b' reserve flags"
  unfolding refused_def by (meson order_less_le_trans order_trans)

lemma refused_outside:
  assumes "node_low_pfn bd \<le> a \<or> b \<le> node_min_pfn bd"
  shows "\<not> refused bd a b reserve flags"
  using assms by (auto simp: refused_def in_node_def)

lemma refused_clip:
  "refused bd a b reserve flags \<longleftrightarrow> refused bd a (min (node_low_pfn bd) b) reserve flags"
  by (auto simp: refused_def in_node_def)

lemma remark_outside:
  assumes "in_node bd q" "node_low_pfn bd \<le> a \<or> b \<le> node_min_pfn bd"
  shows "remark reserve a b bd q = pfn_reserved bd q"
  using assms by (auto simp: remark_def in_node_def)

text \<open>
  What the walk over the nodes \<open>ns\<close> answers from position \<open>pos\<close> on: either the whole range is
  marked and no node refused, or the walk stopped at position \<open>q\<close> and everything before \<open>q\<close> is
  marked.
\<close>

definition walk_outcome ::
  "bool \<Rightarrow> nat \<Rightarrow> u64 \<Rightarrow> bootmem_data list \<Rightarrow> nat list \<Rightarrow> u64 \<Rightarrow> bootmem_data list \<Rightarrow> (int \<times> u64) option \<Rightarrow> bool" where
  "walk_outcome reserve flags end nodes ns pos nodes' r =
    (case r of
       None \<Rightarrow> (\<forall>n\<in>set ns. \<not> refused (nodes ! n) pos end reserve flags) \<and>
         nodes_marked nodes nodes' ns (remark reserve pos end)
     | Some (err, q) \<Rightarrow> err = - EBUSY \<and> pos \<le> q \<and> q < end \<and> on_nodes nodes ns q \<and>
         (\<exists>n\<in>set ns. refused (nodes ! n) pos end reserve flags) \<and>
         (\<forall>n\<in>set ns. \<not> refused (nodes ! n) pos q reserve flags) \<and>
         nodes_marked nodes nodes' ns (remark reserve pos q))"

lemma wf_nodes_head:
  assumes "wf_nodes nodes (n # ns)"
  shows "n \<notin> set ns" "n < length nodes" "wf_bdata (nodes ! n)" "mapped (nodes ! n)" "wf_nodes nodes ns"
    "\<And>k. k \<in> set ns \<Longrightarrow> node_low_pfn (nodes ! n) \<le> node_min_pfn (nodes ! k)"
    "\<And>k. k \<in> set ns \<Longrightarrow> (nodes[n := bd]) ! k = nodes ! k"
    "wf_nodes (nodes[n := bd]) ns"
proof -
  show w: "n \<notin> set ns" "n < length nodes" "wf_bdata (nodes ! n)" "mapped (nodes ! n)" "wf_nodes nodes ns"
    "\<And>k. k \<in> set ns \<Longrightarrow> node_low_pfn (nodes ! n) \<le> node_min_pfn (nodes ! k)"
    using assms by (auto simp: wf_nodes_Cons node_before_def)
  show same: "(nodes[n := bd]) ! k = nodes ! k" if "k \<in> set ns" for k
    using that w(1) by (metis nth_list_update_neq)
  show "wf_nodes (nodes[n := bd]) ns" by (rule wf_nodes_cong [OF w(5)]) (simp_all add: same)
qed

lemma walk_skip:
  assumes "wf_nodes nodes (n # ns)" "node_low_pfn (nodes ! n) \<le> pos"
    "walk_outcome reserve flags end nodes ns pos nodes' r"
  shows "walk_outcome reserve flags end nodes (n # ns) pos nodes' r"
proof -
  note wf = wf_nodes_head [OF assms(1)]
  have "nodes_marked nodes nodes' (n # ns) (remark reserve pos e)"
    if "nodes_marked nodes nodes' ns (remark reserve pos e)" for e
  proof (rule nodes_marked_Cons [of nodes n "nodes ! n"])
    show "nodes_marked (nodes[n := nodes ! n]) nodes' ns (remark reserve pos e)" using that by simp
    show "marked (nodes ! n) (nodes ! n) (remark reserve pos e (nodes ! n))"
      by (rule marked_cong [OF marked_refl [OF wf(3,4)]]) (simp add: remark_outside assms(2))
  qed (use wf in auto)
  moreover have "\<not> refused (nodes ! n) pos e reserve flags" for e
    by (rule refused_outside) (simp add: assms(2))
  ultimately show ?thesis
    using assms(3) by (auto simp: walk_outcome_def on_nodes_def split: option.splits prod.splits)
qed

lemma marked_head_unchanged:
  assumes "wf_nodes nodes (n # ns)" "marked (nodes ! n) bd' (R (nodes ! n))"
    "\<And>k q. k \<in> set ns \<Longrightarrow> in_node (nodes ! k) q \<Longrightarrow> R (nodes ! k) q = pfn_reserved (nodes ! k) q"
  shows "nodes_marked nodes (nodes[n := bd']) (n # ns) R"
proof (rule nodes_marked_Cons [where R = R])
  note wf = wf_nodes_head [OF assms(1)]
  show "nodes_marked (nodes[n := bd']) (nodes[n := bd']) ns R"
    by (rule nodes_marked_cong [OF nodes_marked_refl [OF wf(8)]]) (simp add: wf(7) assms(3))
qed (use wf_nodes_head(1,2) [OF assms(1)] assms(2) in auto)

lemma walk_refused:
  assumes "wf_nodes nodes (n # ns)" "in_node (nodes ! n) pos" "refused (nodes ! n) pos end reserve flags"
    "marked (nodes ! n) bd' (pfn_reserved (nodes ! n))"
  shows "walk_outcome reserve flags end nodes (n # ns) pos (nodes[n := bd']) (Some (- EBUSY, pos))"
proof -
  have "remark reserve pos pos bd = pfn_reserved bd" for bd by (rule ext) (auto simp: remark_def)
  then have "nodes_marked nodes (nodes[n := bd']) (n # ns) (remark reserve pos pos)"
    using marked_head_unchanged [OF assms(1), of bd' "remark reserve pos pos"] assms(4) by simp
  moreover have "pos < end" using assms(3) by (auto simp: refused_def)
  ultimately show ?thesis using assms by (auto simp: walk_outcome_def on_nodes_def refused_def)
qed

lemma walk_last:
  assumes "wf_nodes nodes (n # ns)" "end \<le> node_low_pfn (nodes ! n)" "\<not> refused (nodes ! n) pos end reserve flags"
    "marked (nodes ! n) bd' (remark reserve pos end (nodes ! n))"
  shows "walk_outcome reserve flags end nodes (n # ns) pos (nodes[n := bd']) None"
proof -
  have out: "end \<le> node_min_pfn (nodes ! k)" if "k \<in> set ns" for k
    using wf_nodes_head(6) [OF assms(1) that] assms(2) by simp
  have "nodes_marked nodes (nodes[n := bd']) (n # ns) (remark reserve pos end)"
    by (rule marked_head_unchanged [where R = "remark reserve pos end", OF assms(1,4)])
      (simp add: out remark_outside)
  moreover have "\<not> refused (nodes ! k) pos end reserve flags" if "k \<in> set (n # ns)" for k
    using that assms(3) out by (auto simp: refused_outside)
  ultimately show ?thesis by (simp add: walk_outcome_def)
qed

lemma walk_next:
  assumes "wf_nodes nodes (n # ns)" "pos \<le> node_low_pfn (nodes ! n)"
    "\<not> refused (nodes ! n) pos (node_low_pfn (nodes ! n)) reserve flags"
    "marked (nodes ! n) bd' (remark reserve pos (node_low_pfn (nodes ! n)) (nodes ! n))"
    "walk_outcome reserve flags end (nodes[n := bd']) ns (node_low_pfn (nodes ! n)) nodes' r"
    "node_low_pfn (nodes ! n) < end"
  shows "walk_outcome reserve flags end nodes (n # ns) pos nodes' r"
proof -
  let ?low = "node_low_pfn (nodes ! n)"
  note wf = wf_nodes_head [OF assms(1)]
  have nref: "\<not> refused (nodes ! n) pos e reserve flags" for e
    using assms(3) by (auto simp: refused_def in_node_def)
  have ref: "refused (nodes ! k) pos e reserve flags \<longleftrightarrow> refused ((nodes[n := bd']) ! k) ?low e reserve flags"
    if "k \<in> set ns" for k e
  proof -
    have "pos \<le> q \<and> ?low \<le> q" if "in_node (nodes ! k) q" for q
      using wf(6) [OF \<open>k \<in> set ns\<close>] assms(2) that by (auto simp: in_node_def)
    then show ?thesis unfolding refused_def wf(7) [OF that] by blast
  qed
  have rem: "remark reserve ?low e (nodes ! k) q = remark reserve pos e (nodes ! k) q"
    if "k \<in> set ns" "in_node (nodes ! k) q" for k e q
    using wf(6) [OF that(1)] that(2) assms(2) by (auto simp: remark_def in_node_def)
  have marks: "nodes_marked nodes nodes' (n # ns) (remark reserve pos e)"
    if "nodes_marked (nodes[n := bd']) nodes' ns (remark reserve ?low e)" "?low \<le> e" for e
  proof (rule nodes_marked_Cons [OF _ wf(1,2)])
    show "nodes_marked (nodes[n := bd']) nodes' ns (remark reserve pos e)"
      by (rule nodes_marked_cong [OF that(1)]) (simp add: wf(7) rem)
    show "marked (nodes ! n) bd' (remark reserve pos e (nodes ! n))"
      by (rule marked_cong [OF assms(4)]) (use that(2) in \<open>auto simp: remark_def in_node_def\<close>)
  qed
  have on: "on_nodes nodes (n # ns) q" if "on_nodes (nodes[n := bd']) ns q" for q
    using that wf(7) by (auto simp: on_nodes_def)
  show ?thesis
  proof (cases r)
    case None
    then show ?thesis using assms(5,6) nref ref marks by (auto simp: walk_outcome_def)
  next
    case (Some eq)
    then show ?thesis using assms(2,5) nref ref marks on by (auto simp: walk_outcome_def)
  qed
qed

lemma next_node:
  assumes "wf_nodes nodes (n # ns)" "on_nodes (nodes[n := bd]) ns (node_low_pfn (nodes ! n))"
  shows "in_node (nodes[n := bd] ! hd ns) (node_low_pfn (nodes ! n))"
proof (cases ns)
  case Nil
  then show ?thesis using assms(2) by (simp add: on_nodes_def)
next
  case (Cons h hs)
  note wf = wf_nodes_head [OF assms(1)]
  have tail: "wf_nodes nodes (h # hs)" using wf(5) Cons by simp
  have h: "node_low_pfn (nodes ! n) \<le> node_min_pfn (nodes ! h)" "node_min_pfn (nodes ! h) < node_low_pfn (nodes ! h)"
    using wf(6) [of h] wf_nodes_head(3) [OF tail] Cons by (simp_all add: wf_bdata_def)
  obtain k where k: "k \<in> set ns" "in_node (nodes ! k) (node_low_pfn (nodes ! n))"
    using assms(2) wf(7) by (auto simp: on_nodes_def)
  have "k = h"
  proof (rule ccontr)
    assume "k \<noteq> h"
    then have "node_low_pfn (nodes ! h) \<le> node_min_pfn (nodes ! k)"
      using k(1) Cons wf_nodes_head(6) [OF tail] by simp
    then show False using k(2) h by (simp add: in_node_def)
  qed
  then show ?thesis using k Cons wf(7) by simp
qed

lemma mark_nodes_spec:
  assumes "wf_nodes nodes ns" "pos \<le> end" "on_nodes nodes ns pos"
    "\<forall>q. pos \<le> q \<and> q < end \<longrightarrow> on_nodes nodes ns q" "pos = start \<or> in_node (nodes ! hd ns) pos"
    "\<not> reserve \<longrightarrow> (\<forall>n\<in>set ns. \<forall>q. pos \<le> q \<and> q < end \<and> in_node (nodes ! n) q \<longrightarrow> pfn_reserved (nodes ! n) q)"
  shows "\<exists>nodes' r. mark_nodes start end reserve flags ns nodes pos = Inr (nodes', r) \<and>
    walk_outcome reserve flags end nodes ns pos nodes' r"
  using assms
proof (induction ns arbitrary: nodes pos)
  case Nil
  then show ?case by (simp add: on_nodes_def)
next
  case (Cons n ns)
  let ?bd = "nodes ! n" and ?low = "node_low_pfn (nodes ! n)"
  note wf = wf_nodes_head [OF Cons.prems(1)]
  show ?case
  proof (cases "in_node ?bd pos")
    case False
    then have start: "pos = start" using Cons.prems(5) by simp
    have on: "on_nodes nodes ns pos" using Cons.prems(3) False by (auto simp: on_nodes_def)
    have low: "?low \<le> pos" using on wf(6) by (auto simp: on_nodes_def in_node_def intro: order_trans)
    have "\<forall>q. pos \<le> q \<and> q < end \<longrightarrow> on_nodes nodes ns q"
      using Cons.prems(4) low by (auto simp: on_nodes_def in_node_def)
    from Cons.IH [OF wf(5) Cons.prems(2) on this disjI1 [OF start]] Cons.prems(6) obtain nodes' r where
      r: "mark_nodes start end reserve flags ns nodes pos = Inr (nodes', r)"
      "walk_outcome reserve flags end nodes ns pos nodes' r" by auto
    have "mark_nodes start end reserve flags (n # ns) nodes pos = Inr (nodes', r)"
      using r(1) False start by (auto simp: in_node_def Let_def)
    then show ?thesis using walk_skip [OF Cons.prems(1) low r(2)] by blast
  next
    case True
    let ?max = "min ?low end"
    have le: "node_min_pfn ?bd \<le> pos" "pos \<le> ?max" "?max \<le> ?low"
      using True Cons.prems(2) by (auto simp: in_node_def)
    have "\<forall>q. pos \<le> q \<and> q < ?max \<longrightarrow> pfn_reserved ?bd q" if "\<not> reserve"
      using Cons.prems(6) that le(1) by (auto simp: in_node_def)
    then obtain bd' where bd': "mark_bootmem_node ?bd pos ?max reserve flags =
        Inr (bd', if refused ?bd pos ?max reserve flags then - EBUSY else 0)"
      "marked ?bd bd' (if refused ?bd pos ?max reserve flags then pfn_reserved ?bd else remark reserve pos ?max ?bd)"
      using mark_node_spec [OF wf(3,4) le] by blast
    have step: "mark_nodes start end reserve flags (n # ns) nodes pos =
        (if refused ?bd pos ?max reserve flags then Inr (nodes[n := bd'], Some (- EBUSY, pos))
         else if ?max = end then Inr (nodes[n := bd'], None)
         else mark_nodes start end reserve flags ns (nodes[n := bd']) ?low)"
      using True bd'(1) by (auto simp: in_node_def Let_def EBUSY_def refused_def)
    consider (refuse) "refused ?bd pos ?max reserve flags"
      | (last) "\<not> refused ?bd pos ?max reserve flags" "?max = end"
      | (more) "\<not> refused ?bd pos ?max reserve flags" "?max = ?low" "?low < end" by linarith
    then show ?thesis
    proof cases
      case refuse
      then have "refused ?bd pos end reserve flags" using refused_clip by blast
      from walk_refused [OF Cons.prems(1) True this] show ?thesis using bd'(2) refuse step by auto
    next
      case last
      have "end \<le> ?low" using last(2) by linarith
      from walk_last [OF Cons.prems(1) this] show ?thesis using bd'(2) last step by auto
    next
      case more
      have tail: "on_nodes (nodes[n := bd']) ns q" if "?low \<le> q" "q < end" for q
      proof -
        have "on_nodes nodes (n # ns) q" using Cons.prems(4) that le by simp
        then show ?thesis using that(1) wf(7) by (auto simp: on_nodes_def in_node_def)
      qed
      then have on: "on_nodes (nodes[n := bd']) ns ?low" using more(3) by simp
      have hd: "in_node (nodes[n := bd'] ! hd ns) ?low"
        by (rule next_node [OF Cons.prems(1) on])
      have "\<exists>nodes' r. mark_nodes start end reserve flags ns (nodes[n := bd']) ?low = Inr (nodes', r) \<and>
          walk_outcome reserve flags end (nodes[n := bd']) ns ?low nodes' r"
        by (rule Cons.IH) (use wf more on tail hd Cons.prems(6) le in auto)
      then obtain nodes' r where r: "mark_nodes start end reserve flags ns (nodes[n := bd']) ?low = Inr (nodes', r)"
        "walk_outcome reserve flags end (nodes[n := bd']) ns ?low nodes' r" by blast
      have "walk_outcome reserve flags end nodes (n # ns) pos nodes' r"
        by (rule walk_next [OF Cons.prems(1) _ _ _ r(2) more(3)]) (use bd'(2) more le in auto)
      then show ?thesis using r(1) more step by auto
    qed
  qed
qed

subsection \<open>Reserving and freeing byte ranges\<close>

definition wf_bootmem :: "bootmem_state \<Rightarrow> bool" where
  "wf_bootmem s \<longleftrightarrow> wf_nodes (bootmem_node_data s) (bdata_list s)"

definition page_on :: "bootmem_state \<Rightarrow> u64 \<Rightarrow> bool" where
  "page_on s q \<longleftrightarrow> on_nodes (bootmem_node_data s) (bdata_list s) q"

definition bootmem_reserved :: "bootmem_state \<Rightarrow> u64 \<Rightarrow> bool" where
  "bootmem_reserved s q \<longleftrightarrow> page_reserved (bootmem_node_data s) (bdata_list s) q"

lemma page_reserved_marked:
  assumes "nodes_marked nodes nodes' ns R"
  shows "page_reserved nodes' ns q \<longleftrightarrow> (\<exists>n\<in>set ns. in_node (nodes ! n) q \<and> R (nodes ! n) q)"
proof -
  have "in_node (nodes' ! n) q \<and> pfn_reserved (nodes' ! n) q \<longleftrightarrow> in_node (nodes ! n) q \<and> R (nodes ! n) q"
    if "n \<in> set ns" for n
  proof -
    have m: "marked (nodes ! n) (nodes' ! n) (R (nodes ! n))" using assms that by (simp add: nodes_marked_def)
    show ?thesis using m unfolding marked_range(3) [OF m] by (auto simp: marked_def)
  qed
  then show ?thesis by (auto simp: page_reserved_def)
qed

lemma page_reserved_remark:
  assumes "nodes_marked nodes nodes' ns (remark reserve a b)" "\<And>q. a \<le> q \<Longrightarrow> q < b \<Longrightarrow> on_nodes nodes ns q"
  shows "page_reserved nodes' ns q \<longleftrightarrow> (if a \<le> q \<and> q < b then reserve else page_reserved nodes ns q)"
  unfolding page_reserved_marked [OF assms(1)]
  using assms(2) [of q] by (auto simp: remark_def page_reserved_def on_nodes_def)

lemma on_nodes_marked:
  assumes "nodes_marked nodes nodes' ns R"
  shows "on_nodes nodes' ns = on_nodes nodes ns"
proof -
  have "in_node (nodes' ! n) = in_node (nodes ! n)" if "n \<in> set ns" for n
    by (rule marked_range(3) [of _ _ "R (nodes ! n)"]) (use assms that in \<open>simp add: nodes_marked_def\<close>)
  then show ?thesis by (simp add: on_nodes_def fun_eq_iff)
qed

lemma no_refusal:
  "(\<exists>n\<in>set ns. refused (nodes ! n) a b reserve flags) \<longleftrightarrow>
    reserve \<and> flags AND BOOTMEM_EXCLUSIVE \<noteq> 0 \<and> (\<exists>q. a \<le> q \<and> q < b \<and> page_reserved nodes ns q)"
  by (auto simp: refused_def page_reserved_def)

text \<open>Undoing the part of a reservation that went through.\<close>

lemma roll_back:
  assumes "wf_nodes nodes ns" "nodes_marked nodes nodes' ns (remark True start q)" "start \<le> q"
    "on_nodes nodes ns start" "\<And>p. start \<le> p \<Longrightarrow> p < q \<Longrightarrow> on_nodes nodes ns p"
    "\<And>p. start \<le> p \<Longrightarrow> p < q \<Longrightarrow> \<not> page_reserved nodes ns p"
  shows "\<exists>nodes''. mark_nodes start q False 0 ns nodes' start = Inr (nodes'', None) \<and> wf_nodes nodes'' ns \<and>
    page_reserved nodes'' ns = page_reserved nodes ns"
proof -
  have wf': "wf_nodes nodes' ns" by (rule nodes_marked_wf [OF assms(2,1)])
  have on': "on_nodes nodes' ns = on_nodes nodes ns" by (rule on_nodes_marked [OF assms(2)])
  have all: "pfn_reserved (nodes' ! n) p"
    if "n \<in> set ns" "start \<le> p" "p < q" "in_node (nodes' ! n) p" for n p
  proof -
    have m: "marked (nodes ! n) (nodes' ! n) (remark True start q (nodes ! n))"
      using assms(2) that(1) by (simp add: nodes_marked_def)
    show ?thesis using m that(2-4) unfolding marked_range(3) [OF m] by (simp add: marked_def remark_def)
  qed
  obtain nodes'' r where r: "mark_nodes start q False 0 ns nodes' start = Inr (nodes'', r)"
    "walk_outcome False 0 q nodes' ns start nodes'' r"
    using mark_nodes_spec [OF wf' assms(3), of start False 0] assms(4,5) all unfolding on' by blast
  have none: "r = None" using r(2) by (auto simp: walk_outcome_def refused_def split: option.splits)
  then have m2: "nodes_marked nodes' nodes'' ns (remark False start q)"
    using r(2) by (simp add: walk_outcome_def)
  have "page_reserved nodes'' ns p = page_reserved nodes ns p" for p
    using page_reserved_remark [OF m2, of p] page_reserved_remark [OF assms(2), of p] assms(5,6) on' by auto
  then show ?thesis
    using r(1) none nodes_marked_wf [OF m2 wf'] by (intro exI [of _ nodes'']) (auto simp: fun_eq_iff)
qed

lemma mark_bootmem_reserve:
  assumes wf: "wf_bootmem s" and "start < end" and on: "\<And>q. start \<le> q \<Longrightarrow> q < end \<Longrightarrow> page_on s q"
  shows "\<exists>s' err. mark_bootmem s start end True flags = Inr (s', err) \<and> wf_bootmem s' \<and>
    (if flags AND BOOTMEM_EXCLUSIVE \<noteq> 0 \<and> (\<exists>q. start \<le> q \<and> q < end \<and> bootmem_reserved s q)
     then err = - EBUSY \<and> (\<forall>q. bootmem_reserved s' q \<longleftrightarrow> bootmem_reserved s q)
     else err = 0 \<and> (\<forall>q. bootmem_reserved s' q \<longleftrightarrow> bootmem_reserved s q \<or> start \<le> q \<and> q < end))"
proof -
  let ?ns = "bdata_list s" and ?nodes = "bootmem_node_data s"
  have wf: "wf_nodes ?nodes ?ns" using wf by (simp add: wf_bootmem_def)
  have on: "on_nodes ?nodes ?ns q" if "start \<le> q" "q < end" for q using on that by (simp add: page_on_def)
  obtain nodes' r where r: "mark_nodes start end True flags ?ns ?nodes start = Inr (nodes', r)"
    "walk_outcome True flags end ?nodes ?ns start nodes' r"
    using mark_nodes_spec [OF wf, of start "end" start True flags] assms(2) on by auto
  show ?thesis
  proof (cases r)
    case None
    then have m: "nodes_marked ?nodes nodes' ?ns (remark True start end)"
      and free: "\<not> (flags AND BOOTMEM_EXCLUSIVE \<noteq> 0 \<and> (\<exists>q. start \<le> q \<and> q < end \<and> page_reserved ?nodes ?ns q))"
      using r(2) no_refusal [of ?ns ?nodes start "end" True flags] by (auto simp: walk_outcome_def)
    have "mark_bootmem s start end True flags = Inr (s\<lparr>bootmem_node_data := nodes'\<rparr>, 0)"
      using r(1) None by (simp add: mark_bootmem_def)
    then show ?thesis
      using free nodes_marked_wf [OF m wf] page_reserved_remark [OF m] on
      by (auto simp: wf_bootmem_def bootmem_reserved_def)
  next
    case (Some eq)
    then obtain q where q: "r = Some (- EBUSY, q)" "start \<le> q" "q < end"
      and m: "nodes_marked ?nodes nodes' ?ns (remark True start q)"
      and excl: "flags AND BOOTMEM_EXCLUSIVE \<noteq> 0" "\<exists>q. start \<le> q \<and> q < end \<and> page_reserved ?nodes ?ns q"
      and before: "\<not> (\<exists>p. start \<le> p \<and> p < q \<and> page_reserved ?nodes ?ns p)"
      using r(2) no_refusal [of ?ns ?nodes start "end" True flags]
        no_refusal [of ?ns ?nodes start _ True flags] by (auto simp: walk_outcome_def)
    obtain nodes'' where n: "mark_nodes start q False 0 ?ns nodes' start = Inr (nodes'', None)"
      "wf_nodes nodes'' ?ns" "page_reserved nodes'' ?ns = page_reserved ?nodes ?ns"
      using roll_back [OF wf m q(2)] on q before assms(2) by fastforce
    have "mark_bootmem s start end True flags = Inr (s\<lparr>bootmem_node_data := nodes''\<rparr>, - EBUSY)"
      using r(1) q(1) n(1) by (simp add: mark_bootmem_def)
    then show ?thesis using excl n(2,3) by (auto simp: wf_bootmem_def bootmem_reserved_def)
  qed
qed

lemma node_unique:
  assumes "wf_nodes nodes ns" "n \<in> set ns" "k \<in> set ns" "in_node (nodes ! n) q" "in_node (nodes ! k) q"
  shows "k = n"
  using assms
proof (induction ns)
  case (Cons h ns)
  note wf = wf_nodes_head [OF Cons.prems(1)]
  show ?case
  proof (cases "k = h \<or> n = h")
    case True
    then show ?thesis
      using Cons.prems(2-) wf(6) [of n] wf(6) [of k] by (auto simp: in_node_def)
  qed (use Cons wf(5) in auto)
qed simp

lemma mark_bootmem_free:
  assumes wf: "wf_bootmem s" and "start \<le> end" and on: "page_on s start" "\<And>q. start \<le> q \<Longrightarrow> q < end \<Longrightarrow> page_on s q"
    and res: "\<And>q. start \<le> q \<Longrightarrow> q < end \<Longrightarrow> bootmem_reserved s q"
  shows "\<exists>s'. mark_bootmem s start end False flags = Inr (s', 0) \<and> wf_bootmem s' \<and>
    (\<forall>q. bootmem_reserved s' q \<longleftrightarrow> bootmem_reserved s q \<and> \<not> (start \<le> q \<and> q < end))"
proof -
  let ?ns = "bdata_list s" and ?nodes = "bootmem_node_data s"
  have wf: "wf_nodes ?nodes ?ns" using wf by (simp add: wf_bootmem_def)
  have on: "on_nodes ?nodes ?ns start" "\<And>q. start \<le> q \<Longrightarrow> q < end \<Longrightarrow> on_nodes ?nodes ?ns q"
    using on by (simp_all add: page_on_def)
  have all: "pfn_reserved (?nodes ! n) q" if n: "n \<in> set ?ns" "start \<le> q" "q < end" "in_node (?nodes ! n) q" for n q
  proof -
    obtain k where k: "k \<in> set ?ns" "in_node (?nodes ! k) q" "pfn_reserved (?nodes ! k) q"
      using res [OF n(2,3)] by (auto simp: bootmem_reserved_def page_reserved_def)
    then have "k = n" using node_unique [OF wf n(1) k(1) n(4)] by simp
    then show ?thesis using k(3) by simp
  qed
  obtain nodes' r where r: "mark_nodes start end False flags ?ns ?nodes start = Inr (nodes', r)"
    "walk_outcome False flags end ?nodes ?ns start nodes' r"
    using mark_nodes_spec [OF wf assms(2), of start False flags] on all by blast
  have none: "r = None" using r(2) by (auto simp: walk_outcome_def refused_def split: option.splits)
  then have m: "nodes_marked ?nodes nodes' ?ns (remark False start end)"
    using r(2) by (simp add: walk_outcome_def)
  have "mark_bootmem s start end False flags = Inr (s\<lparr>bootmem_node_data := nodes'\<rparr>, 0)"
    using r(1) none by (simp add: mark_bootmem_def)
  then show ?thesis
    using nodes_marked_wf [OF m wf] page_reserved_remark [OF m] on
    by (auto simp: wf_bootmem_def bootmem_reserved_def)
qed

text \<open>Pages that a byte range overlaps, and pages that lie in it.\<close>

definition page_touched :: "u64 \<Rightarrow> u64 \<Rightarrow> u64 \<Rightarrow> bool" where
  "page_touched addr sz q \<longleftrightarrow> addr < (q + 1) * PAGE_SIZE \<and> q * PAGE_SIZE < addr + sz"

definition page_inside :: "u64 \<Rightarrow> u64 \<Rightarrow> u64 \<Rightarrow> bool" where
  "page_inside addr sz q \<longleftrightarrow> addr \<le> q * PAGE_SIZE \<and> (q + 1) * PAGE_SIZE \<le> addr + sz"

lemma PFN_DOWN_le: "PFN_DOWN x \<le> q \<longleftrightarrow> x < (q + 1) * PAGE_SIZE"
  using div_less_iff_less_mult [of PAGE_SIZE x "q + 1"] by (simp add: PFN_DOWN_def PAGE_SIZE_def less_Suc_eq_le)

lemma less_PFN_DOWN: "q < PFN_DOWN x \<longleftrightarrow> (q + 1) * PAGE_SIZE \<le> x"
  using PFN_DOWN_le [of x q] by (simp add: not_less flip: not_le)

lemma PFN_UP_eq: "x + PAGE_SIZE \<le> u64_lim \<Longrightarrow> PFN_UP x = (x + (PAGE_SIZE - 1)) div PAGE_SIZE"
  by (simp add: PFN_UP_def u64_add_eq PAGE_SIZE_def)

lemma less_PFN_UP:
  assumes "x + PAGE_SIZE \<le> u64_lim"
  shows "q < PFN_UP x \<longleftrightarrow> q * PAGE_SIZE < x"
  using less_PFN_DOWN [of q "x + (PAGE_SIZE - 1)"] unfolding PFN_UP_eq [OF assms] PFN_DOWN_def [symmetric]
  by (simp add: PAGE_SIZE_def) linarith

lemma PFN_UP_le: "x + PAGE_SIZE \<le> u64_lim \<Longrightarrow> PFN_UP x \<le> q \<longleftrightarrow> x \<le> q * PAGE_SIZE"
  using less_PFN_UP [of x q] by (simp add: not_less flip: not_le)

lemma touched_iff:
  assumes "addr + sz + PAGE_SIZE \<le> u64_lim"
  shows "page_touched addr sz q \<longleftrightarrow> PFN_DOWN addr \<le> q \<and> q < PFN_UP (addr + sz)"
  using assms by (simp add: page_touched_def PFN_DOWN_le less_PFN_UP)

lemma inside_iff:
  assumes "addr + sz + PAGE_SIZE \<le> u64_lim"
  shows "page_inside addr sz q \<longleftrightarrow> PFN_UP addr \<le> q \<and> q < PFN_DOWN (addr + sz)"
  using assms by (simp add: page_inside_def PFN_UP_le less_PFN_DOWN)

subsection \<open>Properties\<close>

text \<open>
  C10: \<^verbatim>\<open>reserve_bootmem\<close> reserves every page the byte range touches, on however many nodes it
  lies, or nothing: an exclusive reservation that meets a page reserved before answers \<^verbatim>\<open>-EBUSY\<close>
  and gives back what it had marked on this and on earlier nodes; any other reservation succeeds
  and leaves exactly the pages reserved that were, and those of the range.
\<close>

theorem reserve_bootmem_all_or_nothing:
  assumes "wf_bootmem s" "0 < sz" "addr + sz + PAGE_SIZE \<le> u64_lim"
    "\<forall>q. page_touched addr sz q \<longrightarrow> page_on s q"
  shows "\<exists>s' err. reserve_bootmem s addr sz flags = Inr (s', err) \<and> wf_bootmem s' \<and>
    (if flags AND BOOTMEM_EXCLUSIVE \<noteq> 0 \<and> (\<exists>q. page_touched addr sz q \<and> bootmem_reserved s q)
     then err = - EBUSY \<and> (\<forall>q. bootmem_reserved s' q \<longleftrightarrow> bootmem_reserved s q)
     else err = 0 \<and> (\<forall>q. bootmem_reserved s' q \<longleftrightarrow> bootmem_reserved s q \<or> page_touched addr sz q))"
proof -
  have sum: "u64_add addr sz = addr + sz" using assms(3) by (simp add: u64_add_eq PAGE_SIZE_def)
  have "PFN_DOWN addr * PAGE_SIZE \<le> addr" by (simp add: PFN_DOWN_def)
  then have "page_touched addr sz (PFN_DOWN addr)"
    using assms(2) PFN_DOWN_le [of addr "PFN_DOWN addr"] by (simp add: page_touched_def)
  then have lt: "PFN_DOWN addr < PFN_UP (addr + sz)" unfolding touched_iff [OF assms(3)] by simp
  show ?thesis
    using mark_bootmem_reserve [OF assms(1) lt, of flags] assms(4)
    unfolding reserve_bootmem_def Let_def sum touched_iff [OF assms(3)] by (simp add: conj_assoc)
qed

text \<open>
  Two nodes of 64 pages side by side; all pages are free but page 66.
\<close>

definition demo_bootmem :: bootmem_state where
  "demo_bootmem = \<lparr>bootmem_node_data =
      [\<lparr>node_min_pfn = 64, node_low_pfn = 128, node_bootmem_map = Some (64, [4]), last_end_off = 0, hint_idx = 0\<rparr>,
       \<lparr>node_min_pfn = 0, node_low_pfn = 64, node_bootmem_map = Some (0, [0]), last_end_off = 0, hint_idx = 0\<rparr>],
     bdata_list = [1, 0], max_low_pfn = 128, min_low_pfn = 0, totalram_pages = 0, released = [],
     managed_pages = [[0], [0]], reset_managed_pages_done = False\<rparr>"

lemma demo_bootmem_wf: "wf_bootmem demo_bootmem"
  by (simp add: wf_bootmem_def wf_nodes_def demo_bootmem_def node_before_def wf_bdata_def node_pages_def mapped_def)

lemma demo_bootmem_on: "page_on demo_bootmem q \<longleftrightarrow> q < 128"
  by (auto simp: page_on_def on_nodes_def in_node_def demo_bootmem_def)

lemma demo_bootmem_reserved: "bootmem_reserved demo_bootmem q \<longleftrightarrow> q = 66"
proof -
  have b: "bit (4 :: 64 word) k \<longleftrightarrow> k = 2" for k
    using bit_exp_iff [where 'a = "64 word", of 2 k] by auto
  have "bit (4 :: 64 word) (q - 64) \<longleftrightarrow> q = 66" if "64 \<le> q" unfolding b using that by linarith
  moreover have "(q - 64) div 64 = 0 \<and> (q - 64) mod 64 = q - 64" if "q < 128" using that by simp
  ultimately show ?thesis
    by (cases "q < 64"; cases "q < 128")
      (simp_all add: bootmem_reserved_def page_reserved_def pfn_reserved_def demo_bootmem_def in_node_def
        test_bit_def BITS_PER_LONG_def)
qed

lemma reserve_bootmem_all_or_nothing_witness:
  "\<exists>s'. reserve_bootmem demo_bootmem 0x3C800 0x8000 BOOTMEM_EXCLUSIVE = Inr (s', - 16) \<and>
    (\<forall>q. bootmem_reserved s' q \<longleftrightarrow> q = 66)"
proof -
  have t: "page_touched 0x3C800 0x8000 q \<longleftrightarrow> 60 \<le> q \<and> q \<le> 68" for q
    by (auto simp: page_touched_def PAGE_SIZE_def)
  have e: "BOOTMEM_EXCLUSIVE AND BOOTMEM_EXCLUSIVE \<noteq> 0" by (simp add: BOOTMEM_EXCLUSIVE_def)
  have "\<exists>q. page_touched 0x3C800 0x8000 q \<and> bootmem_reserved demo_bootmem q"
    by (rule exI [of _ 66]) (simp add: t demo_bootmem_reserved)
  then show ?thesis
    using reserve_bootmem_all_or_nothing [OF demo_bootmem_wf, of "0x8000" "0x3C800" BOOTMEM_EXCLUSIVE] e
    by (auto simp: t demo_bootmem_on demo_bootmem_reserved PAGE_SIZE_def u64_lim_def EBUSY_def)
qed



end
