(* ===== verification/Bootmem_Alloc.thy ===== *)
theory Bootmem_Alloc
  imports Bootmem_Nodes
begin

text \<open>
  Allocation from the bitmaps of bootmem: \<^verbatim>\<open>alloc_bootmem_bdata\<close>, which looks for a run of free
  pages on one node and may start a small area in the rest of the page the last one ended in, and
  the entry points built on it.  A name with three underscores in C has the prefix \<open>do_\<close> here, one
  with two has none; the address returned is the physical one that \<^verbatim>\<open>phys_to_virt\<close> is applied to.
\<close>

definition ARCH_LOW_ADDRESS_LIMIT :: u64 where
  "ARCH_LOW_ADDRESS_LIMIT = 0xffffffff"

definition align_idx :: "bootmem_data \<Rightarrow> u64 \<Rightarrow> u64 \<Rightarrow> u64" where
  "align_idx bd idx step =
    (let base = node_min_pfn bd in u64_sub (ALIGN (u64_add base idx) step) base)"

definition align_off :: "bootmem_data \<Rightarrow> u64 \<Rightarrow> u64 \<Rightarrow> u64" where
  "align_off bd off align =
    (let base = PFN_PHYS (node_min_pfn bd) in u64_sub (ALIGN (u64_add base off) align) base)"

text \<open>The loop over the pages of a candidate block: its first page that is reserved.\<close>

function first_reserved :: "bitmap \<Rightarrow> u64 \<Rightarrow> u64 \<Rightarrow> u64 option" where
  "first_reserved m i eidx =
    (if i < eidx then if test_bit i m then Some i else first_reserved m (i + 1) eidx else None)"
  by pat_completeness auto
termination by (relation "measure (\<lambda>(m, i, eidx). eidx - i)") auto

primrec find_block ::
  "nat \<Rightarrow> bootmem_env \<Rightarrow> bootmem_data \<Rightarrow> bitmap \<Rightarrow> u64 \<Rightarrow> u64 \<Rightarrow> u64 \<Rightarrow> u64 \<Rightarrow> u64 option run" where
  "find_block 0 env bd m sz step midx sidx = Inl No_fuel"
| "find_block (Suc fuel) env bd m sz step midx sidx =
    (let sidx1 = find_next_zero_bit env m midx sidx;
         sidx2 = align_idx bd sidx1 step;
         eidx = u64_add sidx2 (PFN_UP sz)
     in if sidx2 \<ge> midx \<or> eidx > midx then Inr None
        else case first_reserved m sidx2 eidx of
               None \<Rightarrow> Inr (Some sidx2)
             | Some i \<Rightarrow>
                 let sidx3 = align_idx bd i step
                 in find_block fuel env bd m sz step midx
                      (if sidx3 = i then u64_add sidx3 step else sidx3))"

definition place_block ::
  "bootmem_data \<Rightarrow> u64 \<Rightarrow> u64 \<Rightarrow> u64 \<Rightarrow> (bootmem_data \<times> u64 option) run" where
  "place_block bd sz align sidx =
    (let start_off =
           (if last_end_off bd AND (PAGE_SIZE - 1) \<noteq> 0 \<and> u64_add (PFN_DOWN (last_end_off bd)) 1 = sidx
            then align_off bd (last_end_off bd) align
            else PFN_PHYS sidx);
         merge = (if PFN_DOWN start_off < sidx then 1 else 0);
         end_off = u64_add start_off sz;
         bd1 = bd\<lparr>last_end_off := end_off, hint_idx := PFN_UP end_off\<rparr>
     in run_bind (bootmem_reserve_bits bd1 (u64_add (PFN_DOWN start_off) merge) (PFN_UP end_off) BOOTMEM_EXCLUSIVE)
          (\<lambda>(bd2, err).
             if err \<noteq> 0 then Inl Bug_on
             else Inr (bd2, Some (u64_add (PFN_PHYS (node_min_pfn bd)) start_off))))"

definition alloc_bootmem_bdata ::
  "bootmem_env \<Rightarrow> bootmem_data \<Rightarrow> u64 \<Rightarrow> u64 \<Rightarrow> u64 \<Rightarrow> u64 \<Rightarrow> (bootmem_data \<times> u64 option) run" where
  "alloc_bootmem_bdata env bd sz align goal0 limit0 =
    (if sz = 0 then Inl Bug_on
     else if align AND u64_sub align 1 \<noteq> 0 then Inl Bug_on
     else if limit0 \<noteq> 0 \<and> u64_add goal0 sz > limit0 then Inl Bug_on
     else case node_bootmem_map bd of None \<Rightarrow> Inr (bd, None)
     | Some (p, m) \<Rightarrow>
         let lo = node_min_pfn bd;
             goal = goal0 div PAGE_SIZE;
             limit = limit0 div PAGE_SIZE;
             hi = (if limit \<noteq> 0 \<and> node_low_pfn bd > limit then limit else node_low_pfn bd)
         in if hi \<le> lo then Inr (bd, None)
            else
              let step = max (align div PAGE_SIZE) 1;
                  start = (if goal \<noteq> 0 \<and> lo < goal \<and> goal < hi then ALIGN goal step else ALIGN lo step);
                  sidx0 = u64_sub start lo;
                  midx = u64_sub hi lo;
                  hinted = hint_idx bd > sidx0;
                  sidx = (if hinted then align_idx bd (hint_idx bd) step else sidx0)
              in run_bind (find_block (midx + 2) env bd m sz step midx sidx)
                   (\<lambda>r. case r of
                      Some i \<Rightarrow> place_block bd sz align i
                    | None \<Rightarrow>
                        if hinted then
                          run_bind (find_block (midx + 2) env bd m sz step midx (align_idx bd sidx0 step))
                            (\<lambda>r. case r of Some i \<Rightarrow> place_block bd sz align i | None \<Rightarrow> Inr (bd, None))
                        else Inr (bd, None)))"

text \<open>The walk of \<^verbatim>\<open>alloc_bootmem_core\<close> over \<^verbatim>\<open>bdata_list\<close>.\<close>

primrec alloc_nodes ::
  "bootmem_env \<Rightarrow> bootmem_data list \<Rightarrow> u64 \<Rightarrow> u64 \<Rightarrow> u64 \<Rightarrow> u64 \<Rightarrow> nat list
    \<Rightarrow> (bootmem_data list \<times> u64 option) run" where
  "alloc_nodes env nodes sz align goal limit [] = Inr (nodes, None)"
| "alloc_nodes env nodes sz align goal limit (n # ns) =
    (if goal \<noteq> 0 \<and> node_low_pfn (nodes ! n) \<le> PFN_DOWN goal then alloc_nodes env nodes sz align goal limit ns
     else if limit \<noteq> 0 \<and> node_min_pfn (nodes ! n) \<ge> PFN_DOWN limit then Inr (nodes, None)
     else run_bind (alloc_bootmem_bdata env (nodes ! n) sz align goal limit)
            (\<lambda>(bd, region).
               case region of
                 Some a \<Rightarrow> Inr (nodes[n := bd], Some a)
               | None \<Rightarrow> alloc_nodes env (nodes[n := bd]) sz align goal limit ns))"

definition alloc_bootmem_core ::
  "bootmem_env \<Rightarrow> bootmem_state \<Rightarrow> u64 \<Rightarrow> u64 \<Rightarrow> u64 \<Rightarrow> u64 \<Rightarrow> (bootmem_state \<times> u64 option) run" where
  "alloc_bootmem_core env s sz align goal limit =
    (if slab_is_available env then Inr (s, kzalloc env sz)
     else run_bind (alloc_nodes env (bootmem_node_data s) sz align goal limit (bdata_list s))
            (\<lambda>(nodes, region). Inr (s\<lparr>bootmem_node_data := nodes\<rparr>, region)))"

definition do_alloc_bootmem_nopanic ::
  "bootmem_env \<Rightarrow> bootmem_state \<Rightarrow> u64 \<Rightarrow> u64 \<Rightarrow> u64 \<Rightarrow> u64 \<Rightarrow> (bootmem_state \<times> u64 option) run" where
  "do_alloc_bootmem_nopanic env s sz align goal limit =
    run_bind (alloc_bootmem_core env s sz align goal limit)
      (\<lambda>(s', ptr).
         if ptr \<noteq> None then Inr (s', ptr)
         else if goal \<noteq> 0 then alloc_bootmem_core env s' sz align 0 limit
         else Inr (s', None))"

definition alloc_bootmem_nopanic ::
  "bootmem_env \<Rightarrow> bootmem_state \<Rightarrow> u64 \<Rightarrow> u64 \<Rightarrow> u64 \<Rightarrow> (bootmem_state \<times> u64 option) run" where
  "alloc_bootmem_nopanic env s sz align goal = do_alloc_bootmem_nopanic env s sz align goal 0"

text \<open>The tail the panicking variants share: no memory is a \<^verbatim>\<open>panic\<close>.\<close>

definition or_panic :: "(bootmem_state \<times> u64 option) run \<Rightarrow> (bootmem_state \<times> u64) run" where
  "or_panic r = run_bind r (\<lambda>(s, ptr). case ptr of Some a \<Rightarrow> Inr (s, a) | None \<Rightarrow> Inl Panic)"

definition do_alloc_bootmem ::
  "bootmem_env \<Rightarrow> bootmem_state \<Rightarrow> u64 \<Rightarrow> u64 \<Rightarrow> u64 \<Rightarrow> u64 \<Rightarrow> (bootmem_state \<times> u64) run" where
  "do_alloc_bootmem env s sz align goal limit =
    or_panic (do_alloc_bootmem_nopanic env s sz align goal limit)"

definition alloc_bootmem ::
  "bootmem_env \<Rightarrow> bootmem_state \<Rightarrow> u64 \<Rightarrow> u64 \<Rightarrow> u64 \<Rightarrow> (bootmem_state \<times> u64) run" where
  "alloc_bootmem env s sz align goal = do_alloc_bootmem env s sz align goal 0"

text \<open>One round of the loop of \<^verbatim>\<open>___alloc_bootmem_node_nopanic\<close>.\<close>

definition alloc_node_round ::
  "bootmem_env \<Rightarrow> bootmem_state \<Rightarrow> nat \<Rightarrow> u64 \<Rightarrow> u64 \<Rightarrow> u64 \<Rightarrow> u64
    \<Rightarrow> (bootmem_state \<times> u64 option) run" where
  "alloc_node_round env s nid sz align goal limit =
    run_bind (alloc_bootmem_bdata env (bootmem_node_data s ! nid) sz align goal limit)
      (\<lambda>(bd, ptr).
         let s' = s\<lparr>bootmem_node_data := (bootmem_node_data s)[nid := bd]\<rparr> in
         if ptr \<noteq> None then Inr (s', ptr)
         else alloc_bootmem_core env s' sz align goal limit)"

definition do_alloc_bootmem_node_nopanic ::
  "bootmem_env \<Rightarrow> bootmem_state \<Rightarrow> nat \<Rightarrow> u64 \<Rightarrow> u64 \<Rightarrow> u64 \<Rightarrow> u64
    \<Rightarrow> (bootmem_state \<times> u64 option) run" where
  "do_alloc_bootmem_node_nopanic env s nid sz align goal limit =
    (if slab_is_available env then Inr (s, kzalloc_node env sz nid)
     else
       let limit1 = (if limit \<noteq> 0 \<and> u64_add goal sz > limit then 0 else limit) in
       run_bind (alloc_node_round env s nid sz align goal limit1)
         (\<lambda>(s', ptr).
            if ptr \<noteq> None then Inr (s', ptr)
            else if goal \<noteq> 0 then
              let limit2 = (if limit1 \<noteq> 0 \<and> u64_add 0 sz > limit1 then 0 else limit1)
              in alloc_node_round env s' nid sz align 0 limit2
            else Inr (s', None)))"

definition alloc_bootmem_node_nopanic ::
  "bootmem_env \<Rightarrow> bootmem_state \<Rightarrow> nat \<Rightarrow> u64 \<Rightarrow> u64 \<Rightarrow> u64 \<Rightarrow> (bootmem_state \<times> u64 option) run" where
  "alloc_bootmem_node_nopanic env s nid sz align goal =
    do_alloc_bootmem_node_nopanic env s nid sz align goal 0"

definition do_alloc_bootmem_node ::
  "bootmem_env \<Rightarrow> bootmem_state \<Rightarrow> nat \<Rightarrow> u64 \<Rightarrow> u64 \<Rightarrow> u64 \<Rightarrow> u64 \<Rightarrow> (bootmem_state \<times> u64) run" where
  "do_alloc_bootmem_node env s nid sz align goal limit =
    or_panic (do_alloc_bootmem_node_nopanic env s nid sz align goal 0)"

definition alloc_bootmem_node ::
  "bootmem_env \<Rightarrow> bootmem_state \<Rightarrow> nat \<Rightarrow> u64 \<Rightarrow> u64 \<Rightarrow> u64 \<Rightarrow> (bootmem_state \<times> u64 option) run" where
  "alloc_bootmem_node env s nid sz align goal =
    (if slab_is_available env then Inr (s, kzalloc_node env sz nid)
     else run_bind (do_alloc_bootmem_node env s nid sz align goal 0) (\<lambda>(s', a). Inr (s', Some a)))"

definition alloc_bootmem_node_high ::
  "bootmem_env \<Rightarrow> bootmem_state \<Rightarrow> nat \<Rightarrow> u64 \<Rightarrow> u64 \<Rightarrow> u64 \<Rightarrow> (bootmem_state \<times> u64 option) run" where
  "alloc_bootmem_node_high env s nid sz align goal =
    (case max_dma32_pfn env of
       None \<Rightarrow> alloc_bootmem_node env s nid sz align goal
     | Some dma32 \<Rightarrow>
         if slab_is_available env then Inr (s, kzalloc_node env sz nid)
         else if pgdat_end_pfn env nid > u64_add dma32 (128 div 2 ^ (20 - 12)) \<and> goal div PAGE_SIZE < dma32 then
           run_bind (alloc_bootmem_bdata env (bootmem_node_data s ! nid) sz align (PFN_PHYS dma32) 0)
             (\<lambda>(bd, ptr).
                let s' = s\<lparr>bootmem_node_data := (bootmem_node_data s)[nid := bd]\<rparr> in
                if ptr \<noteq> None then Inr (s', ptr) else alloc_bootmem_node env s' nid sz align goal)
         else alloc_bootmem_node env s nid sz align goal)"

definition alloc_bootmem_low ::
  "bootmem_env \<Rightarrow> bootmem_state \<Rightarrow> u64 \<Rightarrow> u64 \<Rightarrow> u64 \<Rightarrow> (bootmem_state \<times> u64) run" where
  "alloc_bootmem_low env s sz align goal = do_alloc_bootmem env s sz align goal ARCH_LOW_ADDRESS_LIMIT"

definition alloc_bootmem_low_nopanic ::
  "bootmem_env \<Rightarrow> bootmem_state \<Rightarrow> u64 \<Rightarrow> u64 \<Rightarrow> u64 \<Rightarrow> (bootmem_state \<times> u64 option) run" where
  "alloc_bootmem_low_nopanic env s sz align goal =
    do_alloc_bootmem_nopanic env s sz align goal ARCH_LOW_ADDRESS_LIMIT"

definition alloc_bootmem_low_node ::
  "bootmem_env \<Rightarrow> bootmem_state \<Rightarrow> nat \<Rightarrow> u64 \<Rightarrow> u64 \<Rightarrow> u64 \<Rightarrow> (bootmem_state \<times> u64 option) run" where
  "alloc_bootmem_low_node env s nid sz align goal =
    (if slab_is_available env then Inr (s, kzalloc_node env sz nid)
     else run_bind (do_alloc_bootmem_node env s nid sz align goal ARCH_LOW_ADDRESS_LIMIT)
            (\<lambda>(s', a). Inr (s', Some a)))"

declare first_reserved.simps [simp del]

subsection \<open>The search for a block\<close>

text \<open>
  The documented behaviour of \<^verbatim>\<open>find_next_zero_bit\<close>: the first zero bit at or after the offset, or the
  size if there is none.
\<close>

definition next_zero_ok :: "bootmem_env \<Rightarrow> bool" where
  "next_zero_ok env \<longleftrightarrow> (\<forall>m n off. n \<le> 64 * length m \<longrightarrow>
     find_next_zero_bit env m n off \<le> n \<and>
     (\<forall>i. off \<le> i \<and> i < find_next_zero_bit env m n off \<longrightarrow> test_bit i m) \<and>
     (find_next_zero_bit env m n off < n \<longrightarrow>
        off \<le> find_next_zero_bit env m n off \<and> \<not> test_bit (find_next_zero_bit env m n off) m))"

lemma first_reserved_None: "first_reserved m i e = None \<longleftrightarrow> (\<forall>k. i \<le> k \<and> k < e \<longrightarrow> \<not> test_bit k m)"
proof (induction m i e rule: first_reserved.induct)
  case (1 m i e)
  have split: "i \<le> k \<longleftrightarrow> k = i \<or> i + 1 \<le> k" for k by auto
  show ?case
    using 1 unfolding split by (auto simp: first_reserved.simps [of m i e])
qed

lemma first_reserved_Some:
  "first_reserved m i e = Some k \<Longrightarrow> i \<le> k \<and> k < e \<and> test_bit k m \<and> (\<forall>l. i \<le> l \<and> l < k \<longrightarrow> \<not> test_bit l m)"
proof (induction m i e rule: first_reserved.induct)
  case (1 m i e)
  show ?case
  proof (cases "i < e \<and> \<not> test_bit i m")
    case True
    then have "i + 1 \<le> k \<and> k < e \<and> test_bit k m \<and> (\<forall>l. i + 1 \<le> l \<and> l < k \<longrightarrow> \<not> test_bit l m)"
      using "1.IH" "1.prems" by (simp add: first_reserved.simps [of m i e])
    then show ?thesis using True by (metis Suc_eq_plus1 Suc_leD le_antisym not_less_eq_eq)
  qed (use "1.prems" in \<open>auto simp: first_reserved.simps [of m i e] split: if_splits\<close>)
qed

lemma align_idx_bounds:
  assumes "node_min_pfn bd \<le> 2 ^ 40" "idx \<le> 2 ^ 42" "j \<le> 40"
  shows "idx \<le> align_idx bd idx (2 ^ j)" "align_idx bd idx (2 ^ j) < idx + 2 ^ j"
    "2 ^ j dvd node_min_pfn bd + align_idx bd idx (2 ^ j)"
    "\<And>c. idx \<le> c \<Longrightarrow> 2 ^ j dvd node_min_pfn bd + c \<Longrightarrow> align_idx bd idx (2 ^ j) \<le> c"
proof -
  let ?b = "node_min_pfn bd"
  have p: "(2::nat) ^ j \<le> 2 ^ 40" using assms(3) by (rule power_increasing) simp
  have lim: "?b + idx + 2 ^ j \<le> u64_lim" using assms p by (simp add: u64_lim_def)
  have j: "j < 64" using assms(3) by simp
  have sum: "u64_add ?b idx = ?b + idx" using assms(1,2) by (intro u64_add_eq) (simp add: u64_lim_def)
  note A = ALIGN_bounds [OF lim j]
  have "ALIGN (?b + idx) (2 ^ j) < u64_lim" using A(2) lim by linarith
  then have eq: "align_idx bd idx (2 ^ j) = ALIGN (?b + idx) (2 ^ j) - ?b"
    using A(1) by (simp add: align_idx_def Let_def sum u64_sub_eq)
  show "idx \<le> align_idx bd idx (2 ^ j)" "align_idx bd idx (2 ^ j) < idx + 2 ^ j"
    using A(1,2) unfolding eq by linarith+
  show "2 ^ j dvd ?b + align_idx bd idx (2 ^ j)" using A(1,3) unfolding eq by simp
  show "align_idx bd idx (2 ^ j) \<le> c" if "idx \<le> c" "2 ^ j dvd ?b + c" for c
    using ALIGN_least [OF lim j that(2)] that(1) unfolding eq by linarith
qed

definition fits :: "bootmem_data \<Rightarrow> bitmap \<Rightarrow> nat \<Rightarrow> u64 \<Rightarrow> u64 \<Rightarrow> u64 \<Rightarrow> bool" where
  "fits bd m j np midx c \<longleftrightarrow> 2 ^ j dvd node_min_pfn bd + c \<and> c + np \<le> midx \<and>
    (\<forall>i. c \<le> i \<and> i < c + np \<longrightarrow> \<not> test_bit i m)"

lemma fits_after_gap:
  assumes "next_zero_ok env" "midx \<le> 64 * length m" "0 < np" "fits bd m j np midx c" "sidx \<le> c"
    "node_min_pfn bd \<le> 2 ^ 40" "midx \<le> 2 ^ 40" "j \<le> 40"
  shows "align_idx bd (find_next_zero_bit env m midx sidx) (2 ^ j) \<le> c"
proof -
  let ?s = "find_next_zero_bit env m midx sidx"
  have s: "?s \<le> midx" "\<forall>i. sidx \<le> i \<and> i < ?s \<longrightarrow> test_bit i m"
    using assms(1,2) by (auto simp: next_zero_ok_def)
  have "\<not> test_bit c m" using assms(3,4) by (simp add: fits_def)
  then have "?s \<le> c" using s(2) assms(5) not_less by blast
  moreover have "?s \<le> 2 ^ 42" using s(1) assms(7) by simp
  ultimately show ?thesis
    using align_idx_bounds(4) [OF assms(6) _ assms(8)] assms(4) by (simp add: fits_def)
qed

lemma fits_after_block:
  assumes "fits bd m j np midx c" "s \<le> c" "s \<le> i" "i < s + np" "test_bit i m"
    "node_min_pfn bd \<le> 2 ^ 40" "i \<le> 2 ^ 42" "j \<le> 40"
  shows "(if align_idx bd i (2 ^ j) = i then i + 2 ^ j else align_idx bd i (2 ^ j)) \<le> c"
proof -
  have "i < c" using assms(1-5) unfolding fits_def by (meson add_le_mono1 less_le_trans not_le)
  have dvd: "2 ^ j dvd node_min_pfn bd + c" using assms(1) by (simp add: fits_def)
  note A = align_idx_bounds [OF assms(6-8)]
  show ?thesis
  proof (cases "align_idx bd i (2 ^ j) = i")
    case True
    then have "2 ^ j dvd node_min_pfn bd + i" using A(3) by simp
    then have "2 ^ j dvd (node_min_pfn bd + c) - (node_min_pfn bd + i)" using dvd by (rule dvd_diff_nat [rotated])
    then have "2 ^ j dvd c - i" by simp
    then have "2 ^ j \<le> c - i" using \<open>i < c\<close> by (intro dvd_imp_le) auto
    then show ?thesis using True \<open>i < c\<close> by simp
  qed (use A(4) [of c] dvd \<open>i < c\<close> in simp)
qed

lemma find_block_spec:
  assumes "next_zero_ok env" "midx \<le> 64 * length m" "midx \<le> 2 ^ 40" "node_min_pfn bd \<le> 2 ^ 40" "j \<le> 40"
    "0 < PFN_UP sz" "PFN_UP sz \<le> 2 ^ 52" "midx \<le> fuel + sidx"
  shows "\<exists>r. find_block (Suc fuel) env bd m sz (2 ^ j) midx sidx = Inr r \<and>
    (case r of None \<Rightarrow> \<forall>c\<ge>sidx. \<not> fits bd m j (PFN_UP sz) midx c
     | Some c \<Rightarrow> sidx \<le> c \<and> fits bd m j (PFN_UP sz) midx c)"
  using assms(8)
proof (induction fuel arbitrary: sidx)
  case (0 sidx)
  have "\<not> find_next_zero_bit env m midx sidx < midx"
    using 0 assms(1,2) by (auto simp: next_zero_ok_def) (metis le_less_trans less_le_not_le)
  moreover have "find_next_zero_bit env m midx sidx \<le> midx" using assms(1,2) by (auto simp: next_zero_ok_def)
  ultimately have "midx \<le> align_idx bd (find_next_zero_bit env m midx sidx) (2 ^ j)"
    using align_idx_bounds(1) [OF assms(4) _ assms(5), of midx] assms(3) by auto
  moreover have "\<forall>c\<ge>sidx. \<not> fits bd m j (PFN_UP sz) midx c" using 0 assms(6) by (auto simp: fits_def)
  ultimately show ?case by (intro exI [of _ None]) (simp add: Let_def)
next
  case (Suc fuel sidx)
  let ?s1 = "find_next_zero_bit env m midx sidx"
  let ?s2 = "align_idx bd ?s1 (2 ^ j)" and ?np = "PFN_UP sz"
  have gap: "?s2 \<le> c" if "fits bd m j ?np midx c" "sidx \<le> c" for c
    by (rule fits_after_gap [OF assms(1,2,6) that assms(4,3,5)])
  have s1: "?s1 \<le> midx" "?s1 < midx \<Longrightarrow> sidx \<le> ?s1" using assms(1,2) by (auto simp: next_zero_ok_def)
  have s2: "?s1 \<le> ?s2" "2 ^ j dvd node_min_pfn bd + ?s2"
    using align_idx_bounds(1,3) [OF assms(4) _ assms(5), of ?s1] s1(1) assms(3) by auto
  show ?case
  proof (cases "?s2 < midx \<and> ?s2 + ?np \<le> midx")
    case False
    have add: "u64_add ?s2 ?np = ?s2 + ?np" if "?s2 < midx"
      using that assms(3,7) by (intro u64_add_eq) (simp add: u64_lim_def)
    have "find_block (Suc (Suc fuel)) env bd m sz (2 ^ j) midx sidx = Inr None"
      using False add by (cases "?s2 < midx") (simp_all add: Let_def)
    moreover have "\<forall>c\<ge>sidx. \<not> fits bd m j ?np midx c" using gap False assms(6) by (force simp: fits_def)
    ultimately show ?thesis by simp
  next
    case True
    have add: "u64_add ?s2 ?np = ?s2 + ?np"
      using True assms(3) by (intro u64_add_eq) (simp add: u64_lim_def)
    have le: "sidx \<le> ?s2" using s1 s2(1) True by linarith
    show ?thesis
    proof (cases "first_reserved m ?s2 (?s2 + ?np)")
      case None
      then have "fits bd m j ?np midx ?s2" using True s2(2) by (simp add: fits_def first_reserved_None)
      moreover have "find_block (Suc (Suc fuel)) env bd m sz (2 ^ j) midx sidx = Inr (Some ?s2)"
        using True add None by (simp add: Let_def)
      ultimately show ?thesis using le by simp
    next
      case (Some i)
      note i = first_reserved_Some [OF Some]
      let ?s3 = "if align_idx bd i (2 ^ j) = i then i + 2 ^ j else align_idx bd i (2 ^ j)"
      have "i < midx" using i True by linarith
      then have i': "i < midx" "i \<le> 2 ^ 42" using assms(3) by simp_all
      have "(2::nat) ^ j \<le> 2 ^ 40" using assms(5) by (rule power_increasing) simp
      then have "u64_add i (2 ^ j) = i + 2 ^ j" using i' by (intro u64_add_eq) (simp add: u64_lim_def)
      then have s3: "(if align_idx bd i (2 ^ j) = i then u64_add (align_idx bd i (2 ^ j)) (2 ^ j) else align_idx bd i (2 ^ j)) = ?s3"
        by simp
      have step: "find_block (Suc (Suc fuel)) env bd m sz (2 ^ j) midx sidx =
          find_block (Suc fuel) env bd m sz (2 ^ j) midx ?s3"
        unfolding find_block.simps(2) [of "Suc fuel"] Let_def add Some option.case s3
        using True by (simp del: find_block.simps)
      have inc: "i < ?s3" using align_idx_bounds(1) [OF assms(4) i'(2) assms(5)] by auto
      then have "midx \<le> fuel + ?s3" using Suc.prems i le by linarith
      from Suc.IH [OF this] obtain r where r: "find_block (Suc fuel) env bd m sz (2 ^ j) midx ?s3 = Inr r"
        "case r of None \<Rightarrow> \<forall>c\<ge>?s3. \<not> fits bd m j ?np midx c | Some c \<Rightarrow> ?s3 \<le> c \<and> fits bd m j ?np midx c"
        by blast
      have "?s3 \<le> c" if "fits bd m j ?np midx c" "sidx \<le> c" for c
        by (rule fits_after_block [OF that(1) gap [OF that]]) (use i i' assms in auto)
      then show ?thesis
        unfolding step using r inc i le by (intro exI [of _ r]) (auto split: option.splits)
    qed
  qed
qed

subsection \<open>Placing the area\<close>

definition node_base :: "bootmem_data \<Rightarrow> u64" where
  "node_base bd = node_min_pfn bd * PAGE_SIZE"

text \<open>The page the last area ended in the middle of is reserved.\<close>

definition last_page_ok :: "bootmem_data \<Rightarrow> bool" where
  "last_page_ok bd \<longleftrightarrow> last_end_off bd mod PAGE_SIZE \<noteq> 0 \<longrightarrow>
    pfn_reserved bd (node_min_pfn bd + last_end_off bd div PAGE_SIZE)"

text \<open>The page \<open>q\<close> is shared with the last area, which ends below \<open>a\<close>.\<close>

definition shared_page :: "bootmem_data \<Rightarrow> u64 \<Rightarrow> u64 \<Rightarrow> bool" where
  "shared_page bd a q \<longleftrightarrow> last_end_off bd mod PAGE_SIZE \<noteq> 0 \<and>
    q = node_min_pfn bd + last_end_off bd div PAGE_SIZE \<and> node_base bd + last_end_off bd \<le> a"

definition allocated :: "bootmem_data \<Rightarrow> u64 \<Rightarrow> bootmem_data \<Rightarrow> u64 \<Rightarrow> bool" where
  "allocated bd sz bd' a \<longleftrightarrow> wf_bdata bd' \<and> mapped bd' \<and> last_page_ok bd' \<and>
    node_min_pfn bd' = node_min_pfn bd \<and> node_low_pfn bd' = node_low_pfn bd \<and>
    node_base bd + last_end_off bd' = a + sz \<and>
    (\<forall>q. page_touched a sz q \<longrightarrow> in_node bd q \<and> (pfn_reserved bd q \<longrightarrow> shared_page bd a q)) \<and>
    (\<forall>q. in_node bd q \<longrightarrow> (pfn_reserved bd' q \<longleftrightarrow> pfn_reserved bd q \<or> page_touched a sz q))"

lemma and_page_mask: "x AND (PAGE_SIZE - 1) = x mod PAGE_SIZE"
  using take_bit_eq_mask [of 12 x] by (simp add: PAGE_SIZE_def take_bit_eq_mod mask_eq_exp_minus_1)

lemma dvd_page_mult:
  assumes "2 ^ (k - 12) dvd n"
  shows "2 ^ k dvd n * PAGE_SIZE"
proof -
  have "(2::nat) ^ k dvd 2 ^ (k - 12 + 12)" by (rule le_imp_power_dvd) simp
  also have "\<dots> = 2 ^ (k - 12) * PAGE_SIZE" by (simp only: power_add) (simp add: PAGE_SIZE_def)
  also have "\<dots> dvd n * PAGE_SIZE" using assms by (rule mult_dvd_mono) simp
  finally show ?thesis .
qed

lemma start_off_bounds:
  assumes "node_min_pfn bd \<le> 2 ^ 40" "c \<le> 2 ^ 40" "k \<le> 52" "2 ^ (k - 12) dvd node_min_pfn bd + c"
    "off \<le> c * PAGE_SIZE"
  shows "off \<le> align_off bd off (2 ^ k)" "align_off bd off (2 ^ k) \<le> c * PAGE_SIZE"
    "2 ^ k dvd node_base bd + align_off bd off (2 ^ k)"
proof -
  let ?b = "node_base bd"
  have p: "(2::nat) ^ k \<le> 2 ^ 52" using assms(3) by (rule power_increasing) simp
  have b: "PFN_PHYS (node_min_pfn bd) = ?b"
    using assms(1) by (simp add: PFN_PHYS_def node_base_def PAGE_SIZE_def u64_lim_def)
  have lim: "?b + off + 2 ^ k \<le> u64_lim" "?b + off < u64_lim"
    using assms(1,2,5) p by (simp_all add: node_base_def PAGE_SIZE_def u64_lim_def)
  have k: "k < 64" using assms(3) by simp
  note A = ALIGN_bounds [OF lim(1) k]
  have "ALIGN (?b + off) (2 ^ k) < u64_lim" using A(2) lim(1) by linarith
  then have eq: "align_off bd off (2 ^ k) = ALIGN (?b + off) (2 ^ k) - ?b"
    using A(1) by (simp add: align_off_def Let_def b u64_add_eq lim(2) u64_sub_eq)
  show "off \<le> align_off bd off (2 ^ k)" using A(1) unfolding eq by linarith
  show "2 ^ k dvd ?b + align_off bd off (2 ^ k)" using A(1,3) unfolding eq by simp
  have "ALIGN (?b + off) (2 ^ k) \<le> ?b + c * PAGE_SIZE"
    by (rule ALIGN_least [OF lim(1) k])
      (use dvd_page_mult [OF assms(4)] assms(5) in \<open>simp_all add: node_base_def distrib_right\<close>)
  then show "align_off bd off (2 ^ k) \<le> c * PAGE_SIZE" unfolding eq by linarith
qed

text \<open>Where the area starts, as an offset into the node.\<close>

definition start_off_of :: "bootmem_data \<Rightarrow> u64 \<Rightarrow> u64 \<Rightarrow> u64" where
  "start_off_of bd align c =
    (if last_end_off bd mod PAGE_SIZE \<noteq> 0 \<and> u64_add (PFN_DOWN (last_end_off bd)) 1 = c
     then align_off bd (last_end_off bd) align else PFN_PHYS c)"

lemma start_off_of_spec:
  assumes "wf_bdata bd" "c < node_pages bd" "k \<le> 52" "2 ^ (k - 12) dvd node_min_pfn bd + c"
  shows "start_off_of bd (2 ^ k) c \<le> c * PAGE_SIZE" "2 ^ k dvd node_base bd + start_off_of bd (2 ^ k) c"
    "start_off_of bd (2 ^ k) c < c * PAGE_SIZE \<Longrightarrow> last_end_off bd mod PAGE_SIZE \<noteq> 0 \<and>
       last_end_off bd div PAGE_SIZE + 1 = c \<and> last_end_off bd \<le> start_off_of bd (2 ^ k) c"
proof -
  have b: "node_min_pfn bd \<le> 2 ^ 40" "c \<le> 2 ^ 40" "last_end_off bd div PAGE_SIZE \<le> 2 ^ 40"
    using assms(1,2) by (auto simp: wf_bdata_def node_pages_def PAGE_SIZE_def)
  have phys: "PFN_PHYS c = c * PAGE_SIZE" using b(2) by (simp add: PFN_PHYS_def PAGE_SIZE_def u64_lim_def)
  have add: "u64_add (PFN_DOWN (last_end_off bd)) 1 = last_end_off bd div PAGE_SIZE + 1"
    using b(3) by (simp add: PFN_DOWN_def u64_add_eq u64_lim_def)
  have mult: "2 ^ k dvd node_base bd + c * PAGE_SIZE"
    using dvd_page_mult [OF assms(4)] by (simp add: node_base_def distrib_right)
  have le: "last_end_off bd \<le> c * PAGE_SIZE" if "last_end_off bd div PAGE_SIZE + 1 = c"
    using that by (simp add: PAGE_SIZE_def)
  note off = start_off_bounds [OF b(1,2) assms(3,4)]
  show "start_off_of bd (2 ^ k) c \<le> c * PAGE_SIZE" "2 ^ k dvd node_base bd + start_off_of bd (2 ^ k) c"
    "start_off_of bd (2 ^ k) c < c * PAGE_SIZE \<Longrightarrow> last_end_off bd mod PAGE_SIZE \<noteq> 0 \<and>
       last_end_off bd div PAGE_SIZE + 1 = c \<and> last_end_off bd \<le> start_off_of bd (2 ^ k) c"
    unfolding start_off_of_def add phys using off [OF le] mult by (auto split: if_splits)
qed

lemma place_block_start:
  "place_block bd sz align c =
    (let start_off = start_off_of bd align c;
         merge = (if PFN_DOWN start_off < c then 1 else 0);
         end_off = u64_add start_off sz;
         bd1 = bd\<lparr>last_end_off := end_off, hint_idx := PFN_UP end_off\<rparr>
     in run_bind (bootmem_reserve_bits bd1 (u64_add (PFN_DOWN start_off) merge) (PFN_UP end_off) BOOTMEM_EXCLUSIVE)
          (\<lambda>(bd2, err).
             if err \<noteq> 0 then Inl Bug_on
             else Inr (bd2, Some (u64_add (PFN_PHYS (node_min_pfn bd)) start_off))))"
  unfolding place_block_def start_off_of_def and_page_mask ..

lemma div_up_partial:
  assumes "(x::nat) mod 4096 \<noteq> 0"
  shows "(x + 4095) div 4096 = x div 4096 + 1"
proof -
  obtain q r where x: "x = q * 4096 + r" "r < 4096" by (metis div_mult_mod_eq mod_less_divisor zero_less_numeral)
  then have "0 < r" using assms by (cases r) auto
  then have "(x + 4095) div 4096 = q + 1" unfolding x(1) using x(2) by (intro div_nat_eqI) (simp_all add: algebra_simps)
  then show ?thesis using x by simp
qed

lemma allocatedI:
  assumes "last_page_ok bd"
    "marked (bd\<lparr>last_end_off := so + sz, hint_idx := h\<rparr>) bd'
       (\<lambda>q. pfn_reserved bd q \<or> node_min_pfn bd + c \<le> q \<and> q < node_min_pfn bd + e)"
    "\<And>q. node_min_pfn bd + c \<le> q \<Longrightarrow> q < node_min_pfn bd + e \<Longrightarrow> \<not> pfn_reserved bd q"
    "e = (so + sz + 4095) div 4096" "so \<le> c * 4096" "c * 4096 < so + 4096" "c \<le> e" "0 < sz"
    "so < c * 4096 \<Longrightarrow> last_end_off bd mod 4096 \<noteq> 0 \<and> last_end_off bd div 4096 + 1 = c \<and> last_end_off bd \<le> so"
    "node_min_pfn bd + e \<le> node_low_pfn bd"
  shows "allocated bd sz bd' (node_base bd + so)"
proof -
  let ?n = "node_min_pfn bd"
  have t: "page_touched (node_base bd + so) sz q \<longleftrightarrow> ?n + so div 4096 \<le> q \<and> q < ?n + e" for q
    unfolding assms(4) by (auto simp: page_touched_def PAGE_SIZE_def node_base_def)
  have bd': "wf_bdata bd'" "mapped bd'" "node_min_pfn bd' = ?n" "node_low_pfn bd' = node_low_pfn bd"
    "last_end_off bd' = so + sz"
    and res: "\<And>q. in_node bd q \<Longrightarrow> pfn_reserved bd' q \<longleftrightarrow> pfn_reserved bd q \<or> ?n + c \<le> q \<and> q < ?n + e"
    using assms(2) by (auto simp: marked_def in_node_def)
  have first: "so div 4096 = c \<or> so < c * 4096 \<and> so div 4096 + 1 = c" using assms(5,6) by linarith
  have old: "pfn_reserved bd (?n + so div 4096)" "shared_page bd (node_base bd + so) (?n + so div 4096)"
    if "so < c * 4096"
  proof -
    have l: "last_end_off bd mod 4096 \<noteq> 0" "last_end_off bd div 4096 + 1 = c" "last_end_off bd \<le> so"
      using assms(9) [OF that] by auto
    moreover have "so div 4096 = last_end_off bd div 4096" using first that l(2) by linarith
    ultimately show "pfn_reserved bd (?n + so div 4096)" "shared_page bd (node_base bd + so) (?n + so div 4096)"
      using assms(1) by (simp_all add: last_page_ok_def shared_page_def PAGE_SIZE_def)
  qed
  have split: "?n + so div 4096 \<le> q \<longleftrightarrow> ?n + c \<le> q \<or> so < c * 4096 \<and> q = ?n + so div 4096" for q
    using first by linarith
  have "in_node bd q" if "?n + so div 4096 \<le> q" "q < ?n + e" for q
    using that assms(10) by (simp add: in_node_def)
  moreover have "pfn_reserved bd' q \<longleftrightarrow> pfn_reserved bd q \<or> page_touched (node_base bd + so) sz q" if "in_node bd q" for q
    unfolding res [OF that] t split using old(1) first by auto
  moreover have "last_page_ok bd'"
    unfolding last_page_ok_def bd'(3,5) PAGE_SIZE_def
  proof
    assume nz: "(so + sz) mod 4096 \<noteq> 0"
    let ?x = "(so + sz) div 4096"
    have x: "e = ?x + 1" "so div 4096 \<le> ?x" 
      unfolding assms(4) using nz by (simp_all add: div_up_partial div_le_mono)
    have "in_node bd (?n + ?x)" using x(1) assms(10) by (simp add: in_node_def)
    moreover have "pfn_reserved bd (?n + ?x) \<or> c \<le> ?x"
    proof (cases "c \<le> ?x")
      case False
      then have "so < c * 4096" "?x = so div 4096" using first x(2) by linarith+
      then show ?thesis using old(1) by simp
    qed simp
    ultimately show "pfn_reserved bd' (?n + ?x)" using res x(1) by auto
  qed
  ultimately show ?thesis
    unfolding allocated_def t using bd' assms(3) old(2) split by auto
qed

lemma place_block_spec:
  assumes wf: "wf_bdata bd" and m: "node_bootmem_map bd = Some (p, m)" and lp: "last_page_ok bd"
    and fit: "fits bd m (k - 12) (PFN_UP sz) midx c" and midx: "midx \<le> node_pages bd"
    and "0 < sz" "sz \<le> 2 ^ 52" "k \<le> 52"
  shows "\<exists>bd' a. place_block bd sz (2 ^ k) c = Inr (bd', Some a) \<and> 2 ^ k dvd a \<and>
    allocated bd sz bd' a \<and> a + sz \<le> (node_min_pfn bd + midx) * PAGE_SIZE"
proof -
  let ?n = "node_min_pfn bd" and ?so = "start_off_of bd (2 ^ k) c"
  let ?e = "PFN_UP (?so + sz)"
  have szl: "sz + PAGE_SIZE \<le> u64_lim" using assms(7) by (simp add: PAGE_SIZE_def u64_lim_def)
  have np: "0 < PFN_UP sz" using less_PFN_UP [OF szl, of 0] assms(6) by simp
  have c: "c < node_pages bd" "2 ^ (k - 12) dvd ?n + c" "c + PFN_UP sz \<le> midx"
    "\<And>i. c \<le> i \<Longrightarrow> i < c + PFN_UP sz \<Longrightarrow> \<not> test_bit i m"
    using fit midx np by (auto simp: fits_def)
  note so = start_off_of_spec [OF wf c(1) assms(8) c(2)]
  have b: "?n \<le> 2 ^ 40" "c \<le> 2 ^ 40" "midx \<le> 2 ^ 40" "?n + node_pages bd = node_low_pfn bd"
    using wf c(1) midx by (auto simp: wf_bdata_def node_pages_def)
  have so': "?so \<le> 2 ^ 52" using so(1) b(2) by (simp add: PAGE_SIZE_def)
  have lim: "?so + sz + PAGE_SIZE \<le> u64_lim" "?so + sz < u64_lim" "node_base bd + ?so < u64_lim"
    using so' assms(7) b(1) by (simp_all add: PAGE_SIZE_def u64_lim_def node_base_def)
  have up: "PFN_UP x = (x + 4095) div 4096" if "x \<le> ?so + sz" for x
    using that lim(1) by (simp add: PFN_UP_eq PAGE_SIZE_def)
  have near: "c * 4096 < ?so + 4096"
  proof (cases "?so < c * PAGE_SIZE")
    case True
    then have "0 < last_end_off bd mod 4096" "last_end_off bd div 4096 + 1 = c" "last_end_off bd \<le> ?so"
      using so(3) by (auto simp: PAGE_SIZE_def)
    then show ?thesis using div_mult_mod_eq [of "last_end_off bd" 4096] by linarith
  qed (simp add: PAGE_SIZE_def)
  have e: "?e \<le> c + PFN_UP sz" "c \<le> ?e"
    using so(1) near assms(6) by (simp_all add: up PAGE_SIZE_def)
  have "PFN_DOWN ?so + (if PFN_DOWN ?so < c then 1 else 0) = c"
    using so(1) near by (auto simp: PFN_DOWN_def PAGE_SIZE_def)
  then have start: "u64_add (PFN_DOWN ?so) (if PFN_DOWN ?so < c then 1 else 0) = c"
    using b(2) by (metis u64_add_eq pfn_lim)
  have phys: "PFN_PHYS ?n = node_base bd"
    using b(1) by (simp add: PFN_PHYS_def node_base_def PAGE_SIZE_def u64_lim_def)
  let ?bd1 = "bd\<lparr>last_end_off := ?so + sz, hint_idx := ?e\<rparr>"
  have wf1: "wf_bdata ?bd1"
    using wf m e(1) c(3) midx so(1) by (simp add: wf_bdata_def node_pages_def up PAGE_SIZE_def)
  have r1: "pfn_reserved ?bd1 = pfn_reserved bd" using m by (simp add: fun_eq_iff pfn_reserved_def)
  have clear: "\<not> pfn_reserved bd q" if "?n + c \<le> q" "q < ?n + ?e" for q
    using c(4) [of "q - ?n"] that e(1) m by (simp add: pfn_reserved_def)
  have "\<exists>bd'. mark_bootmem_node ?bd1 (?n + c) (?n + ?e) True BOOTMEM_EXCLUSIVE = Inr (bd', 0) \<and>
      marked ?bd1 bd' (\<lambda>q. pfn_reserved ?bd1 q \<or> ?n + c \<le> q \<and> q < ?n + ?e)"
    by (rule reserve_node_ok [OF wf1]) (use m e b(4) c(3) midx clear in \<open>simp_all add: mapped_def r1\<close>)
  then obtain bd' where bd': "mark_bootmem_node ?bd1 (?n + c) (?n + ?e) True BOOTMEM_EXCLUSIVE = Inr (bd', 0)"
      "marked ?bd1 bd' (\<lambda>q. pfn_reserved bd q \<or> ?n + c \<le> q \<and> q < ?n + ?e)" unfolding r1 by blast
  have "bootmem_reserve_bits ?bd1 c ?e BOOTMEM_EXCLUSIVE = Inr (bd', 0)"
    using mark_node_idx [OF wf1, of "?n + c" "?n + ?e" True BOOTMEM_EXCLUSIVE] bd'(1) e b(4) c(3) midx by simp
  then have "place_block bd sz (2 ^ k) c = Inr (bd', Some (node_base bd + ?so))"
    unfolding place_block_start by (simp add: Let_def u64_add_eq lim start phys)
  moreover have "allocated bd sz bd' (node_base bd + ?so)"
    by (rule allocatedI [OF lp bd'(2)])
      (use clear so(1,3) e near b(4) c(3) midx up [of "?so + sz"] assms(6) in \<open>simp_all add: PAGE_SIZE_def\<close>)
  moreover have "node_base bd + ?so + sz \<le> (?n + midx) * PAGE_SIZE"
    using so(1) c(3) up [of sz] by (simp add: node_base_def PAGE_SIZE_def)
  ultimately show ?thesis
    using so(2) by (intro exI [of _ bd'] exI [of _ "node_base bd + ?so"] conjI) assumption+
qed

subsection \<open>Allocating from one node\<close>

definition bdata_hi :: "bootmem_data \<Rightarrow> u64 \<Rightarrow> u64" where
  "bdata_hi bd limit =
    (if limit div PAGE_SIZE \<noteq> 0 \<and> node_low_pfn bd > limit div PAGE_SIZE then limit div PAGE_SIZE else node_low_pfn bd)"

definition bdata_start :: "bootmem_data \<Rightarrow> u64 \<Rightarrow> u64 \<Rightarrow> nat \<Rightarrow> u64" where
  "bdata_start bd goal limit j =
    (if goal div PAGE_SIZE \<noteq> 0 \<and> node_min_pfn bd < goal div PAGE_SIZE \<and> goal div PAGE_SIZE < bdata_hi bd limit
     then ALIGN (goal div PAGE_SIZE) (2 ^ j) else ALIGN (node_min_pfn bd) (2 ^ j))"

text \<open>The candidates for an area that is not shared with the last one, as frame numbers.\<close>

definition free_run :: "bootmem_data \<Rightarrow> u64 \<Rightarrow> nat \<Rightarrow> u64 \<Rightarrow> u64 \<Rightarrow> u64 \<Rightarrow> bool" where
  "free_run bd sz j goal limit c \<longleftrightarrow> bdata_start bd goal limit j \<le> c \<and> 2 ^ j dvd c \<and>
    c + PFN_UP sz \<le> bdata_hi bd limit \<and> (\<forall>q. c \<le> q \<and> q < c + PFN_UP sz \<longrightarrow> \<not> pfn_reserved bd q)"

lemma pow2_and_pred: "k < 64 \<Longrightarrow> (2::nat) ^ k AND u64_sub (2 ^ k) 1 = 0"
  using take_bit_eq_mask [of k "2 ^ k :: nat"]
  by (simp add: u64_sub_eq pow2_less_u64_lim mask_eq_exp_minus_1 take_bit_eq_mod)

lemma page_step: "max (2 ^ k div PAGE_SIZE) 1 = 2 ^ (k - 12)"
proof (cases "12 \<le> k")
  case True
  then have "(2::nat) ^ k = 2 ^ (k - 12) * 2 ^ 12" by (simp only: flip: power_add) simp
  then have "(2::nat) ^ k = 2 ^ (k - 12) * PAGE_SIZE" by (simp add: PAGE_SIZE_def)
  moreover have "(1::nat) \<le> 2 ^ (k - 12)" by simp
  ultimately show ?thesis by (simp only: nonzero_mult_div_cancel_right PAGE_SIZE_def max_absorb1)
next
  case False
  then have "(2::nat) ^ k < 2 ^ 12" by (intro power_strict_increasing) auto
  then show ?thesis using False by (simp add: PAGE_SIZE_def)
qed

lemma bdata_start_bounds:
  assumes "wf_bdata bd" "j \<le> 40"
  shows "node_min_pfn bd \<le> bdata_start bd goal limit j" "bdata_start bd goal limit j \<le> 2 ^ 41"
    "2 ^ j dvd bdata_start bd goal limit j"
proof -
  have p: "(2::nat) ^ j \<le> 2 ^ 40" using assms(2) by (rule power_increasing) simp
  have lo: "node_low_pfn bd \<le> 2 ^ 40" "node_min_pfn bd \<le> 2 ^ 40" "bdata_hi bd limit \<le> 2 ^ 40"
    using assms(1) by (auto simp: wf_bdata_def bdata_hi_def)
  have A: "x \<le> ALIGN x (2 ^ j) \<and> ALIGN x (2 ^ j) \<le> 2 ^ 41 \<and> 2 ^ j dvd ALIGN x (2 ^ j)" if "x \<le> 2 ^ 40" for x
  proof -
    have "x + 2 ^ j \<le> u64_lim" using that p by (simp add: u64_lim_def)
    from ALIGN_bounds [OF this] show ?thesis using assms(2) that p by auto
  qed
  show "node_min_pfn bd \<le> bdata_start bd goal limit j" "bdata_start bd goal limit j \<le> 2 ^ 41"
    "2 ^ j dvd bdata_start bd goal limit j"
    using A [of "node_min_pfn bd"] A [of "goal div PAGE_SIZE"] lo by (auto simp: bdata_start_def)
qed

lemma alloc_bootmem_bdata_eq:
  assumes "wf_bdata bd" "node_bootmem_map bd = Some (p, m)" "0 < sz" "sz \<le> 2 ^ 52" "k \<le> 52"
    "limit = 0 \<or> goal + sz \<le> limit" "goal \<le> 2 ^ 63"
  shows "alloc_bootmem_bdata env bd sz (2 ^ k) goal limit =
    (let n = node_min_pfn bd; hi = bdata_hi bd limit;
         s0 = bdata_start bd goal limit (k - 12) - n; hinted = hint_idx bd > s0;
         search = find_block (hi - n + 2) env bd m sz (2 ^ (k - 12)) (hi - n);
         place = (\<lambda>r. case r of Some i \<Rightarrow> place_block bd sz (2 ^ k) i | None \<Rightarrow> Inr (bd, None))
     in if hi \<le> n then Inr (bd, None)
        else run_bind (search (if hinted then align_idx bd (hint_idx bd) (2 ^ (k - 12)) else s0))
          (\<lambda>r. if r = None \<and> hinted then run_bind (search (align_idx bd s0 (2 ^ (k - 12)))) place else place r))"
proof -
  let ?hi = "if limit div PAGE_SIZE \<noteq> 0 \<and> node_low_pfn bd > limit div PAGE_SIZE then limit div PAGE_SIZE else node_low_pfn bd"
  let ?g = "goal div PAGE_SIZE" and ?j = "k - 12" and ?n = "node_min_pfn bd"
  have goal: "u64_add goal sz = goal + sz" using assms(4,7) by (simp add: u64_add_eq u64_lim_def)
  have "?j \<le> 40" using assms(5) by simp
  note st = bdata_start_bounds [OF assms(1) this, of goal limit]
  have "u64_sub (bdata_start bd goal limit ?j) ?n = bdata_start bd goal limit ?j - ?n"
    using st(1,2) by (intro u64_sub_eq) (auto simp: u64_lim_def)
  then have s0: "u64_sub (if ?g \<noteq> 0 \<and> ?n < ?g \<and> ?g < ?hi then ALIGN ?g (2 ^ ?j) else ALIGN ?n (2 ^ ?j)) ?n =
      bdata_start bd goal limit ?j - ?n"
    unfolding bdata_start_def bdata_hi_def .
  have "?hi \<le> 2 ^ 40" using assms(1) by (auto simp: wf_bdata_def)
  then have hi: "u64_sub ?hi ?n = ?hi - ?n" if "\<not> ?hi \<le> ?n"
    using that by (intro u64_sub_eq) (auto simp: u64_lim_def)
  have guards: "sz \<noteq> 0" "\<not> ((2::nat) ^ k AND u64_sub (2 ^ k) 1 \<noteq> 0)" "\<not> (limit \<noteq> 0 \<and> goal + sz > limit)"
    using assms(3,5,6) pow2_and_pred [of k] by auto
  have place: "(\<lambda>r. case r of
        None \<Rightarrow> if h then x else Inr (bd, None) | Some i \<Rightarrow> place_block bd sz (2 ^ k) i) =
      (\<lambda>r. if r = None \<and> h then x
        else case r of None \<Rightarrow> Inr (bd, None) | Some i \<Rightarrow> place_block bd sz (2 ^ k) i)" for h x
    by (auto split: option.splits)
  note eq = alloc_bootmem_bdata_def Let_def goal page_step s0 assms(2) option.case prod.case bdata_hi_def place
    if_not_P [OF guards(1)] if_not_P [OF guards(2)] if_not_P [OF guards(3)]
  show ?thesis
  proof (cases "?hi \<le> ?n")
    case True
    show ?thesis unfolding eq if_P [OF True] ..
  next
    case False
    show ?thesis unfolding eq if_not_P [OF False] hi [OF False] ..
  qed
qed

definition alloc_outcome ::
  "bootmem_data \<Rightarrow> u64 \<Rightarrow> nat \<Rightarrow> u64 \<Rightarrow> u64 \<Rightarrow> bootmem_data \<Rightarrow> u64 option \<Rightarrow> bool" where
  "alloc_outcome bd sz k goal limit bd' r =
    (case r of
       None \<Rightarrow> bd' = bd \<and> (\<forall>c. \<not> free_run bd sz (k - 12) goal limit c)
     | Some a \<Rightarrow> 2 ^ k dvd a \<and> allocated bd sz bd' a \<and> a + sz \<le> bdata_hi bd limit * PAGE_SIZE)"

lemma free_run_fits:
  assumes "free_run bd sz j goal limit c" "node_bootmem_map bd = Some (p, m)" "node_min_pfn bd \<le> bdata_start bd goal limit j"
  shows "bdata_start bd goal limit j - node_min_pfn bd \<le> c - node_min_pfn bd"
    "fits bd m j (PFN_UP sz) (bdata_hi bd limit - node_min_pfn bd) (c - node_min_pfn bd)"
proof -
  let ?n = "node_min_pfn bd"
  have c: "?n \<le> c" "2 ^ j dvd c" "c + PFN_UP sz \<le> bdata_hi bd limit"
    using assms(1,3) by (auto simp: free_run_def)
  show "bdata_start bd goal limit j - ?n \<le> c - ?n" using assms(1) by (auto simp: free_run_def)
  have "\<not> test_bit i m" if "c - ?n \<le> i" "i < c - ?n + PFN_UP sz" for i
  proof -
    have "c \<le> ?n + i" "?n + i < c + PFN_UP sz" using that c(1) by linarith+
    then have "\<not> pfn_reserved bd (?n + i)" using assms(1) by (simp add: free_run_def)
    then show ?thesis using assms(2) by (simp add: pfn_reserved_def)
  qed
  then show "fits bd m j (PFN_UP sz) (bdata_hi bd limit - ?n) (c - ?n)" using c by (simp add: fits_def)
qed

lemma alloc_bootmem_bdata_spec:
  assumes wf: "wf_bdata bd" "mapped bd" "last_page_ok bd" and env: "next_zero_ok env"
    and sz: "0 < sz" "sz \<le> 2 ^ 52" "k \<le> 52" and lim: "limit = 0 \<or> goal + sz \<le> limit" "goal \<le> 2 ^ 63"
  shows "\<exists>bd' r. alloc_bootmem_bdata env bd sz (2 ^ k) goal limit = Inr (bd', r) \<and>
    alloc_outcome bd sz k goal limit bd' r"
proof -
  let ?j = "k - 12" and ?n = "node_min_pfn bd" and ?hi = "bdata_hi bd limit" and ?np = "PFN_UP sz"
  let ?s0 = "bdata_start bd goal limit ?j - ?n" and ?midx = "?hi - ?n"
  let ?place = "\<lambda>r. case r of Some i \<Rightarrow> place_block bd sz (2 ^ k) i | None \<Rightarrow> Inr (bd, None)"
  obtain p m where m: "node_bootmem_map bd = Some (p, m)" using wf(2) by (auto simp: mapped_def)
  let ?find = "find_block (?midx + 2) env bd m sz (2 ^ ?j) ?midx"
  have szl: "sz + PAGE_SIZE \<le> u64_lim" using sz by (simp add: PAGE_SIZE_def u64_lim_def)
  have np: "0 < ?np" "?np \<le> 2 ^ 52"
    using less_PFN_UP [OF szl, of 0] PFN_UP_le [OF szl, of "2 ^ 52"] sz by (auto simp: PAGE_SIZE_def)
  have j: "?j \<le> 40" using sz(3) by simp
  note st = bdata_start_bounds [OF wf(1) j, of goal limit]
  have n: "?n \<le> 2 ^ 40" "?midx \<le> node_pages bd" "?midx \<le> 2 ^ 40" "?midx \<le> 64 * length m"
    using wf(1) map_covers [OF wf(1) m] by (auto simp: wf_bdata_def bdata_hi_def node_pages_def)
  have none: "\<not> free_run bd sz ?j goal limit c" if "\<forall>c\<ge>?s0. \<not> fits bd m ?j ?np ?midx c" for c
    using free_run_fits [OF _ m st(1)] that by blast
  have found: "\<exists>r. ?find s = Inr r \<and>
      (case r of None \<Rightarrow> \<forall>c\<ge>s. \<not> fits bd m ?j ?np ?midx c | Some c \<Rightarrow> s \<le> c \<and> fits bd m ?j ?np ?midx c)" for s
    using find_block_spec [OF env n(4,3,1) j np, of "?midx + 1" s] by simp
  have place: "\<exists>bd' r. place_block bd sz (2 ^ k) c = Inr (bd', r) \<and> alloc_outcome bd sz k goal limit bd' r"
    if "fits bd m ?j ?np ?midx c" "?n \<le> ?hi" for c
    using place_block_spec [OF wf(1) m wf(3) that(1) n(2) sz] that(2) by (force simp: alloc_outcome_def)
  have last: "\<exists>bd' r. run_bind (?find s) ?place = Inr (bd', r) \<and> alloc_outcome bd sz k goal limit bd' r"
    if s: "s \<le> ?s0" "?n \<le> ?hi" for s
  proof -
    obtain r where r: "?find s = Inr r"
      "case r of None \<Rightarrow> \<forall>c\<ge>s. \<not> fits bd m ?j ?np ?midx c | Some c \<Rightarrow> s \<le> c \<and> fits bd m ?j ?np ?midx c"
      using found by blast
    show ?thesis
    proof (cases r)
      case None
      then have "\<forall>c\<ge>?s0. \<not> fits bd m ?j ?np ?midx c" using r(2) s(1) by auto
      then show ?thesis using None r(1) none by (simp add: alloc_outcome_def)
    next
      case (Some c)
      then show ?thesis using place [of c] r s(2) by simp
    qed
  qed
  have "align_idx bd ?s0 (2 ^ ?j) \<le> ?s0"
    by (rule align_idx_bounds(4) [OF n(1) _ j]) (use st in auto)
  note again = last [OF this]
  note eq = alloc_bootmem_bdata_eq [OF wf(1) m sz lim, of env, unfolded Let_def]
  show ?thesis
  proof (cases "?hi \<le> ?n")
    case True
    then have "\<not> free_run bd sz ?j goal limit c" for c using st(1) np(1) by (auto simp: free_run_def)
    then show ?thesis unfolding eq if_P [OF True] by (simp add: alloc_outcome_def)
  next
    case False
    show ?thesis
    proof (cases "hint_idx bd > ?s0")
      case True
      obtain r where r: "?find (align_idx bd (hint_idx bd) (2 ^ ?j)) = Inr r"
        "case r of None \<Rightarrow> True | Some c \<Rightarrow> fits bd m ?j ?np ?midx c"
        using found [of "align_idx bd (hint_idx bd) (2 ^ ?j)"] by (auto split: option.splits)
      show ?thesis
        unfolding eq if_not_P [OF False] if_P [OF True] r(1) run_bind.simps
        using again False place r(2) True by (cases r) (simp_all del: find_block.simps)
    next
      case nh: False
      show ?thesis
        unfolding eq if_not_P [OF False] if_not_P [OF nh] using last [of ?s0] False nh
        by (simp del: find_block.simps)
    qed
  qed
qed

subsection \<open>A concrete environment\<close>

function next_zero :: "bitmap \<Rightarrow> u64 \<Rightarrow> u64 \<Rightarrow> u64" where
  "next_zero m n off =
    (if off < n then if test_bit off m then next_zero m n (off + 1) else off else n)"
  by pat_completeness auto
termination by (relation "measure (\<lambda>(m, n, off). n - off)") auto

declare next_zero.simps [simp del]

definition demo_bootmem_env :: bootmem_env where
  "demo_bootmem_env = \<lparr>find_next_zero_bit = next_zero, validate_memmodel_limits = (\<lambda>a b. (a, b)),
     slab_is_available = False, kzalloc = (\<lambda>n. None), kzalloc_node = (\<lambda>n nid. None),
     max_dma32_pfn = None, pgdat_end_pfn = (\<lambda>nid. 128)\<rparr>"

lemma next_zero_spec:
  "next_zero m n off \<le> n \<and> (\<forall>i. off \<le> i \<and> i < next_zero m n off \<longrightarrow> test_bit i m) \<and>
    (next_zero m n off < n \<longrightarrow> off \<le> next_zero m n off \<and> \<not> test_bit (next_zero m n off) m)"
proof (induction m n off rule: next_zero.induct)
  case (1 m n off)
  show ?case
  proof (cases "off < n \<and> test_bit off m")
    case True
    then have eq: "next_zero m n off = next_zero m n (off + 1)" by (simp add: next_zero.simps [of m n off])
    have split: "off \<le> i \<longleftrightarrow> i = off \<or> off + 1 \<le> i" for i by auto
    show ?thesis unfolding eq split using "1.IH" True by auto
  qed (auto simp: next_zero.simps [of m n off])
qed

lemma demo_next_zero_ok: "next_zero_ok demo_bootmem_env"
  using next_zero_spec by (simp add: next_zero_ok_def demo_bootmem_env_def)

definition demo_node :: bootmem_data where
  "demo_node = \<lparr>node_min_pfn = 64, node_low_pfn = 128, node_bootmem_map = Some (64, [4]), last_end_off = 0, hint_idx = 0\<rparr>"

lemma demo_node_ok: "wf_bdata demo_node" "mapped demo_node" "last_page_ok demo_node"
  by (simp_all add: demo_node_def wf_bdata_def node_pages_def mapped_def last_page_ok_def)

lemma demo_node_reserved: "64 \<le> q \<Longrightarrow> q < 128 \<Longrightarrow> pfn_reserved demo_node q \<longleftrightarrow> q = 66"
  using demo_bootmem_reserved [of q]
  by (auto simp: demo_node_def demo_bootmem_def bootmem_reserved_def page_reserved_def in_node_def)

lemma demo_ALIGN: "ALIGN 64 (Suc 0) = 64"
  using ALIGN_pow2 [of 64 0] by (simp add: u64_lim_def)

subsection \<open>Properties\<close>

text \<open>
  C8: \<^verbatim>\<open>alloc_bootmem_bdata\<close> never stops in a \<^verbatim>\<open>BUG()\<close> on a well-formed node and always returns.  It
  returns \<^verbatim>\<open>NULL\<close>, changing nothing, only when no aligned run of free pages of the size lies
  between the start and the limit; otherwise an aligned area that ends below the limit, all of
  whose pages were free, but for the page it may share with the end of the last area, and which
  are exactly the pages reserved in addition afterwards.
\<close>

theorem alloc_bootmem_bdata_correct:
  assumes "wf_bdata bd" "mapped bd" "last_page_ok bd" "next_zero_ok env" "0 < sz" "sz \<le> 2 ^ 52" "k \<le> 52"
    "limit = 0 \<or> goal + sz \<le> limit" "goal \<le> 2 ^ 63"
  shows "\<exists>bd' r. alloc_bootmem_bdata env bd sz (2 ^ k) goal limit = Inr (bd', r) \<and>
    (case r of
       None \<Rightarrow> bd' = bd \<and> (\<forall>c. \<not> free_run bd sz (k - 12) goal limit c)
     | Some a \<Rightarrow> 2 ^ k dvd a \<and> a + sz \<le> bdata_hi bd limit * PAGE_SIZE \<and> wf_bdata bd' \<and> last_page_ok bd' \<and>
         (\<forall>q. page_touched a sz q \<longrightarrow> in_node bd q \<and> (pfn_reserved bd q \<longrightarrow> shared_page bd a q)) \<and>
         (\<forall>q. in_node bd q \<longrightarrow> (pfn_reserved bd' q \<longleftrightarrow> pfn_reserved bd q \<or> page_touched a sz q)))"
proof -
  obtain bd' r where r: "alloc_bootmem_bdata env bd sz (2 ^ k) goal limit = Inr (bd', r)"
    "alloc_outcome bd sz k goal limit bd' r"
    using alloc_bootmem_bdata_spec [OF assms] by blast
  then show ?thesis
    by (intro exI [of _ bd'] exI [of _ r]) (auto simp: alloc_outcome_def allocated_def split: option.splits)
qed

lemma alloc_bootmem_bdata_correct_witness:
  "\<exists>bd' a. alloc_bootmem_bdata demo_bootmem_env demo_node 0x1800 (2 ^ 6) 0 0 = Inr (bd', Some a) \<and>
    2 ^ 6 dvd a \<and> a + 0x1800 \<le> 128 * 4096"
proof -
  have "PFN_UP 0x1800 = 2" by (simp add: PFN_UP_def u64_add_def PAGE_SIZE_def u64_lim_def)
  then have "free_run demo_node 0x1800 0 0 0 64"
    using demo_node_reserved by (auto simp: free_run_def bdata_start_def bdata_hi_def demo_ALIGN demo_node_def)
  then show ?thesis
    using alloc_bootmem_bdata_correct [OF demo_node_ok demo_next_zero_ok, of "0x1800" 6 0 0]
    by (auto simp: bdata_hi_def PAGE_SIZE_def demo_node_def split: option.splits)
qed

text \<open>A sequence of requests (size, alignment, goal, limit) to one node, with the areas given out.\<close>

primrec alloc_sequence ::
  "bootmem_env \<Rightarrow> bootmem_data \<Rightarrow> (u64 \<times> nat \<times> u64 \<times> u64) list \<Rightarrow> (bootmem_data \<times> (u64 \<times> u64) list) run" where
  "alloc_sequence env bd [] = Inr (bd, [])"
| "alloc_sequence env bd (req # reqs) =
    (case req of (sz, k, goal, limit) \<Rightarrow>
       run_bind (alloc_bootmem_bdata env bd sz (2 ^ k) goal limit)
         (\<lambda>(bd', r).
            run_bind (alloc_sequence env bd' reqs)
              (\<lambda>(bd'', areas). Inr (bd'', (case r of None \<Rightarrow> [] | Some a \<Rightarrow> [(a, sz)]) @ areas))))"

definition request_ok :: "u64 \<times> nat \<times> u64 \<times> u64 \<Rightarrow> bool" where
  "request_ok req = (case req of (sz, k, goal, limit) \<Rightarrow>
     0 < sz \<and> sz \<le> 2 ^ 52 \<and> k \<le> 52 \<and> (limit = 0 \<or> goal + sz \<le> limit) \<and> goal \<le> 2 ^ 63)"

definition apart :: "u64 \<times> u64 \<Rightarrow> u64 \<times> u64 \<Rightarrow> bool" where
  "apart x y \<longleftrightarrow> fst x + snd x \<le> fst y \<or> fst y + snd y \<le> fst x"

text \<open>An area that is given out: its pages are reserved, and it ends before the free rest of the last page.\<close>

definition held :: "bootmem_data \<Rightarrow> u64 \<times> u64 \<Rightarrow> bool" where
  "held bd x \<longleftrightarrow> 0 < snd x \<and> (\<forall>q. page_touched (fst x) (snd x) q \<longrightarrow>
     in_node bd q \<and> pfn_reserved bd q \<and> (\<forall>a. shared_page bd a q \<longrightarrow> fst x + snd x \<le> a))"

lemma page_of_byte: "a \<le> b \<Longrightarrow> b < a + sz \<Longrightarrow> page_touched a sz (b div PAGE_SIZE)"
  by (auto simp: page_touched_def PAGE_SIZE_def)

lemma allocated_apart:
  assumes "held bd x" "allocated bd sz bd' a" "0 < sz"
  shows "apart x (a, sz)"
proof (rule ccontr)
  assume "\<not> apart x (a, sz)"
  then have o: "a < fst x + snd x" "fst x < a + sz" by (auto simp: apart_def)
  let ?b = "max (fst x) a"
  have "0 < snd x" using assms(1) by (simp add: held_def)
  then have "page_touched (fst x) (snd x) (?b div PAGE_SIZE)" "page_touched a sz (?b div PAGE_SIZE)"
    using o assms(3) by (auto intro!: page_of_byte)
  then show False using assms(1,2) o(1) unfolding held_def allocated_def by (meson not_le)
qed

lemma held_new:
  assumes "allocated bd sz bd' a" "0 < sz"
  shows "held bd' (a, sz)"
  using assms by (auto simp: held_def allocated_def shared_page_def in_node_def node_base_def)

lemma held_step:
  assumes "held bd x" "allocated bd sz bd' a" "0 < sz"
  shows "held bd' x"
proof -
  have shared: "fst x + snd x \<le> a'" if q: "page_touched (fst x) (snd x) q" "shared_page bd' a' q" for q a'
  proof -
    have e: "node_base bd + last_end_off bd' = a + sz" "node_min_pfn bd' = node_min_pfn bd"
      using assms(2) by (auto simp: allocated_def)
    have s: "last_end_off bd' mod PAGE_SIZE \<noteq> 0" "q = node_min_pfn bd + last_end_off bd' div PAGE_SIZE" "a + sz \<le> a'"
      using q(2) e by (auto simp: shared_page_def node_base_def)
    have qe: "q = (a + sz) div PAGE_SIZE" "(a + sz) mod PAGE_SIZE \<noteq> 0"
      using s(1,2) unfolding e(1) [symmetric] node_base_def by (simp_all add: PAGE_SIZE_def)
    have "q * PAGE_SIZE + (a + sz) mod PAGE_SIZE = a + sz" unfolding qe(1) by simp
    moreover have "(a + sz) mod PAGE_SIZE < PAGE_SIZE" "(q + 1) * PAGE_SIZE = q * PAGE_SIZE + PAGE_SIZE"
      by (simp_all add: PAGE_SIZE_def)
    ultimately have "page_touched a sz q" using assms(3) qe(2) unfolding page_touched_def by linarith
    then have "pfn_reserved bd q \<longrightarrow> shared_page bd a q" using assms(2) by (simp add: allocated_def)
    then have "fst x + snd x \<le> a" using assms(1) q(1) by (auto simp: held_def)
    then show ?thesis using s(3) by linarith
  qed
  show ?thesis
    using assms(1,2) shared by (auto simp: held_def allocated_def in_node_def)
qed

lemma alloc_sequence_spec:
  assumes "wf_bdata bd" "mapped bd" "last_page_ok bd" "next_zero_ok env" "\<forall>req\<in>set reqs. request_ok req"
    "\<forall>x\<in>X. held bd x"
  shows "\<exists>bd' areas. alloc_sequence env bd reqs = Inr (bd', areas) \<and> wf_bdata bd' \<and>
    sorted_wrt apart areas \<and> (\<forall>x\<in>X. \<forall>y\<in>set areas. apart x y) \<and> (\<forall>x\<in>X \<union> set areas. held bd' x)"
  using assms
proof (induction reqs arbitrary: bd X)
  case (Cons req reqs)
  obtain sz k goal limit where req: "req = (sz, k, goal, limit)" by (cases req) auto
  have ok: "0 < sz" "sz \<le> 2 ^ 52" "k \<le> 52" "limit = 0 \<or> goal + sz \<le> limit" "goal \<le> 2 ^ 63"
    using Cons.prems(5) req by (auto simp: request_ok_def)
  obtain bd1 r where r: "alloc_bootmem_bdata env bd sz (2 ^ k) goal limit = Inr (bd1, r)"
    "alloc_outcome bd sz k goal limit bd1 r"
    using alloc_bootmem_bdata_spec [OF Cons.prems(1-4) ok] by blast
  show ?case
  proof (cases r)
    case None
    then have "bd1 = bd" using r(2) by (simp add: alloc_outcome_def)
    then show ?thesis
      using Cons.IH [OF Cons.prems(1-4) _ Cons.prems(6)] Cons.prems(5) r(1) None req by auto
  next
    case (Some a)
    then have al: "allocated bd sz bd1 a" using r(2) by (simp add: alloc_outcome_def)
    then have wf1: "wf_bdata bd1" "mapped bd1" "last_page_ok bd1" by (auto simp: allocated_def)
    have "\<forall>x\<in>insert (a, sz) X. held bd1 x" using held_new [OF al ok(1)] held_step [OF _ al ok(1)] Cons.prems(6) by auto
    from Cons.IH [OF wf1 Cons.prems(4) _ this] Cons.prems(5) obtain bd' areas where
      i: "alloc_sequence env bd1 reqs = Inr (bd', areas)" "wf_bdata bd'" "sorted_wrt apart areas"
      "\<forall>x\<in>insert (a, sz) X. \<forall>y\<in>set areas. apart x y" "\<forall>x\<in>insert (a, sz) X \<union> set areas. held bd' x" by auto
    have "alloc_sequence env bd (req # reqs) = Inr (bd', (a, sz) # areas)" using r(1) Some i(1) req by simp
    moreover have "apart x (a, sz)" if "x \<in> X" for x using allocated_apart [OF _ al ok(1)] Cons.prems(6) that by blast
    ultimately show ?thesis using i(2-5) by auto
  qed
qed simp

text \<open>
  C29: Areas never overlap: whatever requests of sizes, alignments, goals and limits are made to a
  node one after the other, and although a small area is packed into the page the last one ended
  in, the areas given out are pairwise disjoint, and the node stays well-formed.
\<close>

theorem alloc_sequence_disjoint:
  assumes "wf_bdata bd" "mapped bd" "last_page_ok bd" "next_zero_ok env" "\<forall>req\<in>set reqs. request_ok req"
  shows "\<exists>bd' areas. alloc_sequence env bd reqs = Inr (bd', areas) \<and> wf_bdata bd' \<and> sorted_wrt apart areas"
  using alloc_sequence_spec [OF assms, of "{}"] by auto

lemma alloc_sequence_disjoint_witness:
  "\<exists>bd' areas. alloc_sequence demo_bootmem_env demo_node [(100, 3, 0, 0), (5000, 6, 0, 0), (8192, 13, 0, 0)] = Inr (bd', areas) \<and>
    sorted_wrt apart areas"
  using alloc_sequence_disjoint [OF demo_node_ok demo_next_zero_ok, of "[(100, 3, 0, 0), (5000, 6, 0, 0), (8192, 13, 0, 0)]"]
  by (auto simp: request_ok_def simp del: alloc_sequence.simps)

text \<open>
  C34: \<^verbatim>\<open>__alloc_bootmem_low_node\<close> asks for memory below \<^verbatim>\<open>ARCH_LOW_ADDRESS_LIMIT\<close>, but
  \<^verbatim>\<open>___alloc_bootmem_node\<close> passes 0 on as the limit: on a node above 4 GiB with free memory the
  call succeeds and returns an area above the limit.
\<close>

theorem alloc_bootmem_low_node_above_limit:
  assumes "wf_bdata (bootmem_node_data s ! nid)" "mapped (bootmem_node_data s ! nid)"
    "last_page_ok (bootmem_node_data s ! nid)" "next_zero_ok env" "\<not> slab_is_available env"
    "0 < sz" "sz \<le> 2 ^ 52" "k \<le> 52" "goal \<le> 2 ^ 63" "free_run (bootmem_node_data s ! nid) sz (k - 12) goal 0 c"
    "ARCH_LOW_ADDRESS_LIMIT < node_base (bootmem_node_data s ! nid)"
  shows "\<exists>s' a. alloc_bootmem_low_node env s nid sz (2 ^ k) goal = Inr (s', Some a) \<and> ARCH_LOW_ADDRESS_LIMIT < a"
proof -
  let ?bd = "bootmem_node_data s ! nid"
  obtain bd' r where r: "alloc_bootmem_bdata env ?bd sz (2 ^ k) goal 0 = Inr (bd', r)"
    "alloc_outcome ?bd sz k goal 0 bd' r"
    using alloc_bootmem_bdata_spec [OF assms(1-4,6-8) _ assms(9), of 0] by blast
  then obtain a where a: "r = Some a" "allocated ?bd sz bd' a"
    using assms(10) by (auto simp: alloc_outcome_def split: option.splits)
  have "page_touched a sz (a div PAGE_SIZE)" using assms(6) by (intro page_of_byte) auto
  then have "node_min_pfn ?bd \<le> a div PAGE_SIZE" using a(2) by (auto simp: allocated_def in_node_def)
  then have "node_base ?bd \<le> a" by (simp add: node_base_def PAGE_SIZE_def less_eq_div_iff_mult_less_eq)
  then have "ARCH_LOW_ADDRESS_LIMIT < a" using assms(11) by linarith
  then show ?thesis
    using r(1) a(1) assms(5)
    by (simp add: alloc_bootmem_low_node_def do_alloc_bootmem_node_def or_panic_def do_alloc_bootmem_node_nopanic_def
        alloc_node_round_def Let_def)
qed

text \<open>A node of 64 free pages that starts at 8 GiB.\<close>

definition demo_high :: bootmem_state where
  "demo_high = demo_bootmem\<lparr>bootmem_node_data :=
     [\<lparr>node_min_pfn = 0x200000, node_low_pfn = 0x200040, node_bootmem_map = Some (0x200000, [0]),
       last_end_off = 0, hint_idx = 0\<rparr>], bdata_list := [0]\<rparr>"

lemma alloc_bootmem_low_node_above_limit_witness:
  "\<exists>s' a. alloc_bootmem_low_node demo_bootmem_env demo_high 0 4096 (2 ^ 12) 0 = Inr (s', Some a) \<and>
    ARCH_LOW_ADDRESS_LIMIT < a"
proof -
  let ?bd = "bootmem_node_data demo_high ! 0"
  have bd: "?bd = \<lparr>node_min_pfn = 0x200000, node_low_pfn = 0x200040, node_bootmem_map = Some (0x200000, [0]),
       last_end_off = 0, hint_idx = 0\<rparr>" by (simp add: demo_high_def)
  have a: "ALIGN 0x200000 (Suc 0) = 0x200000" using ALIGN_pow2 [of "0x200000" 0] by (simp add: u64_lim_def)
  have p: "PFN_UP 4096 = 1" by (simp add: PFN_UP_def u64_add_def PAGE_SIZE_def u64_lim_def)
  have free: "\<not> pfn_reserved ?bd q" if "0x200000 \<le> q" "q < 0x200001" for q
  proof -
    have "q = 0x200000" using that by linarith
    then show ?thesis by (simp add: bd pfn_reserved_def test_bit_def BITS_PER_LONG_def)
  qed
  have "free_run ?bd 4096 (12 - 12) 0 0 0x200000"
    unfolding free_run_def using free by (simp add: p a bdata_start_def bdata_hi_def bd)
  moreover have "wf_bdata ?bd" "mapped ?bd" "last_page_ok ?bd" "ARCH_LOW_ADDRESS_LIMIT < node_base ?bd"
    by (simp_all add: bd wf_bdata_def node_pages_def mapped_def last_page_ok_def ARCH_LOW_ADDRESS_LIMIT_def
        node_base_def PAGE_SIZE_def)
  ultimately show ?thesis
    by (intro alloc_bootmem_low_node_above_limit [OF _ _ _ demo_next_zero_ok]) (simp_all add: demo_bootmem_env_def)
qed

end
