(* ===== verification/Bootmem_Release.thy ===== *)
theory Bootmem_Release
  imports Bootmem_Nodes
begin

text \<open>
  Handing the free pages over to the page allocator at the end of boot: \<^verbatim>\<open>free_all_bootmem_core\<close>
  reads the bitmap 64 pages at a time and gives whole aligned blocks away in one call.  A call of
  \<^verbatim>\<open>__free_pages_bootmem\<close> is recorded as the page, the frame number passed along with it, and the
  order.
\<close>

type_synonym release = "u64 \<times> u64 \<times> nat"

definition free_bootmem_late :: "bootmem_state \<Rightarrow> u64 \<Rightarrow> u64 \<Rightarrow> bootmem_state" where
  "free_bootmem_late s physaddr sz =
    (let cursor = PFN_UP physaddr;
         end = PFN_DOWN (u64_add physaddr sz)
     in s\<lparr>released := released s @ map (\<lambda>pfn. (pfn, pfn, 0)) [cursor..<end],
          totalram_pages := u64_add (totalram_pages s) (end - cursor)\<rparr>)"

text \<open>The word \<^verbatim>\<open>vec\<close> that the loop looks at: bit 0 is the page at index \<open>idx\<close>, set if the page is free.\<close>

definition chunk_vec :: "bitmap \<Rightarrow> u64 \<Rightarrow> u64 \<Rightarrow> 64 word run" where
  "chunk_vec m idx rest =
    (let shift = idx AND (BITS_PER_LONG - 1); w = idx div BITS_PER_LONG in
     if \<not> w < length m then Inl Bad_access
     else
       let vec = NOT (m ! w) in
       if shift = 0 then Inr vec
       else if rest \<ge> BITS_PER_LONG then
         if \<not> w + 1 < length m then Inl Bad_access
         else Inr (drop_bit shift vec OR push_bit (BITS_PER_LONG - shift) (NOT (m ! (w + 1))))
       else Inr (drop_bit shift vec))"

text \<open>The inner loop: one call for every bit that is set.\<close>

function free_vec :: "64 word \<Rightarrow> u64 \<Rightarrow> u64 \<Rightarrow> release list" where
  "free_vec vec cur stop =
    (if vec \<noteq> 0 \<and> cur \<noteq> stop
     then (if vec AND 1 \<noteq> 0 then [(cur, cur, 0)] else []) @ free_vec (drop_bit 1 vec) (cur + 1) stop
     else [])"
  by pat_completeness auto
termination
proof (relation "measure (\<lambda>(vec, cur, stop). unat vec)")
  fix vec :: "64 word" and cur stop :: u64
  assume "vec \<noteq> 0 \<and> cur \<noteq> stop"
  then have "0 < unat vec" by (simp add: unat_gt_0)
  then show "((drop_bit 1 vec, cur + 1, stop), vec, cur, stop) \<in> measure (\<lambda>(vec, cur, stop). unat vec)"
    unfolding in_measure prod.case unat_drop_bit_eq by (simp add: drop_bit_eq_div)
qed simp

text \<open>The outer loop; the result is the calls made and the number of pages counted.\<close>

primrec release_loop :: "nat \<Rightarrow> u64 \<Rightarrow> bitmap \<Rightarrow> u64 \<Rightarrow> u64 \<Rightarrow> (release list \<times> u64) run" where
  "release_loop 0 n m start end = Inl No_fuel"
| "release_loop (Suc fuel) n m start end =
    (if start < end then
       run_bind (chunk_vec m (u64_sub start n) (u64_sub end start))
         (\<lambda>vec.
            if start AND (BITS_PER_LONG - 1) = 0 \<and> vec = - 1 then
              run_bind (release_loop fuel n m (u64_add start BITS_PER_LONG) end)
                (\<lambda>(rs, count). Inr ((start, start, 6) # rs, u64_add count BITS_PER_LONG))
            else
              let stop = ALIGN (u64_add start 1) BITS_PER_LONG;
                  now = free_vec vec start stop
              in run_bind (release_loop fuel n m stop end)
                   (\<lambda>(rs, count). Inr (now @ rs, u64_add count (length now))))
     else Inr ([], 0))"

definition free_all_bootmem_core :: "bootmem_data \<Rightarrow> (bootmem_data \<times> u64 \<times> release list) run" where
  "free_all_bootmem_core bd =
    (case node_bootmem_map bd of
       None \<Rightarrow> Inr (bd, 0, [])
     | Some (p, m) \<Rightarrow>
         run_bind (release_loop (node_low_pfn bd - node_min_pfn bd + 1) (node_min_pfn bd) m (node_min_pfn bd) (node_low_pfn bd))
           (\<lambda>(rs, count).
              let cur = node_min_pfn bd;
                  pages = bootmem_bootmap_pages (u64_sub (node_low_pfn bd) (node_min_pfn bd))
              in Inr (bd\<lparr>node_bootmem_map := None\<rparr>, u64_add count pages,
                      rs @ map (\<lambda>i. (p + i, cur + i, 0)) [0..<pages])))"

definition reset_node_managed_pages :: "u64 list \<Rightarrow> u64 list" where
  "reset_node_managed_pages zones = map (\<lambda>z. 0) zones"

definition reset_all_zones_managed_pages :: "bootmem_state \<Rightarrow> bootmem_state" where
  "reset_all_zones_managed_pages s =
    (if reset_managed_pages_done s then s
     else s\<lparr>managed_pages := map reset_node_managed_pages (managed_pages s), reset_managed_pages_done := True\<rparr>)"

primrec free_all_nodes ::
  "nat list \<Rightarrow> bootmem_data list \<Rightarrow> u64 \<Rightarrow> (bootmem_data list \<times> u64 \<times> release list) run" where
  "free_all_nodes [] nodes tot = Inr (nodes, tot, [])"
| "free_all_nodes (n # ns) nodes tot =
    run_bind (free_all_bootmem_core (nodes ! n))
      (\<lambda>(bd, count, rs).
         run_bind (free_all_nodes ns (nodes[n := bd]) (u64_add tot count))
           (\<lambda>(nodes', tot', rs'). Inr (nodes', tot', rs @ rs')))"

definition free_all_bootmem :: "bootmem_state \<Rightarrow> (bootmem_state \<times> u64) run" where
  "free_all_bootmem s0 =
    (let s = reset_all_zones_managed_pages s0 in
     run_bind (free_all_nodes (bdata_list s) (bootmem_node_data s) 0)
       (\<lambda>(nodes, total_pages, rs).
          Inr (s\<lparr>bootmem_node_data := nodes, released := released s @ rs,
                 totalram_pages := u64_add (totalram_pages s) total_pages\<rparr>, total_pages)))"

declare free_vec.simps [simp del]

subsection \<open>What one round releases\<close>

fun pages_of :: "release list \<Rightarrow> u64 list" where
  "pages_of [] = []"
| "pages_of ((page, pfn, order) # rs) = [page..<page + 2 ^ order] @ pages_of rs"

lemma pages_of_append [simp]: "pages_of (xs @ ys) = pages_of xs @ pages_of ys"
  by (induction xs rule: pages_of.induct) auto

lemma and_long_mask: "(x::nat) AND (BITS_PER_LONG - 1) = x mod 64"
  using take_bit_eq_mask [of 6 x] by (simp add: BITS_PER_LONG_def take_bit_eq_mod mask_eq_exp_minus_1)

lemma free_vec_pages:
  "cur \<le> stop \<Longrightarrow> pages_of (free_vec vec cur stop) = filter (\<lambda>q. bit vec (q - cur)) [cur..<stop]"
proof (induction vec cur stop rule: free_vec.induct)
  case (1 vec cur stop)
  show ?case
  proof (cases "vec \<noteq> 0 \<and> cur \<noteq> stop")
    case True
    then have lt: "cur < stop" using "1.prems" by simp
    have "bit (drop_bit 1 vec) (q - (cur + 1)) = bit vec (q - cur)" if "q \<in> set [cur + 1..<stop]" for q
      using that by (simp add: bit_drop_bit_eq Suc_diff_Suc Suc_le_eq)
    then have rest: "pages_of (free_vec (drop_bit 1 vec) (cur + 1) stop) = filter (\<lambda>q. bit vec (q - cur)) [cur + 1..<stop]"
      using "1.IH" [OF True] lt by (metis (no_types, lifting) Suc_eq_plus1 Suc_leI filter_cong)
    have one: "(vec AND 1 \<noteq> 0) = bit vec 0" by (simp add: and_one_eq bit_0 odd_iff_mod_2_eq_one)
    show ?thesis
      using True rest lt unfolding one by (simp add: free_vec.simps [of vec cur stop] one upt_conv_Cons)
  qed (use "1.prems" in \<open>auto simp: free_vec.simps [of vec cur stop]\<close>)
qed

lemma length_free_vec: "length (free_vec vec cur stop) = length (pages_of (free_vec vec cur stop))"
proof (induction vec cur stop rule: free_vec.induct)
  case (1 vec cur stop)
  then show ?case by (simp add: free_vec.simps [of vec cur stop])
qed

definition chunk_sees :: "u64 \<Rightarrow> u64 \<Rightarrow> nat \<Rightarrow> bool" where
  "chunk_sees idx rest i \<longleftrightarrow> i < 64 \<and> (i < 64 - idx mod 64 \<or> 64 \<le> rest)"

lemma word_index: "r < 64 \<Longrightarrow> (w * 64 + r) div 64 = w \<and> (w * 64 + r) mod 64 = r" for w r :: nat
  by simp

lemma chunk_vec_spec:
  assumes "idx div 64 < length m" "idx mod 64 \<noteq> 0 \<Longrightarrow> 64 \<le> rest \<Longrightarrow> idx div 64 + 1 < length m"
  shows "\<exists>vec. chunk_vec m idx rest = Inr vec \<and> (\<forall>i. bit vec i \<longleftrightarrow> chunk_sees idx rest i \<and> \<not> test_bit (idx + i) m)"
proof -
  let ?s = "idx mod 64" and ?w = "idx div 64"
  have low: "(idx + i) div 64 = ?w \<and> (idx + i) mod 64 = ?s + i" if "i < 64 - ?s" for i
    using word_index [of "?s + i" ?w] that by (simp flip: add.assoc)
  have high: "(idx + i) div 64 = ?w + 1 \<and> (idx + i) mod 64 = i - (64 - ?s)" if "64 - ?s \<le> i" "i < 64" for i
  proof -
    have "w * 64 + s + i = (w + 1) * 64 + (i - (64 - s))" if "s < 64" "64 - s \<le> i" for w s
      using that by (simp add: algebra_simps)
    from this [of ?s ?w] that(1) have "idx + i = (?w + 1) * 64 + (i - (64 - ?s))" by simp
    then show ?thesis using word_index [of "i - (64 - ?s)" "?w + 1"] that(2) by simp
  qed
  have not_bit: "bit (NOT w) i \<longleftrightarrow> i < 64 \<and> \<not> bit w i" for w :: "64 word" and i
    by (auto simp: bit_simps)
  show ?thesis
  proof (cases "?s = 0")
    case True
    then have "chunk_vec m idx rest = Inr (NOT (m ! ?w))"
      using assms(1) unfolding chunk_vec_def and_long_mask Let_def by (simp add: BITS_PER_LONG_def)
    moreover have "bit (NOT (m ! ?w)) i \<longleftrightarrow> chunk_sees idx rest i \<and> \<not> test_bit (idx + i) m" for i
      using low [of i] True by (auto simp: not_bit chunk_sees_def test_bit_def BITS_PER_LONG_def)
    ultimately show ?thesis by blast
  next
    case False
    let ?v = "drop_bit ?s (NOT (m ! ?w))"
    let ?u = "push_bit (64 - ?s) (NOT (m ! Suc ?w))"
    have v: "bit ?v i \<longleftrightarrow> i < 64 - ?s \<and> \<not> test_bit (idx + i) m" for i
      using low [of i] by (auto simp: bit_drop_bit_eq not_bit test_bit_def BITS_PER_LONG_def)
    have u: "bit ?u i \<longleftrightarrow> 64 - ?s \<le> i \<and> i < 64 \<and> \<not> test_bit (idx + i) m" for i
      using high [of i] False by (auto simp: bit_push_bit_iff not_bit test_bit_def BITS_PER_LONG_def)
    have eq: "chunk_vec m idx rest = Inr (if 64 \<le> rest then ?v OR ?u else ?v)"
      using False assms unfolding chunk_vec_def and_long_mask Let_def by (simp add: BITS_PER_LONG_def)
    have "bit (if 64 \<le> rest then ?v OR ?u else ?v) i \<longleftrightarrow> chunk_sees idx rest i \<and> \<not> test_bit (idx + i) m" for i
      by (auto simp: bit_or_iff v u chunk_sees_def)
    then show ?thesis unfolding eq by blast
  qed
qed

subsection \<open>What the node releases\<close>

text \<open>
  The end of what is looked at.  A node that does not start on a multiple of 64 pages loses the
  tail of its last block: the word that holds it is only read when 64 more pages follow.
\<close>

definition tail_lost :: "bootmem_data \<Rightarrow> bool" where
  "tail_lost bd \<longleftrightarrow> node_min_pfn bd div 64 < node_low_pfn bd div 64 \<and>
    0 < node_min_pfn bd mod 64 \<and> node_min_pfn bd mod 64 < node_low_pfn bd mod 64"

definition seen_end :: "bootmem_data \<Rightarrow> u64" where
  "seen_end bd = (if tail_lost bd then node_low_pfn bd div 64 * 64 + node_min_pfn bd mod 64 else node_low_pfn bd)"

lemma next_block:
  assumes "start < 2 ^ 40"
  shows "ALIGN (u64_add start 1) BITS_PER_LONG = (start div 64 + 1) * 64"
proof -
  have "u64_add start 1 = start + 1" using assms by (simp add: u64_add_eq u64_lim_def)
  moreover have "ALIGN (start + 1) (2 ^ 6) = (start + 1 + (2 ^ 6 - 1)) div 2 ^ 6 * 2 ^ 6"
    by (rule ALIGN_pow2) (use assms in \<open>simp_all add: u64_lim_def\<close>)
  moreover have "(start + 64) div 64 = start div 64 + 1" by simp
  ultimately show ?thesis by (simp add: BITS_PER_LONG_def add.commute)
qed

lemma block_offset:
  fixes n t :: nat
  assumes "n \<le> 64 * t" "n mod 64 \<noteq> 0"
  shows "(64 * t - n) mod 64 = 64 - n mod 64"
proof -
  obtain u a where n: "n = 64 * u + a" "a < 64" by (metis mult_div_mod_eq mod_less_divisor zero_less_numeral)
  then have "0 < a" using assms(2) by (cases a) auto
  then have "u < t" using n assms(1) by linarith
  then obtain d where "t = Suc (u + d)" by (metis less_imp_Suc_add)
  then have "64 * t - n = 64 * d + (64 - a)" using n by simp
  then have "(64 * t - n) mod 64 = (64 - a) mod 64" by simp
  then show ?thesis using n \<open>0 < a\<close> by simp
qed

lemma seen_end_iff:
  fixes n l start q :: nat
  assumes "n \<le> start" "start < l" "start = n \<or> start mod 64 = 0" "start \<le> q" "q < (start div 64 + 1) * 64"
  shows "q < l \<and> (q - start < 64 - (start - n) mod 64 \<or> 64 \<le> l - start) \<longleftrightarrow>
    q < (if n div 64 < l div 64 \<and> 0 < n mod 64 \<and> n mod 64 < l mod 64 then l div 64 * 64 + n mod 64 else l)"
proof (cases "start = n")
  case True
  have "start div 64 * 64 \<le> start" by simp
  then have "q - start < 64" using assms(4,5) by (simp add: algebra_simps)
  moreover have "q < l div 64 * 64 + n mod 64 \<and> l div 64 * 64 + n mod 64 \<le> l"
    if "n div 64 < l div 64" "n mod 64 < l mod 64"
  proof -
    have "(n div 64 + 1) * 64 \<le> l div 64 * 64" using that(1) by (intro mult_le_mono1) simp
    moreover have "l div 64 * 64 + l mod 64 = l" by simp
    ultimately show ?thesis using assms(5) that(2) unfolding True by (intro conjI) linarith+
  qed
  ultimately show ?thesis using True by auto
next
  case False
  then obtain t where t: "start = 64 * t" using assms(3) by (metis mod_0_imp_dvd dvdE)
  have q: "64 * t \<le> q" "q < 64 * t + 64" using assms(4,5) unfolding t by simp_all
  obtain v b where l: "l = 64 * v + b" "b < 64" "l div 64 = v" "l mod 64 = b"
    by (metis mult_div_mod_eq mod_less_divisor zero_less_numeral)
  have tl: "t \<le> v" using assms(2) l(1,2) unfolding t by linarith
  have nt: "n div 64 < t" using False assms(1) unfolding t by linarith
  show ?thesis
  proof (cases "n mod 64 = 0")
    case True
    then have "(64 * t - n) mod 64 = 0" by (metis dvd_diff_nat dvd_triv_left mod_0_imp_dvd mod_eq_0_iff_dvd)
    then show ?thesis using q True unfolding t by auto
  next
    case nz: False
    have off: "64 - (64 * t - n) mod 64 = n mod 64"
      using block_offset [of n t] assms(1) nz unfolding t by (simp add: less_imp_le)
    have "n div 64 < v" "0 < n mod 64" using nt tl nz by linarith+
    then show ?thesis
      unfolding t off l(3,4) l(1) using q tl l(2)
      by (cases "t = v"; cases "n mod 64 < b") (simp_all, linarith+)
  qed
qed

lemma seen_end_le: "seen_end bd \<le> node_low_pfn bd"
proof -
  have "node_low_pfn bd div 64 * 64 + node_low_pfn bd mod 64 = node_low_pfn bd" by simp
  moreover have "node_min_pfn bd mod 64 < node_low_pfn bd mod 64" if "tail_lost bd"
    using that by (simp add: tail_lost_def)
  ultimately have "node_low_pfn bd div 64 * 64 + node_min_pfn bd mod 64 \<le> node_low_pfn bd" if "tail_lost bd"
    using that by linarith
  then show ?thesis by (simp add: seen_end_def)
qed

lemma seen_pages:
  assumes wf: "wf_bdata bd" and m: "node_bootmem_map bd = Some (p, m)"
    and s: "node_min_pfn bd \<le> start" "start < node_low_pfn bd" "start = node_min_pfn bd \<or> start mod 64 = 0"
    and q: "start \<le> q" "q < (start div 64 + 1) * 64"
  shows "chunk_sees (start - node_min_pfn bd) (node_low_pfn bd - start) (q - start) \<and> \<not> pfn_reserved bd q
    \<longleftrightarrow> q < seen_end bd \<and> \<not> pfn_reserved bd q"
proof -
  let ?n = "node_min_pfn bd" and ?l = "node_low_pfn bd"
  let ?idx = "start - node_min_pfn bd"
  have "start div 64 * 64 \<le> start" by simp
  then have i: "q - start < 64" using q by (simp add: algebra_simps)
  have "q < ?l" if "q - start < 64 - ?idx mod 64" "\<not> pfn_reserved bd q"
  proof (rule ccontr)
    assume "\<not> q < ?l"
    then have pages: "node_pages bd \<le> q - ?n" using s(1,2) by (simp add: node_pages_def)
    have "?idx < 64 * length m" using map_covers [OF wf m] s(1,2) unfolding node_pages_def by linarith
    then have "?idx div 64 + 1 \<le> length m" by (simp add: Suc_le_eq div_less_iff_less_mult mult.commute)
    then have "(?idx div 64 + 1) * 64 \<le> 64 * length m" by (metis mult.commute mult_le_mono2)
    moreover have "q - ?n < (?idx div 64 + 1) * 64"
    proof -
      have "q - ?n = ?idx div 64 * 64 + (?idx mod 64 + (q - start))" using q(1) s(1) by simp
      also have "\<dots> < ?idx div 64 * 64 + 64" using that(1) by linarith
      finally show ?thesis by (simp add: distrib_right)
    qed
    ultimately have "test_bit (q - ?n) m" using wf m pages by (simp add: wf_bdata_def)
    then show False using that(2) m by (simp add: pfn_reserved_def)
  qed
  then show ?thesis
    using seen_end_iff [OF s q] i unfolding chunk_sees_def seen_end_def tail_lost_def by auto
qed

lemma upt_append_le: "s \<le> t \<Longrightarrow> t \<le> e \<Longrightarrow> [s..<e] = [s..<t] @ [t..<e]"
  by (metis le_add_diff_inverse upt_add_eq_append)

lemma filter_upt_split:
  assumes "s \<le> t"
  shows "filter (\<lambda>q. q < e \<and> f q) [s..<t] @ filter f [t..<e] = filter f [s..<e]"
proof (cases "t \<le> e")
  case True
  then have "filter (\<lambda>q. q < e \<and> f q) [s..<t] = filter f [s..<t]" by (intro filter_cong) auto
  then show ?thesis using assms True by (simp add: upt_append_le [of s t e])
next
  case False
  have "filter (\<lambda>q. q < e \<and> f q) [s..<t] = filter f (filter (\<lambda>q. q < e) [s..<t])" by (simp add: conj_commute)
  also have "filter (\<lambda>q. q < e) [s..<t] = [s..<e]"
  proof (cases "s \<le> e")
    case True
    then have "[s..<t] = [s..<e] @ [e..<t]" using False by (simp add: upt_append_le [of s e t])
    then show ?thesis by (simp add: filter_empty_conv)
  qed (simp add: filter_empty_conv)
  finally show ?thesis using False by simp
qed

text \<open>One round releases the free pages up to the end of the block of 64.\<close>

lemma release_round:
  assumes wf: "wf_bdata bd" and m: "node_bootmem_map bd = Some (p, m)"
    and s: "node_min_pfn bd \<le> start" "start < node_low_pfn bd" "start = node_min_pfn bd \<or> start mod 64 = 0"
  shows "\<exists>vec. chunk_vec m (u64_sub start (node_min_pfn bd)) (u64_sub (node_low_pfn bd) start) = Inr vec \<and>
    filter (\<lambda>q. bit vec (q - start)) [start..<(start div 64 + 1) * 64] =
    filter (\<lambda>q. q < seen_end bd \<and> \<not> pfn_reserved bd q) [start..<(start div 64 + 1) * 64]"
proof -
  let ?n = "node_min_pfn bd" and ?l = "node_low_pfn bd"
  let ?idx = "start - node_min_pfn bd"
  have lim: "?l \<le> 2 ^ 40" using wf by (simp add: wf_bdata_def)
  then have sub: "u64_sub start ?n = ?idx" "u64_sub ?l start = ?l - start"
    using s(1,2) by (auto intro!: u64_sub_eq simp: u64_lim_def)
  have cov: "?l - ?n \<le> 64 * length m" using map_covers [OF wf m] by (simp add: node_pages_def)
  then have w: "?idx div 64 < length m"
    using s(1,2) by (simp add: div_less_iff_less_mult mult.commute)
  have w1: "?idx div 64 + 1 < length m" if "?idx mod 64 \<noteq> 0" "64 \<le> ?l - start"
  proof -
    have "?idx div 64 * 64 + ?idx mod 64 = ?idx" "0 < ?idx mod 64" using that(1) by simp_all
    then have "(?idx div 64 + 1) * 64 < ?idx + 64" by (simp only: distrib_right)
    moreover have "?idx + 64 \<le> 64 * length m" using that(2) s(1) cov by linarith
    ultimately have "(?idx div 64 + 1) * 64 < length m * 64" by (simp only: mult.commute)
    then show ?thesis by (simp only: mult_less_cancel2)
  qed
  obtain vec where vec: "chunk_vec m ?idx (?l - start) = Inr vec"
    "\<And>i. bit vec i \<longleftrightarrow> chunk_sees ?idx (?l - start) i \<and> \<not> test_bit (?idx + i) m"
    using chunk_vec_spec [OF w w1] by blast
  have "bit vec (q - start) \<longleftrightarrow> q < seen_end bd \<and> \<not> pfn_reserved bd q"
    if "start \<le> q" "q < (start div 64 + 1) * 64" for q
  proof -
    have "?idx + (q - start) = q - ?n" using that(1) s(1) by simp
    then show ?thesis using seen_pages [OF wf m s that] m unfolding vec(2) by (simp add: pfn_reserved_def)
  qed
  then have "filter (\<lambda>q. bit vec (q - start)) [start..<(start div 64 + 1) * 64] =
      filter (\<lambda>q. q < seen_end bd \<and> \<not> pfn_reserved bd q) [start..<(start div 64 + 1) * 64]"
    by (intro filter_cong) auto
  then show ?thesis using vec(1) unfolding sub by blast
qed

lemma release_now:
  assumes "start \<le> (start div 64 + 1) * 64"
  shows "pages_of (if start mod 64 = 0 \<and> vec = - 1 then [(start, start, 6)]
      else free_vec vec start ((start div 64 + 1) * 64)) =
    filter (\<lambda>q. bit vec (q - start)) [start..<(start div 64 + 1) * 64]"
proof (cases "start mod 64 = 0 \<and> vec = - 1")
  case True
  then have stop: "(start div 64 + 1) * 64 = start + 64" by auto
  have "filter (\<lambda>q. bit vec (q - start)) [start..<start + 64] = [start..<start + 64]"
    by (rule filter_True) (use True in auto)
  then show ?thesis unfolding stop if_P [OF True] by simp
next
  case False
  show ?thesis unfolding if_not_P [OF False] by (rule free_vec_pages [OF assms])
qed

lemma release_loop_spec:
  assumes wf: "wf_bdata bd" and m: "node_bootmem_map bd = Some (p, m)"
    and "node_min_pfn bd \<le> start" "start = node_min_pfn bd \<or> start mod 64 = 0" "node_low_pfn bd \<le> fuel + start"
  shows "\<exists>rs. release_loop (Suc fuel) (node_min_pfn bd) m start (node_low_pfn bd) = Inr (rs, length (pages_of rs)) \<and>
    pages_of rs = filter (\<lambda>q. \<not> pfn_reserved bd q) [start..<seen_end bd]"
  using assms(3-5)
proof (induction fuel arbitrary: start)
  case 0
  then show ?case using seen_end_le [of bd] by (intro exI [of _ "[]"]) simp
next
  case (Suc fuel)
  let ?n = "node_min_pfn bd" and ?l = "node_low_pfn bd" and ?stop = "(start div 64 + 1) * 64"
  show ?case
  proof (cases "start < ?l")
    case False
    then show ?thesis using seen_end_le [of bd] by (intro exI [of _ "[]"]) simp
  next
    case True
    have "?l \<le> 2 ^ 40" using wf by (simp add: wf_bdata_def)
    then have lim: "start < 2 ^ 40" using True by simp
    obtain vec where vec: "chunk_vec m (u64_sub start ?n) (u64_sub ?l start) = Inr vec"
      "filter (\<lambda>q. bit vec (q - start)) [start..<?stop] =
       filter (\<lambda>q. q < seen_end bd \<and> \<not> pfn_reserved bd q) [start..<?stop]"
      using release_round [OF wf m Suc.prems(1) True Suc.prems(2)] by blast
    have st: "start < ?stop" "?stop mod 64 = 0" by (simp_all add: dividend_less_times_div)
    obtain rs where rs: "release_loop (Suc fuel) ?n m ?stop ?l = Inr (rs, length (pages_of rs))"
      "pages_of rs = filter (\<lambda>q. \<not> pfn_reserved bd q) [?stop..<seen_end bd]"
      using Suc.IH [of ?stop] Suc.prems st by (auto simp del: release_loop.simps)
    define now where "now = (if start mod 64 = 0 \<and> vec = - 1 then [(start, start, 6)] else free_vec vec start ?stop)"
    have now: "pages_of now = filter (\<lambda>q. bit vec (q - start)) [start..<?stop]"
      unfolding now_def by (rule release_now) (use st in simp)
    have all: "pages_of (now @ rs) = filter (\<lambda>q. \<not> pfn_reserved bd q) [start..<seen_end bd]"
      unfolding pages_of_append now vec(2) rs(2) using st(1) by (intro filter_upt_split) simp
    have "length (pages_of (now @ rs)) \<le> seen_end bd"
      unfolding all by (rule order_trans [OF length_filter_le]) simp
    then have "length (pages_of (now @ rs)) \<le> 2 ^ 40" using seen_end_le [of bd] \<open>?l \<le> 2 ^ 40\<close> by linarith
    then have add: "u64_add (length (pages_of rs)) (length (pages_of now)) = length (pages_of (now @ rs))"
      by (simp add: u64_add_eq u64_lim_def)
    have "release_loop (Suc (Suc fuel)) ?n m start ?l = Inr (now @ rs, length (pages_of (now @ rs)))"
    proof (cases "start mod 64 = 0 \<and> vec = - 1")
      case block: True
      have "u64_add start BITS_PER_LONG = ?stop"
        using block lim by (auto simp: u64_add_eq u64_lim_def BITS_PER_LONG_def)
      moreover have "now = [(start, start, 6)]" "length (pages_of now) = BITS_PER_LONG"
        using block by (simp_all add: now_def BITS_PER_LONG_def)
      ultimately show ?thesis
        using True vec(1) rs(1) block add
        unfolding release_loop.simps(2) [of "Suc fuel"] and_long_mask by (simp del: release_loop.simps)
    next
      case single: False
      have "length now = length (pages_of now)" using single by (simp add: now_def length_free_vec)
      then show ?thesis
        using True vec(1) rs(1) single add
        unfolding release_loop.simps(2) [of "Suc fuel"] and_long_mask next_block [OF lim] Let_def
          now_def if_not_P [OF single]
        by (simp add: if_not_P [OF single] del: release_loop.simps)
    qed
    then show ?thesis using all by blast
  qed
qed

subsection \<open>Properties\<close>

text \<open>
  The result of \<^verbatim>\<open>free_all_bootmem_core\<close> in full: the calls for the free pages below \<open>seen_end\<close>, each page
  once and in order, then one call for each page of the bitmap itself, which is passed the frame
  numbers from the start of the node on and not its own.
\<close>

lemma and_nat_le: "(a::nat) AND b \<le> a"
  by (metis AND_upper1 of_nat_0_le_iff of_nat_and_eq of_nat_le_iff)

lemma free_all_bootmem_core_spec:
  assumes "wf_bdata bd" "node_bootmem_map bd = Some (p, m)"
  shows "\<exists>rs. free_all_bootmem_core bd =
      Inr (bd\<lparr>node_bootmem_map := None\<rparr>,
           length (pages_of rs) + bootmem_bootmap_pages (node_pages bd),
           rs @ map (\<lambda>i. (p + i, node_min_pfn bd + i, 0)) [0..<bootmem_bootmap_pages (node_pages bd)]) \<and>
    pages_of rs = filter (\<lambda>q. \<not> pfn_reserved bd q) [node_min_pfn bd..<seen_end bd]"
proof -
  let ?n = "node_min_pfn bd" and ?l = "node_low_pfn bd"
  have b: "?n < ?l" "?l \<le> 2 ^ 40" using assms(1) by (auto simp: wf_bdata_def)
  obtain rs where rs: "release_loop (Suc (?l - ?n)) ?n m ?n ?l = Inr (rs, length (pages_of rs))"
    "pages_of rs = filter (\<lambda>q. \<not> pfn_reserved bd q) [?n..<seen_end bd]"
    using release_loop_spec [OF assms, of ?n "?l - ?n"] b by auto
  have sub: "u64_sub ?l ?n = node_pages bd" using b by (simp add: u64_sub_eq u64_lim_def node_pages_def)
  have "length (pages_of rs) \<le> 2 ^ 40"
    unfolding rs(2) using seen_end_le [of bd] b by (intro order_trans [OF length_filter_le]) simp
  moreover have "bootmem_bootmap_pages (node_pages bd) \<le> 2 ^ 52"
  proof -
    have "PAGE_ALIGN x < u64_lim" for x
      unfolding PAGE_ALIGN_def ALIGN_def by (rule le_less_trans [OF and_nat_le]) simp
    then have "PAGE_ALIGN x < 2 ^ 52 * PAGE_SIZE" for x by (simp add: PAGE_SIZE_def u64_lim_def)
    then show ?thesis unfolding bootmem_bootmap_pages_def by (simp add: less_mult_imp_div_less less_imp_le)
  qed
  ultimately have "u64_add (length (pages_of rs)) (bootmem_bootmap_pages (node_pages bd)) =
      length (pages_of rs) + bootmem_bootmap_pages (node_pages bd)"
    by (simp add: u64_add_eq u64_lim_def)
  then show ?thesis
    using assms(2) rs sub by (simp add: free_all_bootmem_core_def Let_def del: release_loop.simps)
qed

text \<open>
  C31: \<^verbatim>\<open>free_all_bootmem_core\<close> ends and hands over, each exactly once and in ascending order, the pages
  of the node that are free, in blocks of 64 where it can, and then the pages of the bitmap,
  reports their number, and drops the bitmap; provided the node does not start inside a block of
  64 pages in such a way that the tail of its last block is overlooked.
\<close>

theorem free_all_bootmem_core_exact:
  assumes "wf_bdata bd" "node_bootmem_map bd = Some (p, m)" "\<not> tail_lost bd"
  shows "\<exists>count rs. free_all_bootmem_core bd = Inr (bd\<lparr>node_bootmem_map := None\<rparr>, count, rs) \<and>
    pages_of rs = filter (\<lambda>q. \<not> pfn_reserved bd q) [node_min_pfn bd..<node_low_pfn bd]
      @ [p..<p + bootmem_bootmap_pages (node_pages bd)] \<and>
    count = length (pages_of rs)"
proof -
  have maps: "pages_of (map (\<lambda>i. (p + i, n + i, 0)) [0..<k]) = [p..<p + k]" for n k
    by (induction k) auto
  have "seen_end bd = node_low_pfn bd" using assms(3) by (simp add: seen_end_def)
  then show ?thesis
    using free_all_bootmem_core_spec [OF assms(1,2)] by (auto simp: maps)
qed

text \<open>A node of 128 pages from page 128 on, with 32 of them reserved.\<close>

definition demo_release :: bootmem_data where
  "demo_release = \<lparr>node_min_pfn = 128, node_low_pfn = 256, node_bootmem_map = Some (512, [0, 0xffffffff]),
     last_end_off = 0, hint_idx = 0\<rparr>"

lemma free_all_bootmem_core_exact_witness:
  "\<exists>count rs. free_all_bootmem_core demo_release =
      Inr (demo_release\<lparr>node_bootmem_map := None\<rparr>, count, rs) \<and> count = length (pages_of rs)"
  using free_all_bootmem_core_exact [of demo_release 512 "[0, 0xffffffff]"]
  by (auto simp: demo_release_def wf_bdata_def node_pages_def PAGE_SIZE_def tail_lost_def)

text \<open>
  C32: A node that starts inside a block of 64 pages and ends further into a later block than it
  started loses memory: the free pages of its last block from the offset of its start on are
  never handed over, though the bitmap that records them is dropped.
\<close>

theorem free_all_bootmem_core_leaks:
  assumes "wf_bdata bd" "node_bootmem_map bd = Some (p, m)" "tail_lost bd" "seen_end bd \<le> q" "q < node_low_pfn bd"
    "\<not> (p \<le> q \<and> q < p + bootmem_bootmap_pages (node_pages bd))"
  shows "\<exists>count rs. free_all_bootmem_core bd = Inr (bd\<lparr>node_bootmem_map := None\<rparr>, count, rs) \<and>
    q \<notin> set (pages_of rs) \<and> seen_end bd < node_low_pfn bd"
proof -
  have maps: "pages_of (map (\<lambda>i. (p + i, n + i, 0)) [0..<k]) = [p..<p + k]" for n k
    by (induction k) auto
  obtain rs where rs: "free_all_bootmem_core bd =
      Inr (bd\<lparr>node_bootmem_map := None\<rparr>, length (pages_of rs) + bootmem_bootmap_pages (node_pages bd),
           rs @ map (\<lambda>i. (p + i, node_min_pfn bd + i, 0)) [0..<bootmem_bootmap_pages (node_pages bd)])"
    "pages_of rs = filter (\<lambda>q. \<not> pfn_reserved bd q) [node_min_pfn bd..<seen_end bd]"
    using free_all_bootmem_core_spec [OF assms(1,2)] by blast
  have "q \<notin> set (pages_of (rs @ map (\<lambda>i. (p + i, node_min_pfn bd + i, 0)) [0..<bootmem_bootmap_pages (node_pages bd)]))"
    using assms(4,6) by (auto simp: maps rs(2))
  then show ?thesis using rs(1) assms(4,5) by auto
qed

text \<open>A node of 126 free pages from page 1 on: the pages 65 to 126 are lost.\<close>

definition demo_leak :: bootmem_data where
  "demo_leak = \<lparr>node_min_pfn = 1, node_low_pfn = 127, node_bootmem_map = Some (512, [0, 0xc000000000000000]),
     last_end_off = 0, hint_idx = 0\<rparr>"

lemma free_all_bootmem_core_leaks_witness:
  "\<not> pfn_reserved demo_leak 100 \<and> (\<exists>count rs. free_all_bootmem_core demo_leak =
      Inr (demo_leak\<lparr>node_bootmem_map := None\<rparr>, count, rs) \<and> 100 \<notin> set (pages_of rs))"
proof -
  have "test_bit i [0, 0xc000000000000000]" if "126 \<le> i" "i < 128" for i
  proof -
    have "i = 126 \<or> i = 127" using that by linarith
    then show ?thesis by (auto simp: test_bit_def BITS_PER_LONG_def)
  qed
  then have wf: "wf_bdata demo_leak" by (simp add: demo_leak_def wf_bdata_def node_pages_def)
  have lost: "tail_lost demo_leak" "seen_end demo_leak = 65"
    by (simp_all add: seen_end_def tail_lost_def demo_leak_def)
  have "\<not> pfn_reserved demo_leak 100"
    by (simp add: demo_leak_def pfn_reserved_def test_bit_def BITS_PER_LONG_def)
  moreover have "\<exists>count rs. free_all_bootmem_core demo_leak =
      Inr (demo_leak\<lparr>node_bootmem_map := None\<rparr>, count, rs) \<and> 100 \<notin> set (pages_of rs) \<and> seen_end demo_leak < node_low_pfn demo_leak"
    by (rule free_all_bootmem_core_leaks [OF wf _ lost(1), of 512 "[0, 0xc000000000000000]"])
      (simp_all add: lost(2), simp_all add: demo_leak_def)
  ultimately show ?thesis by blast
qed

end
