(* ===== verification/Nobootmem.thy ===== *)
theory Nobootmem
  imports Memblock_Iter Memblock_Alloc Bootmem_Release
begin

text \<open>
  The bootmem interface on top of memblock (\<^verbatim>\<open>nobootmem.c\<close>): allocations are memblock
  reservations, and at the end of boot every page of unreserved memory is handed to the page
  allocator in aligned blocks.  The names of the source carry the prefix \<open>nb_\<close>, since
  \<^verbatim>\<open>bootmem.c\<close> declares the same functions.  An allocation is the physical address, 0 for
  \<^verbatim>\<open>NULL\<close>, as in memblock; the contents of memory and the leak detector are not part of the state.
\<close>

section \<open>State\<close>

text \<open>
  The calls of \<^verbatim>\<open>__free_pages_bootmem\<close> and \<^verbatim>\<open>reserve_bootmem_region\<close> are recorded in the order
  in which they are made; the zones are the managed page counts of each online node.
\<close>

record nb_state =
  nb_memblock :: memblock_state
  nb_max_low_pfn :: u64
  nb_totalram_pages :: u64
  nb_managed_pages :: "u64 list list"
  nb_reset_managed_pages_done :: bool
  nb_released :: "release list"
  nb_reserved_calls :: "(u64 \<times> u64) list"

text \<open>
  What the code calls and this repository does not hold: the find-first-set instruction behind
  \<^verbatim>\<open>__ffs\<close>, the slab allocator, and the end of the DMA zone behind
  \<^verbatim>\<open>ARCH_LOW_ADDRESS_LIMIT\<close>.
\<close>

record nb_env =
  nb_boot :: boot_env
  nb_ffs :: "u64 \<Rightarrow> nat"
  nb_low_address_limit :: u64
  nb_kzalloc :: "u64 \<Rightarrow> u64"

definition MAX_ORDER :: nat where
  "MAX_ORDER = 11"

section \<open>Allocation\<close>

function nb_find_again :: "boot_env \<Rightarrow> memblock_state \<Rightarrow> u64 \<Rightarrow> u64 \<Rightarrow> u64 \<Rightarrow> u64 \<Rightarrow> int \<Rightarrow>
    memblock_flags \<Rightarrow> u64 run" where
  "nb_find_again env s sz align goal limit nid flags =
     run_bind (memblock_find_in_range_node env s sz align goal limit nid flags)
       (\<lambda>addr.
          if addr = 0 \<and> flags AND MEMBLOCK_MIRROR \<noteq> 0
          then nb_find_again env s sz align goal limit nid (flags AND NOT MEMBLOCK_MIRROR)
          else Inr addr)"
  by pat_completeness auto
termination
  by (relation "measure (\<lambda>(env, s, sz, align, goal, limit, nid, flags). if flags AND MEMBLOCK_MIRROR = 0 then 0 else 1)")
    (auto simp: clear_mirror)

declare nb_find_again.simps [simp del]

definition nb_alloc_memory_core_early :: "boot_env \<Rightarrow> int \<Rightarrow> u64 \<Rightarrow> u64 \<Rightarrow> u64 \<Rightarrow> u64 \<Rightarrow>
    memblock_state \<Rightarrow> alloc_result" where
  "nb_alloc_memory_core_early env nid sz align goal limit s =
     (let flags = choose_memblock_flags s;
          limit = (if limit > mb_current_limit s then mb_current_limit s else limit) in
      run_bind (nb_find_again env s sz align goal limit nid flags)
        (\<lambda>addr.
           if addr = 0 then Inr (0, s)
           else run_bind (memblock_reserve env addr sz s)
                  (\<lambda>(ret, s'). if ret \<noteq> 0 then Inr (0, s') else Inr (addr, s'))))"

text \<open>The \<^verbatim>\<open>restart\<close> loop: the goal is dropped once.\<close>

function nb_restart :: "boot_env \<Rightarrow> u64 \<Rightarrow> u64 \<Rightarrow> u64 \<Rightarrow> u64 \<Rightarrow> memblock_state \<Rightarrow> alloc_result" where
  "nb_restart env sz align goal limit s =
     run_bind (nb_alloc_memory_core_early env NUMA_NO_NODE sz align goal limit s)
       (\<lambda>(ptr, s').
          if ptr \<noteq> 0 then Inr (ptr, s')
          else if goal \<noteq> 0 then nb_restart env sz align 0 limit s'
          else Inr (0, s'))"
  by pat_completeness auto
termination
  by (relation "measure (\<lambda>(env, sz, align, goal, limit, s). goal)") auto

declare nb_restart.simps [simp del]

definition nb_do_alloc_bootmem_nopanic :: "nb_env \<Rightarrow> u64 \<Rightarrow> u64 \<Rightarrow> u64 \<Rightarrow> u64 \<Rightarrow> memblock_state \<Rightarrow> alloc_result" where
  "nb_do_alloc_bootmem_nopanic env sz align goal limit s =
     (if env_slab_is_available (nb_boot env) then Inr (nb_kzalloc env sz, s)
      else nb_restart (nb_boot env) sz align goal limit s)"

definition nb_alloc_bootmem_nopanic :: "nb_env \<Rightarrow> u64 \<Rightarrow> u64 \<Rightarrow> u64 \<Rightarrow> memblock_state \<Rightarrow> alloc_result" where
  "nb_alloc_bootmem_nopanic env sz align goal = nb_do_alloc_bootmem_nopanic env sz align goal ULLONG_MAX"

definition nb_do_alloc_bootmem :: "nb_env \<Rightarrow> u64 \<Rightarrow> u64 \<Rightarrow> u64 \<Rightarrow> u64 \<Rightarrow> memblock_state \<Rightarrow> alloc_result" where
  "nb_do_alloc_bootmem env sz align goal limit s =
     run_bind (nb_do_alloc_bootmem_nopanic env sz align goal limit s)
       (\<lambda>(mem, s'). if mem \<noteq> 0 then Inr (mem, s') else Inl Panic)"

definition nb_alloc_bootmem :: "nb_env \<Rightarrow> u64 \<Rightarrow> u64 \<Rightarrow> u64 \<Rightarrow> memblock_state \<Rightarrow> alloc_result" where
  "nb_alloc_bootmem env sz align goal = nb_do_alloc_bootmem env sz align goal ULLONG_MAX"

text \<open>The \<^verbatim>\<open>again\<close> loop: the node first, then any node, then both without the goal.\<close>

function nb_do_alloc_bootmem_node_nopanic :: "boot_env \<Rightarrow> int \<Rightarrow> u64 \<Rightarrow> u64 \<Rightarrow> u64 \<Rightarrow> u64 \<Rightarrow>
    memblock_state \<Rightarrow> alloc_result" where
  "nb_do_alloc_bootmem_node_nopanic env nid sz align goal limit s =
     run_bind (nb_alloc_memory_core_early env nid sz align goal limit s)
       (\<lambda>(ptr, s1).
          if ptr \<noteq> 0 then Inr (ptr, s1)
          else run_bind (nb_alloc_memory_core_early env NUMA_NO_NODE sz align goal limit s1)
            (\<lambda>(ptr, s2).
               if ptr \<noteq> 0 then Inr (ptr, s2)
               else if goal \<noteq> 0 then nb_do_alloc_bootmem_node_nopanic env nid sz align 0 limit s2
               else Inr (0, s2)))"
  by pat_completeness auto
termination
  by (relation "measure (\<lambda>(env, nid, sz, align, goal, limit, s). goal)") auto

declare nb_do_alloc_bootmem_node_nopanic.simps [simp del]

definition nb_alloc_bootmem_node_nopanic :: "nb_env \<Rightarrow> int \<Rightarrow> u64 \<Rightarrow> u64 \<Rightarrow> u64 \<Rightarrow> memblock_state \<Rightarrow> alloc_result" where
  "nb_alloc_bootmem_node_nopanic env nid sz align goal s =
     (if env_slab_is_available (nb_boot env) then Inr (env_kzalloc_node (nb_boot env) sz nid, s)
      else nb_do_alloc_bootmem_node_nopanic (nb_boot env) nid sz align goal 0 s)"

definition nb_do_alloc_bootmem_node :: "nb_env \<Rightarrow> int \<Rightarrow> u64 \<Rightarrow> u64 \<Rightarrow> u64 \<Rightarrow> u64 \<Rightarrow> memblock_state \<Rightarrow> alloc_result" where
  "nb_do_alloc_bootmem_node env nid sz align goal limit s =
     run_bind (nb_do_alloc_bootmem_node_nopanic (nb_boot env) nid sz align goal limit s)
       (\<lambda>(ptr, s'). if ptr \<noteq> 0 then Inr (ptr, s') else Inl Panic)"

definition nb_alloc_bootmem_node :: "nb_env \<Rightarrow> int \<Rightarrow> u64 \<Rightarrow> u64 \<Rightarrow> u64 \<Rightarrow> memblock_state \<Rightarrow> alloc_result" where
  "nb_alloc_bootmem_node env nid sz align goal s =
     (if env_slab_is_available (nb_boot env) then Inr (env_kzalloc_node (nb_boot env) sz nid, s)
      else nb_do_alloc_bootmem_node env nid sz align goal 0 s)"

definition nb_alloc_bootmem_node_high :: "nb_env \<Rightarrow> int \<Rightarrow> u64 \<Rightarrow> u64 \<Rightarrow> u64 \<Rightarrow> memblock_state \<Rightarrow> alloc_result" where
  "nb_alloc_bootmem_node_high env nid sz align goal = nb_alloc_bootmem_node env nid sz align goal"

definition nb_alloc_bootmem_low :: "nb_env \<Rightarrow> u64 \<Rightarrow> u64 \<Rightarrow> u64 \<Rightarrow> memblock_state \<Rightarrow> alloc_result" where
  "nb_alloc_bootmem_low env sz align goal = nb_do_alloc_bootmem env sz align goal (nb_low_address_limit env)"

definition nb_alloc_bootmem_low_nopanic :: "nb_env \<Rightarrow> u64 \<Rightarrow> u64 \<Rightarrow> u64 \<Rightarrow> memblock_state \<Rightarrow> alloc_result" where
  "nb_alloc_bootmem_low_nopanic env sz align goal =
     nb_do_alloc_bootmem_nopanic env sz align goal (nb_low_address_limit env)"

definition nb_alloc_bootmem_low_node :: "nb_env \<Rightarrow> int \<Rightarrow> u64 \<Rightarrow> u64 \<Rightarrow> u64 \<Rightarrow> memblock_state \<Rightarrow> alloc_result" where
  "nb_alloc_bootmem_low_node env nid sz align goal s =
     (if env_slab_is_available (nb_boot env) then Inr (env_kzalloc_node (nb_boot env) sz nid, s)
      else nb_do_alloc_bootmem_node env nid sz align goal (nb_low_address_limit env) s)"

section \<open>Release\<close>

text \<open>Both functions take a range back by removing it from the reservations.\<close>

definition nb_free_bootmem :: "boot_env \<Rightarrow> u64 \<Rightarrow> u64 \<Rightarrow> memblock_state \<Rightarrow> mb_result" where
  "nb_free_bootmem env addr sz = memblock_free env addr sz"

definition nb_free_bootmem_node :: "boot_env \<Rightarrow> int \<Rightarrow> u64 \<Rightarrow> u64 \<Rightarrow> memblock_state \<Rightarrow> mb_result" where
  "nb_free_bootmem_node env nid physaddr sz = memblock_free env physaddr sz"

definition nb_free_bootmem_late :: "u64 \<Rightarrow> u64 \<Rightarrow> nb_state \<Rightarrow> nb_state" where
  "nb_free_bootmem_late addr sz s =
    (let cursor = PFN_UP addr;
         end = PFN_DOWN (u64_add addr sz)
     in s\<lparr>nb_released := nb_released s @ map (\<lambda>pfn. (pfn, pfn, 0)) [cursor..<end],
          nb_totalram_pages := u64_add (nb_totalram_pages s) (end - cursor)\<rparr>)"

text \<open>
  \<^verbatim>\<open>while (start + (1UL << order) > end) order--;\<close>  Both numbers are frame numbers, \<^verbatim>\<open>end\<close> is a
  \<^verbatim>\<open>PFN_DOWN\<close> and so at most \<open>2 ^ 52\<close>: neither this sum nor \<^verbatim>\<open>start += 1UL << order\<close> below wraps.
\<close>

primrec nb_fit_order :: "u64 \<Rightarrow> u64 \<Rightarrow> nat \<Rightarrow> nat" where
  "nb_fit_order start end 0 = 0"
| "nb_fit_order start end (Suc order) =
    (if start + 2 ^ Suc order > end then nb_fit_order start end order else Suc order)"

function nb_free_pages_memory :: "(u64 \<Rightarrow> nat) \<Rightarrow> u64 \<Rightarrow> u64 \<Rightarrow> release list" where
  "nb_free_pages_memory ffs start end =
    (if start < end then
       let order = nb_fit_order start end (min (MAX_ORDER - 1) (ffs start)) in
       (start, start, order) # nb_free_pages_memory ffs (start + 2 ^ order) end
     else [])"
  by pat_completeness auto
termination
  by (relation "measure (\<lambda>(ffs, start, end). end - start)") (auto intro!: diff_less_mono2)

declare nb_free_pages_memory.simps [simp del]

definition nb_free_memory_core :: "(u64 \<Rightarrow> nat) \<Rightarrow> u64 \<Rightarrow> u64 \<Rightarrow> u64 \<Rightarrow> release list \<times> u64" where
  "nb_free_memory_core ffs max_low start end =
    (let start_pfn = PFN_UP start;
         end_pfn = min (PFN_DOWN end) max_low
     in if start_pfn \<ge> end_pfn then ([], 0)
        else (nb_free_pages_memory ffs start_pfn end_pfn, end_pfn - start_pfn))"

text \<open>The loop \<^verbatim>\<open>for_each_reserved_mem_region\<close>: the first and last address of every call.\<close>

primrec nb_reserved_walk :: "nat \<Rightarrow> memblock_state \<Rightarrow> u64 \<Rightarrow> (u64 \<times> u64) list run" where
  "nb_reserved_walk 0 s i = Inl No_fuel"
| "nb_reserved_walk (Suc fuel) s i =
    (case next_reserved_mem_region s i of
       (i', Some r) \<Rightarrow>
         (if i' = ULLONG_MAX then Inr []
          else run_bind (nb_reserved_walk fuel s i') (\<lambda>rs. Inr (r # rs)))
     | (i', None) \<Rightarrow> Inr [])"

text \<open>The loop \<^verbatim>\<open>for_each_free_mem_range\<close> with its body \<^verbatim>\<open>count += __free_memory_core(start, end)\<close>.\<close>

primrec nb_free_walk :: "nat \<Rightarrow> (u64 \<Rightarrow> nat) \<Rightarrow> u64 \<Rightarrow> (u64 \<Rightarrow> u64 \<times> (u64 \<times> u64 \<times> int) option) \<Rightarrow> u64 \<Rightarrow>
    (release list \<times> u64) run" where
  "nb_free_walk 0 ffs max_low next_range i = Inl No_fuel"
| "nb_free_walk (Suc fuel) ffs max_low next_range i =
    (case next_range i of
       (i', Some (start, end, _)) \<Rightarrow>
         (if i' = ULLONG_MAX then Inr ([], 0)
          else
            let (rs, n) = nb_free_memory_core ffs max_low start end in
            run_bind (nb_free_walk fuel ffs max_low next_range i')
              (\<lambda>(rs', n'). Inr (rs @ rs', u64_add n n')))
     | (i', None) \<Rightarrow> Inr ([], 0))"

definition nb_free_low_memory_core_early :: "nb_env \<Rightarrow> nb_state \<Rightarrow> (nb_state \<times> u64) run" where
  "nb_free_low_memory_core_early env s =
    run_bind (memblock_clear_hotplug (nb_boot env) 0 PHYS_ADDR_MAX (nb_memblock s))
      (\<lambda>(_, mb).
         run_bind (nb_reserved_walk (mt_cnt (mb_reserved mb) + 1) mb 0)
           (\<lambda>calls.
              run_bind (nb_free_walk (range_steps mb) (nb_ffs env) (nb_max_low_pfn s)
                  (next_mem_range (nb_boot env) NUMA_NO_NODE MEMBLOCK_NONE (mb_memory mb) (Some (mb_reserved mb))) 0)
                (\<lambda>(rs, count).
                   Inr (s\<lparr>nb_memblock := mb, nb_reserved_calls := nb_reserved_calls s @ calls,
                          nb_released := nb_released s @ rs\<rparr>, count))))"

definition nb_reset_node_managed_pages :: "u64 list \<Rightarrow> u64 list" where
  "nb_reset_node_managed_pages zones = map (\<lambda>z. 0) zones"

definition nb_reset_all_zones_managed_pages :: "nb_state \<Rightarrow> nb_state" where
  "nb_reset_all_zones_managed_pages s =
    (if nb_reset_managed_pages_done s then s
     else s\<lparr>nb_managed_pages := map nb_reset_node_managed_pages (nb_managed_pages s),
            nb_reset_managed_pages_done := True\<rparr>)"

definition nb_free_all_bootmem :: "nb_env \<Rightarrow> nb_state \<Rightarrow> (nb_state \<times> u64) run" where
  "nb_free_all_bootmem env s0 =
    run_bind (nb_free_low_memory_core_early env (nb_reset_all_zones_managed_pages s0))
      (\<lambda>(s, pages). Inr (s\<lparr>nb_totalram_pages := u64_add (nb_totalram_pages s) pages\<rparr>, pages))"

section \<open>Blocks\<close>

text \<open>
  The documented behaviour of \<^verbatim>\<open>__ffs\<close>: the number of the lowest set bit of a non-zero word.  What
  it returns for 0 is undefined.
\<close>

definition ffs_ok :: "(u64 \<Rightarrow> nat) \<Rightarrow> bool" where
  "ffs_ok ffs \<longleftrightarrow> (\<forall>x. 0 < x \<and> x < u64_lim \<longrightarrow> bit x (ffs x) \<and> (\<forall>i < ffs x. \<not> bit x i))"

lemma ffs_dvd: "ffs_ok ffs \<Longrightarrow> 0 < x \<Longrightarrow> x < u64_lim \<Longrightarrow> 2 ^ ffs x dvd x"
  unfolding ffs_ok_def dvd_eq_mod_eq_0 take_bit_eq_mod [symmetric]
  by (rule bit_eqI) (auto simp: bit_take_bit_iff)

lemma nb_fit_order_le: "nb_fit_order start end k \<le> k"
  by (induction k) auto

lemma nb_fit_order_fits:
  "start < end \<Longrightarrow> start + 2 ^ nb_fit_order start end k \<le> end"
  by (induction k) auto

definition buddy_block :: "release \<Rightarrow> bool" where
  "buddy_block = (\<lambda>(page, pfn, order). page = pfn \<and> order < MAX_ORDER \<and> 2 ^ order dvd pfn)"

lemma nb_free_pages_memory_spec:
  assumes "ffs_ok ffs" "end \<le> u64_lim" "start \<le> end"
  shows "pages_of (nb_free_pages_memory ffs start end) = [start..<end] \<and>
    (\<forall>r\<in>set (nb_free_pages_memory ffs start end). buddy_block r)"
  using assms
proof (induction ffs start "end" rule: nb_free_pages_memory.induct)
  case (1 ffs start "end")
  show ?case
  proof (cases "start < end")
    case True
    define order where "order = nb_fit_order start end (min (MAX_ORDER - 1) (ffs start))"
    have le: "order \<le> min (MAX_ORDER - 1) (ffs start)" unfolding order_def by (rule nb_fit_order_le)
    have fits: "start + 2 ^ order \<le> end" unfolding order_def by (rule nb_fit_order_fits [OF True])
    have "2 ^ order dvd start"
    proof (cases "start = 0")
      case False
      then have "2 ^ ffs start dvd start" using "1.prems" True by (intro ffs_dvd) auto
      moreover have "(2::nat) ^ order dvd 2 ^ ffs start" using le by (intro le_imp_power_dvd) simp
      ultimately show ?thesis by (rule dvd_trans [rotated])
    qed simp
    then have block: "buddy_block (start, start, order)" using le by (simp add: buddy_block_def MAX_ORDER_def)
    have IH: "pages_of (nb_free_pages_memory ffs (start + 2 ^ order) end) = [start + 2 ^ order..<end] \<and>
        (\<forall>r\<in>set (nb_free_pages_memory ffs (start + 2 ^ order) end). buddy_block r)"
      using "1.IH" [OF True order_def "1.prems"(1,2) fits] .
    have "nb_free_pages_memory ffs start end = (start, start, order) # nb_free_pages_memory ffs (start + 2 ^ order) end"
      using True by (simp add: nb_free_pages_memory.simps [of ffs start "end"] order_def Let_def)
    moreover have "[start..<start + 2 ^ order] @ [start + 2 ^ order..<end] = [start..<end]"
      using fits upt_add_eq_append [of start "start + 2 ^ order" "end - (start + 2 ^ order)"] by simp
    ultimately show ?thesis using IH block by simp
  qed (simp add: nb_free_pages_memory.simps [of ffs start "end"])
qed

lemma nb_free_memory_core_spec:
  assumes "ffs_ok ffs" "mx < u64_lim" "b + PAGE_SIZE \<le> u64_lim" "nb_free_memory_core ffs mx b e = (rs, n)"
  shows "pages_of rs = [PFN_UP b..<min (PFN_DOWN e) mx]" "n = length (pages_of rs)" "\<forall>r\<in>set rs. buddy_block r"
proof -
  have "pages_of rs = [PFN_UP b..<min (PFN_DOWN e) mx] \<and> n = length (pages_of rs) \<and> (\<forall>r\<in>set rs. buddy_block r)"
  proof (cases "PFN_UP b \<ge> min (PFN_DOWN e) mx")
    case True
    then show ?thesis using assms(4) by (auto simp: nb_free_memory_core_def)
  next
    case False
    define stop where "stop = min (PFN_DOWN e) mx"
    have "rs = nb_free_pages_memory ffs (PFN_UP b) stop" "n = stop - PFN_UP b"
      using assms(4) False by (simp_all add: nb_free_memory_core_def stop_def Let_def)
    moreover have "stop \<le> u64_lim" "PFN_UP b \<le> stop" using False assms(2) by (auto simp: stop_def)
    note nb_free_pages_memory_spec [OF assms(1) this]
    ultimately show ?thesis by (simp add: stop_def)
  qed
  then show "pages_of rs = [PFN_UP b..<min (PFN_DOWN e) mx]" "n = length (pages_of rs)" "\<forall>r\<in>set rs. buddy_block r"
    by blast+
qed

section \<open>The walk over the free ranges\<close>

text \<open>What the loop over a given list of ranges releases and counts.\<close>

fun free_outs :: "(u64 \<Rightarrow> nat) \<Rightarrow> u64 \<Rightarrow> (u64 \<times> u64 \<times> int) list \<Rightarrow> release list \<times> u64" where
  "free_outs ffs mx [] = ([], 0)"
| "free_outs ffs mx ((b, e, _) # outs) =
    (let (rs, n) = nb_free_memory_core ffs mx b e; (rs', n') = free_outs ffs mx outs in (rs @ rs', u64_add n n'))"

context range_iterator
begin

lemma free_walk_runs:
  assumes "before c i outs" "length outs < n"
  shows "nb_free_walk n ffs mx (step c) i = Inr (free_outs ffs mx outs)"
  using assms
proof (induction outs arbitrary: i n)
  case Nil
  obtain k where "n = Suc k" using Nil.prems(2) by (cases n) auto
  then show ?case using step_end [OF Nil.prems(1)] by (cases "step c i") simp
next
  case (Cons out outs)
  obtain k where n: "n = Suc k" using Cons.prems(2) by (cases n) auto
  obtain i' where i': "step c i = (i', Some out)" "i' \<noteq> ULLONG_MAX" "before c i' outs"
    using step_next [OF Cons.prems(1)] by blast
  obtain b e m where out: "out = (b, e, m)" by (cases out)
  have "nb_free_walk k ffs mx (step c) i' = Inr (free_outs ffs mx outs)"
    using Cons.IH [OF i'(3), of k] Cons.prems(2) n by simp
  then show ?case using i' n out by (simp add: Let_def split: prod.split)
qed

end

text \<open>The page frame \<open>p\<close> lies in the range from \<open>b\<close> to \<open>e\<close>.\<close>

definition page_in :: "u64 \<Rightarrow> u64 \<times> u64 \<times> int \<Rightarrow> bool" where
  "page_in p = (\<lambda>(b, e, _). b \<le> p * PAGE_SIZE \<and> (p + 1) * PAGE_SIZE \<le> e)"

abbreviation in_order :: "(u64 \<times> u64 \<times> int) list \<Rightarrow> bool" where
  "in_order outs \<equiv> sorted_wrt (\<lambda>(_, e, _) (b, _, _). e \<le> b) outs"

lemma length_below: "sorted_wrt (<) xs \<Longrightarrow> set xs \<subseteq> {..<m} \<Longrightarrow> length xs \<le> (m::nat)"
  by (metis card_lessThan card_mono distinct_card finite_lessThan strict_sorted_iff)

lemma free_outs_spec:
  assumes "ffs_ok ffs" "mx < u64_lim"
  shows "in_order outs \<Longrightarrow> \<forall>(b, e, k)\<in>set outs. b + PAGE_SIZE \<le> u64_lim \<Longrightarrow> free_outs ffs mx outs = (rs, n) \<Longrightarrow>
    set (pages_of rs) = {p. p < mx \<and> (\<exists>out\<in>set outs. page_in p out)} \<and>
    sorted_wrt (<) (pages_of rs) \<and> n = length (pages_of rs) \<and> (\<forall>r\<in>set rs. buddy_block r)"
proof (induction outs arbitrary: rs n)
  case (Cons out outs)
  obtain b e k where out: "out = (b, e, k)" by (cases out)
  obtain r1 n1 where c1: "nb_free_memory_core ffs mx b e = (r1, n1)" by fastforce
  obtain r2 n2 where c2: "free_outs ffs mx outs = (r2, n2)" by fastforce
  have rs: "rs = r1 @ r2" "n = u64_add n1 n2" using Cons.prems(3) out c1 c2 by auto
  have b: "b + PAGE_SIZE \<le> u64_lim" using Cons.prems(2) out by simp
  note h = nb_free_memory_core_spec [OF assms b c1]
  have t: "set (pages_of r2) = {p. p < mx \<and> (\<exists>out\<in>set outs. page_in p out)}" "sorted_wrt (<) (pages_of r2)"
    "n2 = length (pages_of r2)" "\<forall>r\<in>set r2. buddy_block r"
    using Cons.IH [OF _ _ c2] Cons.prems(1,2) by simp_all
  have p1: "set (pages_of r1) = {p. p < mx \<and> page_in p out}"
    using PFN_UP_le [OF b] less_PFN_DOWN by (auto simp: h(1) page_in_def out)
  then have pages: "set (pages_of rs) = {p. p < mx \<and> (\<exists>out\<in>set (out # outs). page_in p out)}"
    using t(1) by (auto simp: rs(1))
  have "p < q" if p: "p \<in> set (pages_of r1)" and q: "q \<in> set (pages_of r2)" for p q
  proof -
    obtain b' e' k' where o': "(b', e', k') \<in> set outs" "b' \<le> q * PAGE_SIZE" using q t(1) by (auto simp: page_in_def)
    then have "e \<le> b'" using Cons.prems(1) out by auto
    moreover have "(p + 1) * PAGE_SIZE \<le> e" using p p1 by (simp add: page_in_def out)
    ultimately have "(p + 1) * PAGE_SIZE \<le> q * PAGE_SIZE" using o'(2) by linarith
    then have "p + 1 \<le> q" by (simp add: PAGE_SIZE_def)
    then show ?thesis by simp
  qed
  moreover have "sorted_wrt (<) (pages_of r1)" unfolding h(1) by simp
  ultimately have srt: "sorted_wrt (<) (pages_of rs)" using t(2) by (simp add: rs(1) sorted_wrt_append)
  have "length (pages_of rs) \<le> mx" using pages by (intro length_below [OF srt]) auto
  then have "n = length (pages_of rs)"
    using assms(2) t(3) h(2) by (simp add: rs u64_add_eq)
  then show ?case using pages srt h(3) t(4) rs(1) by auto
qed simp

lemma isect_in_order: "ordered ms \<Longrightarrow> gap_list gs \<Longrightarrow> in_order (isect skip ms gs)"
proof (induction skip ms gs rule: isect.induct)
  case (1 skip m ms g gs)
  note o = \<open>ordered (m # ms)\<close> and gl = \<open>gap_list (g # gs)\<close>
  have tails: "ordered ms" "gap_list gs" using o gl by (auto simp: ordered_Cons gap_list_Cons)
  have left: "min (mr_end m) (snd g) \<le> fst out" if "out \<in> set (isect skip ms (g # gs))" for out
    using that
  proof (rule isect_sound)
    fix m' g'
    assume "m' \<in> set ms" "out = piece m' g'"
    then show ?thesis using o by (auto simp: ordered_Cons piece_def)
  qed
  have right: "min (mr_end m) (snd g) \<le> fst out" if "out \<in> set (isect skip (m # ms) gs)" for out
    using that
  proof (rule isect_sound)
    fix m' g'
    assume "g' \<in> set gs" "out = piece m' g'"
    then show ?thesis using gl by (auto simp: gap_list_Cons piece_def)
  qed
  show ?case using 1 tails left right by (auto simp: piece_def)
qed simp_all

section \<open>The reserved regions\<close>

lemma nb_reserved_walk_runs:
  assumes "wf_array (mb_reserved mb)" "ordered (live (mb_reserved mb))" "mt_cnt (mb_reserved mb) < 2 ^ 32"
    and "i + k = mt_cnt (mb_reserved mb)"
  shows "nb_reserved_walk (Suc k) mb i =
    Inr (map (\<lambda>r. (mr_base r, u64_sub (mr_end r) 1)) (drop i (live (mb_reserved mb))))"
  using assms(4)
proof (induction k arbitrary: i)
  case 0
  then show ?case using assms(1) by (simp add: next_reserved_mem_region_def)
next
  case (Suc k)
  let ?t = "mb_reserved mb"
  have i: "i < mt_cnt ?t" using Suc.prems by simp
  have len: "i < length (live ?t)" using i assms(1) by simp
  have "mt_regions ?t ! i = live ?t ! i" using i assms(1) by (simp add: regions_nth_live)
  moreover have "mr_end (live ?t ! i) \<le> PHYS_ADDR_MAX" using len assms(2) by (intro ordered_nth_end)
  ultimately have "next_reserved_mem_region mb i =
      (i + 1, Some (mr_base (live ?t ! i), u64_sub (mr_end (live ?t ! i)) 1))"
    using i by (simp add: next_reserved_mem_region_def Let_def u64_add_mr_end)
  moreover have "i + 1 \<noteq> ULLONG_MAX" using i assms(3) by (simp add: ULLONG_MAX_def u64_lim_def)
  ultimately show ?case
    using Suc.IH [of "i + 1"] Suc.prems Cons_nth_drop_Suc [OF len]
    by (simp del: nb_reserved_walk.simps(2) add: nb_reserved_walk.simps(2) [of "Suc k"] flip: Cons_nth_drop_Suc [OF len])
qed

section \<open>Pages of usable memory\<close>

text \<open>
  A page frame that may be given away: all its addresses are memory of one node and one kind,
  apart from the hotplug mark, which \<^verbatim>\<open>free_low_memory_core_early\<close> clears; the memory is mapped
  and none of it is reserved.
\<close>

abbreviation page_addresses :: "u64 \<Rightarrow> u64 set" where
  "page_addresses p \<equiv> {p * PAGE_SIZE..<(p + 1) * PAGE_SIZE}"

abbreviation forget_hotplug :: "int \<times> memblock_flags \<Rightarrow> int \<times> memblock_flags" where
  "forget_hotplug \<equiv> \<lambda>(nid, fl). (nid, fl AND NOT MEMBLOCK_HOTPLUG)"

definition usable_page :: "memblock_state \<Rightarrow> u64 \<Rightarrow> bool" where
  "usable_page mb p \<longleftrightarrow>
     (\<exists>nid fl. fl AND MEMBLOCK_NOMAP = 0 \<and>
        (\<forall>a\<in>page_addresses p. map_option forget_hotplug (amap (live (mb_memory mb)) a) = Some (nid, fl) \<and>
           amap (live (mb_reserved mb)) a = None))"

text \<open>In a minimal array an interval of equal memory lies in one region.\<close>

lemma interval_in_region:
  assumes "ordered rs" "nonempty rs" "minimal rs" "lo < hi" "\<forall>a\<in>{lo..<hi}. amap rs a = Some v"
  shows "\<exists>r\<in>set rs. mr_base r \<le> lo \<and> hi \<le> mr_end r \<and> (mr_nid r, mr_flags r) = v"
  using assms
proof (induction rs)
  case (Cons r rs)
  have tails: "ordered rs" "nonempty rs" "minimal rs" and after: "\<forall>s\<in>set rs. mr_end r \<le> mr_base s"
    using Cons.prems(1-3) by (auto simp: ordered_Cons nonempty_def) (cases rs; simp)
  show ?case
  proof (cases "covers r lo")
    case True
    then have v: "v = (mr_nid r, mr_flags r)" using Cons.prems(4) bspec [OF Cons.prems(5), of lo] by simp
    have "hi \<le> mr_end r"
    proof (rule ccontr)
      assume "\<not> hi \<le> mr_end r"
      then have "mr_end r \<in> {lo..<hi}" using True by (simp add: covers_def)
      then have e: "amap rs (mr_end r) = Some v" using Cons.prems(5) by (force simp: covers_def)
      then obtain s ss where rs: "rs = s # ss" by (cases rs) auto
      have s: "mr_base s < mr_end s" "\<forall>t\<in>set ss. mr_end s \<le> mr_base t" "mr_end r \<le> mr_base s"
        using Cons.prems(1,2) rs by (simp_all add: ordered_Cons nonempty_def mr_end_def)
      then have "amap ss (mr_end r) = None" by (intro amap_below) auto
      then have c: "covers s (mr_end r)" "(mr_nid s, mr_flags s) = v" using e rs by (simp_all split: if_splits)
      then have "compatible r s" using s(3) v by (simp add: compatible_def covers_def)
      then show False using Cons.prems(3) rs by simp
    qed
    then show ?thesis using True v by (auto simp: covers_def)
  next
    case False
    then have "amap rs lo = Some v" using Cons.prems(4) bspec [OF Cons.prems(5), of lo] by simp
    then obtain s where "s \<in> set rs" "covers s lo" using amap_eq_None [of rs lo] by auto
    then have "mr_end r \<le> lo" using after by (force simp: covers_def)
    then have "amap rs a = Some v" if "a \<in> {lo..<hi}" for a
      using bspec [OF Cons.prems(5) that] that by (simp add: covers_def)
    then show ?thesis using Cons.IH [OF tails Cons.prems(4)] by auto
  qed
qed simp

text \<open>Pages inside the ranges of the walk are the usable pages.\<close>

lemma unreserved_in_gap:
  assumes "wf_type t" "lo < hi" "hi \<le> PHYS_ADDR_MAX" "\<forall>a\<in>{lo..<hi}. amap (live t) a = None"
  shows "\<exists>g\<in>set (areas t). fst g \<le> lo \<and> hi \<le> snd g"
proof -
  have "mr_end r \<le> lo \<or> lo + (hi - lo) \<le> mr_base r" if r: "r \<in> set (live t)" for r
  proof (rule ccontr)
    assume "\<not> (mr_end r \<le> lo \<or> lo + (hi - lo) \<le> mr_base r)"
    then have *: "lo < mr_end r" "mr_base r < hi" using assms(2) by auto
    then have "0 < mr_size r" using assms(1) r by (auto simp: wf_type_def is_dummy_def nonempty_def mr_end_def)
    then have "covers r (max lo (mr_base r))" using * by (auto simp: covers_def mr_end_def)
    then show False using assms(2,4) amap_eq_None [of "live t" "max lo (mr_base r)"] r * by simp
  qed
  then show ?thesis using interval_in_gap [of "live t" lo "hi - lo" 0] assms(2,3) by auto
qed

text \<open>The memory array once the hotplug marks are gone.\<close>

definition unplugged :: "memblock_state \<Rightarrow> memblock_type \<Rightarrow> bool" where
  "unplugged mb t \<longleftrightarrow> wf_type t \<and> minimal (live t) \<and> mt_max t = mt_max (mb_memory mb) \<and>
     (\<forall>a. amap (live t) a = map_option forget_hotplug (amap (live (mb_memory mb)) a))"

lemma clear_hotplug_unplugged:
  assumes "wf_type (mb_memory mb)" "mt_cnt (mb_memory mb) + 2 \<le> mt_max (mb_memory mb)"
  obtains t where "memblock_clear_hotplug env 0 PHYS_ADDR_MAX mb = Inr (0, mb\<lparr>mb_memory := t\<rparr>)" "unplugged mb t"
proof -
  obtain t where t: "memblock_clear_hotplug env 0 PHYS_ADDR_MAX mb = Inr (0, mb\<lparr>mb_memory := t\<rparr>)"
    "wf_type t" "minimal (live t)" "mt_max t = mt_max (mb_memory mb)"
    "\<forall>a. amap (live t) a = (if a < PHYS_ADDR_MAX then map_option forget_hotplug (amap (live (mb_memory mb)) a)
       else amap (live (mb_memory mb)) a)"
    using setclr_flag_room [OF assms(1) _ refl assms(2), where sz = PHYS_ADDR_MAX and env = env and set_flag = False and flag = MEMBLOCK_HOTPLUG and base = 0]
    by (auto simp: memblock_clear_hotplug_def)
  have "amap (live t) a = map_option forget_hotplug (amap (live (mb_memory mb)) a)" for a
    using t(5) nothing_above_max [of "live (mb_memory mb)" a] assms(1)
    by (cases "a < PHYS_ADDR_MAX") (simp_all add: wf_type_def)
  then show ?thesis using t that by (simp add: unplugged_def)
qed

lemma clear_flag: "(fl AND NOT flag) AND flag = (0 :: memblock_flags)"
  by (rule bit_word_eqI) (simp add: bit_simps)

lemma page_addresses_start: "p * PAGE_SIZE \<in> page_addresses p"
  by (simp add: PAGE_SIZE_def)

lemma page_in_usable:
  assumes "unplugged mb t" "wf_type (mb_reserved mb)" "walkable t (mb_reserved mb)"
  shows "(\<exists>out\<in>set (isect (mem_range_skip env NUMA_NO_NODE MEMBLOCK_NONE) (live t) (areas (mb_reserved mb))). page_in p out)
    \<longleftrightarrow> usable_page mb p"
    (is "(\<exists>out\<in>set ?outs. _) \<longleftrightarrow> _")
proof
  assume "\<exists>out\<in>set ?outs. page_in p out"
  then obtain out where out: "out \<in> set ?outs" "page_in p out" by blast
  obtain m g where m: "m \<in> set (live t)" "g \<in> set (areas (mb_reserved mb))"
      "\<not> mem_range_skip env NUMA_NO_NODE MEMBLOCK_NONE m" "out = piece m g"
    using out(1) by (rule isect_sound)
  have "map_option forget_hotplug (amap (live (mb_memory mb)) a) = Some (mr_nid m, mr_flags m) \<and>
      amap (live (mb_reserved mb)) a = None" if a: "a \<in> page_addresses p" for a
  proof -
    have ca: "covers m a" "in_range a g"
      using a out(2) m(4) by (auto simp: page_in_def piece_def covers_def in_range_def)
    obtain i where "i < length (live t)" "live t ! i = m" using m(1) by (auto simp: in_set_conv_nth)
    then have "amap (live t) a = Some (mr_nid m, mr_flags m)"
      using amap_nth [of "live t" i a] ca(1) assms(3) by (simp add: walkable_def)
    moreover have "amap (live (mb_reserved mb)) a = None"
      using in_gaps_from [of "live (mb_reserved mb)" 0 a] m(2) ca(2) assms(3) by (auto simp: walkable_def)
    ultimately show ?thesis using assms(1) by (simp add: unplugged_def)
  qed
  moreover have "mr_flags m AND MEMBLOCK_NOMAP = 0"
    using m(3) by (simp add: mem_range_skip_def memblock_is_nomap_def MEMBLOCK_NONE_def)
  ultimately show "usable_page mb p" unfolding usable_page_def by blast
next
  assume "usable_page mb p"
  then obtain nid fl where u: "fl AND MEMBLOCK_NOMAP = 0"
    "\<forall>a\<in>page_addresses p. map_option forget_hotplug (amap (live (mb_memory mb)) a) = Some (nid, fl)"
    "\<forall>a\<in>page_addresses p. amap (live (mb_reserved mb)) a = None"
    unfolding usable_page_def by blast
  have v: "\<forall>a\<in>page_addresses p. amap (live t) a = Some (nid, fl)" using u(2) assms(1) by (simp add: unplugged_def)
  have "\<not> is_dummy (live t)" using bspec [OF v page_addresses_start] amap_dummy by fastforce
  then have t: "ordered (live t)" "minimal (live t)" "nonempty (live t)"
    using assms(1) by (simp_all add: unplugged_def wf_type_def)
  have lt: "p * PAGE_SIZE < (p + 1) * PAGE_SIZE" by (simp add: PAGE_SIZE_def)
  obtain m where m: "m \<in> set (live t)" "mr_base m \<le> p * PAGE_SIZE" "(p + 1) * PAGE_SIZE \<le> mr_end m"
      "(mr_nid m, mr_flags m) = (nid, fl)"
    using interval_in_region [OF t(1,3,2) lt v] by blast
  have "(p + 1) * PAGE_SIZE \<le> PHYS_ADDR_MAX" using m(3) ordered_end_le [OF t(1) m(1)] by linarith
  from unreserved_in_gap [OF assms(2) lt this u(3)] obtain g
    where g: "g \<in> set (areas (mb_reserved mb))" "fst g \<le> p * PAGE_SIZE" "(p + 1) * PAGE_SIZE \<le> snd g" by blast
  obtain nid' fl' where "(nid, fl) = (nid', fl' AND NOT MEMBLOCK_HOTPLUG)"
    using bspec [OF u(2) page_addresses_start] by auto
  then have "mr_flags m AND MEMBLOCK_HOTPLUG = 0" using m(4) by (simp add: clear_flag)
  then have "\<not> mem_range_skip env NUMA_NO_NODE MEMBLOCK_NONE m"
    using u(1) m(4) by (simp add: mem_range_skip_def memblock_is_nomap_def memblock_is_hotpluggable_def MEMBLOCK_NONE_def)
  moreover have "overlap m g" using m(2,3) g(2,3) lt by (simp add: overlap_def)
  ultimately have "piece m g \<in> set ?outs"
    using isect_complete [OF t(1) walkable_areas(1) [OF assms(3)] m(1) g(1)] by blast
  moreover have "page_in p (piece m g)" using m(2,3) g(2,3) by (simp add: page_in_def piece_def)
  ultimately show "\<exists>out\<in>set ?outs. page_in p out" by blast
qed

lemma nb_reset_fields [simp]:
  "nb_memblock (nb_reset_all_zones_managed_pages s) = nb_memblock s"
  "nb_max_low_pfn (nb_reset_all_zones_managed_pages s) = nb_max_low_pfn s"
  "nb_totalram_pages (nb_reset_all_zones_managed_pages s) = nb_totalram_pages s"
  "nb_released (nb_reset_all_zones_managed_pages s) = nb_released s"
  "nb_reserved_calls (nb_reset_all_zones_managed_pages s) = nb_reserved_calls s"
  by (simp_all add: nb_reset_all_zones_managed_pages_def)

lemma outs_below:
  assumes "unplugged mb t" "(b, e, k) \<in> set (isect skip (live t) gs)"
    and "\<forall>r\<in>set (live (mb_memory mb)). mr_end r + PAGE_SIZE \<le> u64_lim"
  shows "b + PAGE_SIZE \<le> u64_lim"
  using assms(2)
proof (rule isect_sound)
  fix m g
  assume m: "m \<in> set (live t)" "(b, e, k) = piece m g" "fst g < mr_end m"
  then have "0 < mr_size m"
    using assms(1) by (auto simp: unplugged_def wf_type_def is_dummy_def nonempty_def mr_end_def)
  then have "covers m b" using m(2,3) by (auto simp: piece_def covers_def mr_end_def)
  then have "amap (live t) b \<noteq> None" using m(1) amap_eq_None by blast
  then have "amap (live (mb_memory mb)) b \<noteq> None" using assms(1) by (simp add: unplugged_def)
  then obtain r where "r \<in> set (live (mb_memory mb))" "b < mr_end r"
    by (auto simp: amap_eq_None covers_def)
  then show ?thesis using assms(3) by force
qed

text \<open>
  C33: \<^verbatim>\<open>free_all_bootmem\<close> gives the page allocator exactly the pages below \<^verbatim>\<open>max_low_pfn\<close> all of
  whose addresses are mapped memory of one node and kind and not reserved.  It gives each of them
  once and in ascending order, in blocks that are aligned to their size and below \<^verbatim>\<open>MAX_ORDER\<close>, returns
  their number and adds it to \<^verbatim>\<open>totalram_pages\<close>, and reports every reserved region.
\<close>

theorem nb_free_all_bootmem_exact:
  assumes "wf_type (mb_memory (nb_memblock s))" "wf_type (mb_reserved (nb_memblock s))"
    and "mt_cnt (mb_memory (nb_memblock s)) + 2 \<le> mt_max (mb_memory (nb_memblock s))"
    and "mt_max (mb_memory (nb_memblock s)) < 2 ^ 31 - 1" "mt_max (mb_reserved (nb_memblock s)) < 2 ^ 31 - 1"
    and "\<forall>r\<in>set (live (mb_memory (nb_memblock s))). mr_end r + PAGE_SIZE \<le> u64_lim"
    and "nb_max_low_pfn s < u64_lim" "ffs_ok (nb_ffs env)"
  shows "\<exists>s' rs. nb_free_all_bootmem env s = Inr (s', length (pages_of rs)) \<and>
    nb_released s' = nb_released s @ rs \<and>
    set (pages_of rs) = {p. p < nb_max_low_pfn s \<and> usable_page (nb_memblock s) p} \<and>
    sorted_wrt (<) (pages_of rs) \<and> (\<forall>r\<in>set rs. buddy_block r) \<and>
    nb_totalram_pages s' = u64_add (nb_totalram_pages s) (length (pages_of rs)) \<and>
    nb_reserved_calls s' = nb_reserved_calls s @
      map (\<lambda>r. (mr_base r, u64_sub (mr_end r) 1)) (live (mb_reserved (nb_memblock s)))"
proof -
  let ?mb = "nb_memblock s" and ?env = "nb_boot env"
  obtain t where t: "memblock_clear_hotplug ?env 0 PHYS_ADDR_MAX ?mb = Inr (0, ?mb\<lparr>mb_memory := t\<rparr>)" "unplugged ?mb t"
    using clear_hotplug_unplugged [OF assms(1,3)] .
  let ?mb' = "?mb\<lparr>mb_memory := t\<rparr>" and ?res = "mb_reserved ?mb"
  have w: "walkable t ?res"
    using t(2) assms(2,4,5) by (auto simp: unplugged_def wf_type_def wf_array_def walkable_def)
  define outs where "outs = isect (mem_range_skip ?env NUMA_NO_NODE MEMBLOCK_NONE) (live t) (areas ?res)"
  have nid: "walk_nid NUMA_NO_NODE = NUMA_NO_NODE" by (simp add: walk_nid_def)
  obtain rs n where fo: "free_outs (nb_ffs env) (nb_max_low_pfn s) outs = (rs, n)" by fastforce
  have io: "in_order outs"
    unfolding outs_def using w by (intro isect_in_order walkable_areas(1) [OF w]) (simp add: walkable_def)
  have "\<forall>(b, e, k)\<in>set outs. b + PAGE_SIZE \<le> u64_lim"
    using outs_below [OF t(2) _ assms(6)] unfolding outs_def by blast
  note spec = free_outs_spec [OF assms(8,7) io this fo]
  have pages: "set (pages_of rs) = {p. p < nb_max_low_pfn s \<and> usable_page ?mb p}"
    using spec page_in_usable [OF t(2) assms(2) w] by (simp add: outs_def)
  have walk: "nb_free_walk (range_steps ?mb') (nb_ffs env) (nb_max_low_pfn s)
      (next_mem_range ?env NUMA_NO_NODE MEMBLOCK_NONE t (Some ?res)) 0 = Inr (rs, n)"
    using fwd.free_walk_runs [OF forward_start [of ?mb' ?env NUMA_NO_NODE MEMBLOCK_NONE]] w fo
    by (simp add: nid outs_def)
  have res: "nb_reserved_walk (mt_cnt ?res + 1) ?mb' 0 = Inr (map (\<lambda>r. (mr_base r, u64_sub (mr_end r) 1)) (live ?res))"
    using nb_reserved_walk_runs [of ?mb' 0 "mt_cnt ?res"] w by (simp add: walkable_def)
  let ?s0 = "nb_reset_all_zones_managed_pages s"
  have "nb_free_low_memory_core_early env ?s0 =
      Inr (?s0\<lparr>nb_memblock := ?mb', nb_reserved_calls := nb_reserved_calls s @ map (\<lambda>r. (mr_base r, u64_sub (mr_end r) 1)) (live ?res),
             nb_released := nb_released s @ rs\<rparr>, n)"
    using walk res by (simp add: nb_free_low_memory_core_early_def t(1) del: nb_reserved_walk.simps)
  then show ?thesis
    using pages spec by (intro exI [of _ rs] exI) (auto simp: nb_free_all_bootmem_def)
qed

text \<open>A find-first-set by counting, as the concrete instance.\<close>

fun count_ffs :: "u64 \<Rightarrow> nat" where
  "count_ffs x = (if x = 0 \<or> odd x then 0 else Suc (count_ffs (x div 2)))"

declare count_ffs.simps [simp del]

lemma count_ffs_lowest: "0 < x \<Longrightarrow> bit x (count_ffs x) \<and> (\<forall>i < count_ffs x. \<not> bit x i)"
proof (induction x rule: count_ffs.induct)
  case (1 x)
  show ?case
  proof (cases "odd x")
    case False
    with 1 have "bit (x div 2) (count_ffs (x div 2))" "\<forall>i < count_ffs (x div 2). \<not> bit (x div 2) i" by auto
    then show ?thesis using False "1.prems"
      by (auto simp: count_ffs.simps [of x] bit_Suc less_Suc_eq_0_disj bit_0)
  qed (simp add: count_ffs.simps [of x] bit_0)
qed

lemma count_ffs_ok: "ffs_ok count_ffs"
  using count_ffs_lowest by (simp add: ffs_ok_def)

definition demo_nb_env :: nb_env where
  "demo_nb_env = \<lparr>nb_boot = demo_env, nb_ffs = count_ffs, nb_low_address_limit = 0xffffffff,
     nb_kzalloc = (\<lambda>_. 0)\<rparr>"

definition demo_nb_state :: nb_state where
  "demo_nb_state = \<lparr>nb_memblock = demo_state, nb_max_low_pfn = 0x1a, nb_totalram_pages = 0,
     nb_managed_pages = [[7, 0]], nb_reset_managed_pages_done = False, nb_released = [], nb_reserved_calls = []\<rparr>"

theorem nb_free_all_bootmem_exact_witness:
  "\<exists>s' rs. nb_free_all_bootmem demo_nb_env demo_nb_state = Inr (s', length (pages_of rs)) \<and>
    nb_released s' = nb_released demo_nb_state @ rs \<and>
    set (pages_of rs) = {p. p < nb_max_low_pfn demo_nb_state \<and> usable_page (nb_memblock demo_nb_state) p} \<and>
    sorted_wrt (<) (pages_of rs) \<and> (\<forall>r\<in>set rs. buddy_block r) \<and>
    nb_totalram_pages s' = u64_add (nb_totalram_pages demo_nb_state) (length (pages_of rs)) \<and>
    nb_reserved_calls s' = nb_reserved_calls demo_nb_state @
      map (\<lambda>r. (mr_base r, u64_sub (mr_end r) 1)) (live (mb_reserved (nb_memblock demo_nb_state)))"
  by (rule nb_free_all_bootmem_exact)
    (simp_all add: demo_nb_state_def demo_nb_env_def demo_wf count_ffs_ok,
     simp_all add: demo_memory_def demo_reserved_def live_def mr_end_def max_numerals PAGE_SIZE_def)

section \<open>Allocation\<close>

lemma reserve_found:
  assumes "wf_state s" "0 < sz" "start \<le> PHYS_ADDR_MAX" "end \<le> PHYS_ADDR_MAX"
    and "mt_cnt (mb_reserved s) < mt_max (mb_reserved s)" "found_at env' s sz align start end nid flags c"
  shows "\<exists>s'. memblock_reserve env c sz s = Inr (0, s') \<and> reserved_after s c sz s'"
proof -
  have lim: "mb_current_limit s \<le> PHYS_ADDR_MAX" and wfr: "wf_type (mb_reserved s)"
    using assms(1) by (simp_all add: wf_state_def)
  note b = found_at_bounds [OF assms(6,3,4) lim]
  show ?thesis unfolding memblock_reserve_def using add_free_area [OF wfr b(1) assms(2) b(2) assms(5)] by blast
qed

text \<open>One search, with and then without the wish for mirrored memory.\<close>

definition core_outcome :: "boot_env \<Rightarrow> memblock_state \<Rightarrow> u64 \<Rightarrow> u64 \<Rightarrow> u64 \<Rightarrow> u64 \<Rightarrow> int \<Rightarrow> u64 \<Rightarrow> memblock_state \<Rightarrow> bool" where
  "core_outcome env s sz align goal limit nid c s' \<longleftrightarrow>
     (if c = 0 then s' = s \<and> (\<forall>c'. \<not> found_at env s sz align goal limit nid (choose_memblock_flags s AND NOT MEMBLOCK_MIRROR) c')
      else (\<exists>f\<in>{choose_memblock_flags s, choose_memblock_flags s AND NOT MEMBLOCK_MIRROR}.
              found_at env s sz align goal limit nid f c) \<and> reserved_after s c sz s')"

lemma core_early_spec:
  assumes "wf_state s" "k < 64" "0 < sz" "goal \<le> PHYS_ADDR_MAX" "mt_cnt (mb_reserved s) < mt_max (mb_reserved s)"
  shows "\<exists>c s'. nb_alloc_memory_core_early env nid sz (2 ^ k) goal limit s = Inr (c, s') \<and>
    core_outcome env s sz (2 ^ k) goal (min limit (mb_current_limit s)) nid c s'"
proof -
  let ?fl = "choose_memblock_flags s" and ?lim = "min limit (mb_current_limit s)"
  let ?nm = "?fl AND NOT MEMBLOCK_MIRROR"
  have lim: "mb_current_limit s \<le> PHYS_ADDR_MAX" "?lim \<le> PHYS_ADDR_MAX" using assms(1) by (auto simp: wf_state_def)
  note find = find_in_range_node_spec [OF wf_state_walkable [OF assms(1)] assms(2,3,4) lim(2,1)]
  obtain c1 where c1: "memblock_find_in_range_node env s sz (2 ^ k) goal ?lim nid ?fl = Inr c1"
    "c1 \<noteq> 0 \<longrightarrow> found_at env s sz (2 ^ k) goal ?lim nid ?fl c1"
    "c1 = 0 \<longrightarrow> (\<forall>c'. \<not> found_at env s sz (2 ^ k) goal ?lim nid ?fl c')" using find .
  obtain c2 where c2: "memblock_find_in_range_node env s sz (2 ^ k) goal ?lim nid ?nm = Inr c2"
    "c2 \<noteq> 0 \<longrightarrow> found_at env s sz (2 ^ k) goal ?lim nid ?nm c2"
    "c2 = 0 \<longrightarrow> (\<forall>c'. \<not> found_at env s sz (2 ^ k) goal ?lim nid ?nm c')" using find .
  define c where "c = (if c1 = 0 \<and> ?fl AND MEMBLOCK_MIRROR \<noteq> 0 then c2 else c1)"
  have again: "nb_find_again env s sz (2 ^ k) goal ?lim nid ?fl = Inr c"
    using c1(1) c2(1) by (simp add: nb_find_again.simps [of env s sz "2 ^ k" goal ?lim nid ?fl]
        nb_find_again.simps [of env s sz "2 ^ k" goal ?lim nid ?nm] clear_mirror c_def)
  have lim_eq: "(if limit > mb_current_limit s then mb_current_limit s else limit) = ?lim" by simp
  show ?thesis
  proof (cases "c = 0")
    case True
    then have "\<forall>c'. \<not> found_at env s sz (2 ^ k) goal ?lim nid ?nm c'"
      using c1(3) c2(3) no_mirror [of ?fl] by (simp add: c_def split: if_splits)
    then show ?thesis
      using True again by (simp add: nb_alloc_memory_core_early_def lim_eq Let_def core_outcome_def)
  next
    case False
    then obtain f where f: "f \<in> {?fl, ?nm}" "found_at env s sz (2 ^ k) goal ?lim nid f c"
      using c1(2) c2(2) by (auto simp: c_def split: if_splits)
    obtain s' where "memblock_reserve env c sz s = Inr (0, s')" "reserved_after s c sz s'"
      using reserve_found [OF assms(1,3,4) lim(2) assms(5) f(2)] by blast
    then show ?thesis
      using False again f by (simp add: nb_alloc_memory_core_early_def lim_eq Let_def core_outcome_def) blast
  qed
qed

text \<open>The order of the fallbacks: the node, any node, and both again without the goal.\<close>

lemma node_nopanic_spec:
  assumes "wf_state s" "k < 64" "0 < sz" "goal \<le> PHYS_ADDR_MAX" "mt_cnt (mb_reserved s) < mt_max (mb_reserved s)"
  shows "\<exists>c s'. nb_do_alloc_bootmem_node_nopanic env nid sz (2 ^ k) goal limit s = Inr (c, s') \<and>
    virt_outcome env s sz (2 ^ k) goal (min limit (mb_current_limit s)) nid (choose_memblock_flags s) c s'"
  using assms
proof (induction goal rule: less_induct)
  case (less goal)
  let ?lim = "min limit (mb_current_limit s)"
  obtain c1 s1 where o1: "nb_alloc_memory_core_early env nid sz (2 ^ k) goal limit s = Inr (c1, s1)"
    "core_outcome env s sz (2 ^ k) goal ?lim nid c1 s1" using core_early_spec [OF less.prems] by blast
  obtain c2 s2 where o2: "nb_alloc_memory_core_early env NUMA_NO_NODE sz (2 ^ k) goal limit s = Inr (c2, s2)"
    "core_outcome env s sz (2 ^ k) goal ?lim NUMA_NO_NODE c2 s2" using core_early_spec [OF less.prems] by blast
  note unf = nb_do_alloc_bootmem_node_nopanic.simps [of env nid sz "2 ^ k" goal limit s]
  consider "c1 \<noteq> 0" | "c1 = 0" "c2 \<noteq> 0" | "c1 = 0" "c2 = 0" "goal = 0" | "c1 = 0" "c2 = 0" "0 < goal" by blast
  then show ?case
  proof cases
    case 1
    then show ?thesis using o1 by (simp add: unf core_outcome_def virt_outcome_def) blast
  next
    case 2
    then show ?thesis using o1 o2 by (simp add: unf core_outcome_def virt_outcome_def)
  next
    case 3
    then have "nb_do_alloc_bootmem_node_nopanic env nid sz (2 ^ k) goal limit s = Inr (0, s)"
      using o1 o2 by (subst unf) (simp add: core_outcome_def)
    then show ?thesis using 3 o2(2) by (simp add: core_outcome_def virt_outcome_def)
  next
    case 4
    then have "nb_do_alloc_bootmem_node_nopanic env nid sz (2 ^ k) goal limit s =
        nb_do_alloc_bootmem_node_nopanic env nid sz (2 ^ k) 0 limit s"
      using o1 o2 by (simp add: unf core_outcome_def)
    then show ?thesis using less.IH [OF 4(3) less.prems(1-3) _ less.prems(5)] virt_outcome_min by simp blast
  qed
qed

text \<open>
  \<^verbatim>\<open>__alloc_bootmem_node\<close> returns the address of free memory of the wanted size and
  alignment that is now reserved and nothing else with it, preferring the node, the goal and
  mirrored memory in the order of the source; it panics only if no free area of that size and
  alignment exists on any node below the current limit.
\<close>

lemma nb_alloc_bootmem_node_correct:
  assumes "\<not> env_slab_is_available (nb_boot env)" "wf_state s" "k < 64" "0 < sz" "goal \<le> PHYS_ADDR_MAX"
    and "mt_cnt (mb_reserved s) < mt_max (mb_reserved s)"
  shows "(\<exists>c s'. nb_alloc_bootmem_node env nid sz (2 ^ k) goal s = Inr (c, s') \<and> c \<noteq> 0 \<and>
      virt_outcome (nb_boot env) s sz (2 ^ k) goal 0 nid (choose_memblock_flags s) c s') \<or>
    (nb_alloc_bootmem_node env nid sz (2 ^ k) goal s = Inl Panic \<and>
      (\<forall>c. \<not> found_at (nb_boot env) s sz (2 ^ k) 0 0 NUMA_NO_NODE MEMBLOCK_NONE c))"
proof -
  obtain c s' where "nb_do_alloc_bootmem_node_nopanic (nb_boot env) nid sz (2 ^ k) goal 0 s = Inr (c, s')"
    "virt_outcome (nb_boot env) s sz (2 ^ k) goal 0 nid (choose_memblock_flags s) c s'"
    using node_nopanic_spec [OF assms(2-6), of "nb_boot env" nid 0] by auto
  moreover have "choose_memblock_flags s AND NOT MEMBLOCK_MIRROR = MEMBLOCK_NONE"
    by (simp add: choose_memblock_flags_def MEMBLOCK_NONE_def)
  ultimately show ?thesis using assms(1)
    by (cases "c = 0") (simp_all add: nb_alloc_bootmem_node_def nb_do_alloc_bootmem_node_def virt_outcome_def)
qed

end
