(* ===== verification/Resource.thy ===== *)
theory Resource
  imports Kernel_Prelude
begin

text \<open>
  The resource tree of \<^verbatim>\<open>kernel/resource.c\<close>: the structures with their three pointers live in a
  store, a list of cells addressed by index, so that every assignment of the C code through a
  pointer is an update of one field of one cell.  A \<^verbatim>\<open>struct resource **\<close> that walks a list of
  siblings is a \<open>link\<close>: the \<^verbatim>\<open>child\<close> field or the \<^verbatim>\<open>sibling\<close> field of a cell.

  A name with two leading underscores in C has the prefix \<open>do_\<close> here.  The locks have no effect
  in a model in which the operations run one after the other.  Loops over the siblings carry the
  number of cells plus one as fuel; a list of siblings that does not run in a circle is shorter.
\<close>

record resource =
  r_start :: u64
  r_end :: u64
  r_name :: string
  r_flags :: nat
  r_desc :: nat
  r_parent :: "nat option"
  r_sibling :: "nat option"
  r_child :: "nat option"

type_synonym rstore = "resource list"

datatype link = ChildOf nat | SiblingOf nat

definition IORESOURCE_TYPE_BITS :: nat where "IORESOURCE_TYPE_BITS = 0x1f00"
definition IORESOURCE_IO :: nat where "IORESOURCE_IO = 0x100"
definition IORESOURCE_MEM :: nat where "IORESOURCE_MEM = 0x200"
definition IORESOURCE_SIZEALIGN :: nat where "IORESOURCE_SIZEALIGN = 0x40000"
definition IORESOURCE_STARTALIGN :: nat where "IORESOURCE_STARTALIGN = 0x80000"
definition IORESOURCE_MUXED :: nat where "IORESOURCE_MUXED = 0x400000"
definition IORESOURCE_EXT_TYPE_BITS :: nat where "IORESOURCE_EXT_TYPE_BITS = 0x1000000"
definition IORESOURCE_SYSRAM :: nat where "IORESOURCE_SYSRAM = 0x1000000"
definition IORESOURCE_EXCLUSIVE :: nat where "IORESOURCE_EXCLUSIVE = 0x8000000"
definition IORESOURCE_UNSET :: nat where "IORESOURCE_UNSET = 0x20000000"
definition IORESOURCE_BUSY :: nat where "IORESOURCE_BUSY = 0x80000000"
definition IORESOURCE_SYSTEM_RAM :: nat where "IORESOURCE_SYSTEM_RAM = IORESOURCE_MEM OR IORESOURCE_SYSRAM"
definition IORES_DESC_NONE :: nat where "IORES_DESC_NONE = 0"

definition resource_size :: "resource \<Rightarrow> u64" where
  "resource_size res = u64_add (u64_sub (r_end res) (r_start res)) 1"

definition resource_type :: "resource \<Rightarrow> nat" where
  "resource_type res = r_flags res AND IORESOURCE_TYPE_BITS"

definition resource_ext_type :: "resource \<Rightarrow> nat" where
  "resource_ext_type res = r_flags res AND IORESOURCE_EXT_TYPE_BITS"

definition resource_contains :: "resource \<Rightarrow> resource \<Rightarrow> bool" where
  "resource_contains r1 r2 =
    (if resource_type r1 \<noteq> resource_type r2 then False
     else if r_flags r1 AND IORESOURCE_UNSET \<noteq> 0 \<or> r_flags r2 AND IORESOURCE_UNSET \<noteq> 0 then False
     else r_start r1 \<le> r_start r2 \<and> r_end r1 \<ge> r_end r2)"

definition null_resource :: resource where
  "null_resource = \<lparr>r_start = 0, r_end = 0, r_name = '''', r_flags = 0, r_desc = 0,
     r_parent = None, r_sibling = None, r_child = None\<rparr>"

subsection \<open>Links\<close>

fun deref :: "rstore \<Rightarrow> link \<Rightarrow> nat option" where
  "deref h (ChildOf r) = r_child (h ! r)"
| "deref h (SiblingOf r) = r_sibling (h ! r)"

fun assign :: "rstore \<Rightarrow> link \<Rightarrow> nat option \<Rightarrow> rstore" where
  "assign h (ChildOf r) v = h[r := (h ! r)\<lparr>r_child := v\<rparr>]"
| "assign h (SiblingOf r) v = h[r := (h ! r)\<lparr>r_sibling := v\<rparr>]"

definition set_parent :: "rstore \<Rightarrow> nat \<Rightarrow> nat option \<Rightarrow> rstore" where
  "set_parent h r v = h[r := (h ! r)\<lparr>r_parent := v\<rparr>]"

definition set_range :: "rstore \<Rightarrow> nat \<Rightarrow> u64 \<Rightarrow> u64 \<Rightarrow> rstore" where
  "set_range h r a b = h[r := (h ! r)\<lparr>r_start := a, r_end := b\<rparr>]"

definition store_fuel :: "rstore \<Rightarrow> nat" where
  "store_fuel h = length h + 1"

subsection \<open>Requesting and releasing\<close>

definition link_resource :: "rstore \<Rightarrow> nat \<Rightarrow> nat \<Rightarrow> link \<Rightarrow> rstore" where
  "link_resource h root new p =
    (let tmp = deref h p;
         h1 = assign h (SiblingOf new) tmp;
         h2 = assign h1 p (Some new)
     in set_parent h2 new (Some root))"

primrec request_walk :: "nat \<Rightarrow> rstore \<Rightarrow> nat \<Rightarrow> nat \<Rightarrow> link \<Rightarrow> (rstore \<times> nat option) run" where
  "request_walk 0 h root new p = Inl No_fuel"
| "request_walk (Suc fuel) h root new p =
    (case deref h p of
       None \<Rightarrow> Inr (link_resource h root new p, None)
     | Some tmp \<Rightarrow>
         if r_start (h ! tmp) > r_end (h ! new) then Inr (link_resource h root new p, None)
         else if r_end (h ! tmp) < r_start (h ! new) then request_walk fuel h root new (SiblingOf tmp)
         else Inr (h, Some tmp))"

definition do_request_resource :: "rstore \<Rightarrow> nat \<Rightarrow> nat \<Rightarrow> (rstore \<times> nat option) run" where
  "do_request_resource h root new =
    (if r_end (h ! new) < r_start (h ! new) then Inr (h, Some root)
     else if r_start (h ! new) < r_start (h ! root) then Inr (h, Some root)
     else if r_end (h ! new) > r_end (h ! root) then Inr (h, Some root)
     else request_walk (store_fuel h) h root new (ChildOf root))"

text \<open>The loop that gives the children of a removed resource its parent; the last child is returned.\<close>

primrec reparent :: "nat \<Rightarrow> rstore \<Rightarrow> nat \<Rightarrow> nat option \<Rightarrow> (rstore \<times> nat) run" where
  "reparent 0 h chd parent = Inl No_fuel"
| "reparent (Suc fuel) h chd parent =
    (let h1 = set_parent h chd parent in
     case r_sibling (h1 ! chd) of
       None \<Rightarrow> Inr (h1, chd)
     | Some s \<Rightarrow> reparent fuel h1 s parent)"

text \<open>The resource has been found behind the link \<open>p\<close>: it is unlinked, and its children move up unless they go with it.\<close>

definition release_found :: "rstore \<Rightarrow> nat \<Rightarrow> bool \<Rightarrow> link \<Rightarrow> (rstore \<times> int) run" where
  "release_found h old release_child p =
    (case r_child (h ! old) of
       None \<Rightarrow> Inr (set_parent (assign h p (r_sibling (h ! old))) old None, 0)
     | Some c \<Rightarrow>
         if release_child then Inr (set_parent (assign h p (r_sibling (h ! old))) old None, 0)
         else
           run_bind (reparent (store_fuel h) h c (r_parent (h ! old)))
             (\<lambda>(h1, chd).
                let h2 = assign h1 p (r_child (h1 ! old));
                    h3 = assign h2 (SiblingOf chd) (r_sibling (h2 ! old))
                in Inr (set_parent h3 old None, 0)))"

primrec release_walk :: "nat \<Rightarrow> rstore \<Rightarrow> nat \<Rightarrow> bool \<Rightarrow> link \<Rightarrow> (rstore \<times> int) run" where
  "release_walk 0 h old release_child p = Inl No_fuel"
| "release_walk (Suc fuel) h old release_child p =
    (case deref h p of
       None \<Rightarrow> Inr (h, - EINVAL)
     | Some tmp \<Rightarrow>
         if tmp = old then release_found h old release_child p
         else release_walk fuel h old release_child (SiblingOf tmp))"

definition do_release_resource :: "rstore \<Rightarrow> nat \<Rightarrow> bool \<Rightarrow> (rstore \<times> int) run" where
  "do_release_resource h old release_child =
    (case r_parent (h ! old) of
       None \<Rightarrow> Inl Bad_access
     | Some parent \<Rightarrow> release_walk (store_fuel h) h old release_child (ChildOf parent))"

text \<open>The loop of \<^verbatim>\<open>__release_child_resources\<close> over the list of siblings that starts at \<open>p\<close>.\<close>

primrec release_children :: "nat \<Rightarrow> rstore \<Rightarrow> nat option \<Rightarrow> rstore run" where
  "release_children 0 h p = Inl No_fuel"
| "release_children (Suc fuel) h p =
    (case p of
       None \<Rightarrow> Inr h
     | Some tmp \<Rightarrow>
         let next = r_sibling (h ! tmp);
             child = r_child (h ! tmp);
             h1 = h[tmp := (h ! tmp)\<lparr>r_parent := None, r_sibling := None, r_child := None\<rparr>]
         in run_bind (release_children fuel h1 child)
              (\<lambda>h2. release_children fuel
                 (set_range h2 tmp 0 (u64_sub (resource_size (h2 ! tmp)) 1)) next))"

definition release_child_resources :: "rstore \<Rightarrow> nat \<Rightarrow> rstore run" where
  "release_child_resources h r =
    release_children (store_fuel h) (assign h (ChildOf r) None) (r_child (h ! r))"

definition request_resource_conflict :: "rstore \<Rightarrow> nat \<Rightarrow> nat \<Rightarrow> (rstore \<times> nat option) run" where
  "request_resource_conflict h root new = do_request_resource h root new"

definition request_resource :: "rstore \<Rightarrow> nat \<Rightarrow> nat \<Rightarrow> (rstore \<times> int) run" where
  "request_resource h root new =
    run_bind (request_resource_conflict h root new)
      (\<lambda>(h', conflict). Inr (h', if conflict \<noteq> None then - EBUSY else 0))"

definition release_resource :: "rstore \<Rightarrow> nat \<Rightarrow> (rstore \<times> int) run" where
  "release_resource h old = do_release_resource h old True"

definition remove_resource :: "rstore \<Rightarrow> nat \<Rightarrow> (rstore \<times> int) run" where
  "remove_resource h old = do_release_resource h old False"

primrec lookup_walk :: "nat \<Rightarrow> rstore \<Rightarrow> nat option \<Rightarrow> u64 \<Rightarrow> nat option run" where
  "lookup_walk 0 h res start = Inl No_fuel"
| "lookup_walk (Suc fuel) h res start =
    (case res of
       None \<Rightarrow> Inr None
     | Some r \<Rightarrow> if r_start (h ! r) = start then Inr (Some r) else lookup_walk fuel h (r_sibling (h ! r)) start)"

definition lookup_resource :: "rstore \<Rightarrow> nat \<Rightarrow> u64 \<Rightarrow> nat option run" where
  "lookup_resource h root start = lookup_walk (store_fuel h) h (r_child (h ! root)) start"

subsection \<open>Inserting\<close>

text \<open>
  The descent of \<^verbatim>\<open>__insert_resource\<close>: \<open>Inl conflict\<close> is its answer, \<open>Inr (parent, first)\<close> the level
  at which the new resource is to take over children.
\<close>

primrec insert_descend ::
  "nat \<Rightarrow> rstore \<Rightarrow> nat \<Rightarrow> nat \<Rightarrow> (rstore \<times> (nat option + nat \<times> nat)) run" where
  "insert_descend 0 h parent new = Inl No_fuel"
| "insert_descend (Suc fuel) h parent new =
    run_bind (do_request_resource h parent new)
      (\<lambda>(h', first).
         case first of
           None \<Rightarrow> Inr (h', Inl None)
         | Some f \<Rightarrow>
             if f = parent \<or> f = new then Inr (h', Inl (Some f))
             else if r_start (h' ! f) > r_start (h' ! new) \<or> r_end (h' ! f) < r_end (h' ! new) then Inr (h', Inr (parent, f))
             else if r_start (h' ! f) = r_start (h' ! new) \<and> r_end (h' ! f) = r_end (h' ! new) then Inr (h', Inr (parent, f))
             else insert_descend fuel h' f new)"

text \<open>The children taken over: \<open>Inl next\<close> is a child that overlaps in part, \<open>Inr next\<close> the last one.\<close>

primrec insert_extent :: "nat \<Rightarrow> rstore \<Rightarrow> nat \<Rightarrow> nat \<Rightarrow> (nat + nat) run" where
  "insert_extent 0 h new next = Inl No_fuel"
| "insert_extent (Suc fuel) h new next =
    (if r_start (h ! next) < r_start (h ! new) \<or> r_end (h ! next) > r_end (h ! new) then Inr (Inl next)
     else case r_sibling (h ! next) of
            None \<Rightarrow> Inr (Inr next)
          | Some s \<Rightarrow> if r_start (h ! s) > r_end (h ! new) then Inr (Inr next) else insert_extent fuel h new s)"

primrec adopt :: "nat \<Rightarrow> rstore \<Rightarrow> nat option \<Rightarrow> nat \<Rightarrow> rstore run" where
  "adopt 0 h next new = Inl No_fuel"
| "adopt (Suc fuel) h next new =
    (case next of
       None \<Rightarrow> Inr h
     | Some n \<Rightarrow> let h1 = set_parent h n (Some new) in adopt fuel h1 (r_sibling (h1 ! n)) new)"

text \<open>The sibling whose \<^verbatim>\<open>sibling\<close> field is \<open>target\<close>.\<close>

primrec find_prev :: "nat \<Rightarrow> rstore \<Rightarrow> nat \<Rightarrow> nat \<Rightarrow> nat run" where
  "find_prev 0 h tmp target = Inl No_fuel"
| "find_prev (Suc fuel) h tmp target =
    (if r_sibling (h ! tmp) = Some target then Inr tmp
     else case r_sibling (h ! tmp) of
            None \<Rightarrow> Inl Bad_access
          | Some s \<Rightarrow> find_prev fuel h s target)"

definition insert_splice :: "rstore \<Rightarrow> nat \<Rightarrow> nat \<Rightarrow> nat \<Rightarrow> nat \<Rightarrow> rstore run" where
  "insert_splice h parent new first final =
    (let h1 = h[new := (h ! new)\<lparr>r_parent := Some parent, r_sibling := r_sibling (h ! final), r_child := Some first\<rparr>];
         h2 = assign h1 (SiblingOf final) None
     in run_bind (adopt (store_fuel h) h2 (Some first) new)
          (\<lambda>h3.
             if r_child (h3 ! parent) = Some first then Inr (assign h3 (ChildOf parent) (Some new))
             else case r_child (h3 ! parent) of
                    None \<Rightarrow> Inl Bad_access
                  | Some c \<Rightarrow>
                      run_bind (find_prev (store_fuel h) h3 c first)
                        (\<lambda>prev. Inr (assign h3 (SiblingOf prev) (Some new)))))"

definition do_insert_resource :: "rstore \<Rightarrow> nat \<Rightarrow> nat \<Rightarrow> (rstore \<times> nat option) run" where
  "do_insert_resource h parent0 new =
    run_bind (insert_descend (store_fuel h) h parent0 new)
      (\<lambda>(h1, r).
         case r of
           Inl conflict \<Rightarrow> Inr (h1, conflict)
         | Inr (parent, first) \<Rightarrow>
             run_bind (insert_extent (store_fuel h) h1 new first)
               (\<lambda>e. case e of
                      Inl next \<Rightarrow> Inr (h1, Some next)
                    | Inr final \<Rightarrow>
                        run_bind (insert_splice h1 parent new first final) (\<lambda>h2. Inr (h2, None))))"

definition insert_resource_conflict :: "rstore \<Rightarrow> nat \<Rightarrow> nat \<Rightarrow> (rstore \<times> nat option) run" where
  "insert_resource_conflict h parent new = do_insert_resource h parent new"

definition insert_resource :: "rstore \<Rightarrow> nat \<Rightarrow> nat \<Rightarrow> (rstore \<times> int) run" where
  "insert_resource h parent new =
    run_bind (insert_resource_conflict h parent new)
      (\<lambda>(h', conflict). Inr (h', if conflict \<noteq> None then - EBUSY else 0))"

primrec expand_to_fit :: "nat \<Rightarrow> rstore \<Rightarrow> nat \<Rightarrow> nat \<Rightarrow> rstore run" where
  "expand_to_fit 0 h root new = Inl No_fuel"
| "expand_to_fit (Suc fuel) h root new =
    run_bind (do_insert_resource h root new)
      (\<lambda>(h1, conflict).
         case conflict of
           None \<Rightarrow> Inr h1
         | Some c \<Rightarrow>
             if c = root then Inr h1
             else expand_to_fit fuel
                    (set_range h1 new (min (r_start (h1 ! c)) (r_start (h1 ! new)))
                       (max (r_end (h1 ! c)) (r_end (h1 ! new)))) root new)"

definition insert_resource_expand_to_fit :: "rstore \<Rightarrow> nat \<Rightarrow> nat \<Rightarrow> rstore run" where
  "insert_resource_expand_to_fit h root new =
    (if r_parent (h ! new) \<noteq> None then Inr h else expand_to_fit (2 * store_fuel h) h root new)"

subsection \<open>Adjusting\<close>

primrec children_within :: "nat \<Rightarrow> rstore \<Rightarrow> nat option \<Rightarrow> u64 \<Rightarrow> u64 \<Rightarrow> bool run" where
  "children_within 0 h tmp start end = Inl No_fuel"
| "children_within (Suc fuel) h tmp start end =
    (case tmp of
       None \<Rightarrow> Inr True
     | Some t \<Rightarrow>
         if r_start (h ! t) < start \<or> r_end (h ! t) > end then Inr False
         else children_within fuel h (r_sibling (h ! t)) start end)"

text \<open>The checks against the parent and the neighbours, which a resource without parent skips.\<close>

definition neighbours_allow :: "rstore \<Rightarrow> nat \<Rightarrow> u64 \<Rightarrow> u64 \<Rightarrow> bool run" where
  "neighbours_allow h res start end =
    (case r_parent (h ! res) of
       None \<Rightarrow> Inr True
     | Some parent \<Rightarrow>
         if start < r_start (h ! parent) \<or> end > r_end (h ! parent) then Inr False
         else if (case r_sibling (h ! res) of None \<Rightarrow> False | Some s \<Rightarrow> r_start (h ! s) \<le> end) then Inr False
         else
           case r_child (h ! parent) of
             None \<Rightarrow> Inl Bad_access
           | Some tmp \<Rightarrow>
               if tmp = res then Inr True
               else run_bind (find_prev (store_fuel h) h tmp res)
                      (\<lambda>prev. Inr (\<not> start \<le> r_end (h ! prev))))"

definition do_adjust_resource :: "rstore \<Rightarrow> nat \<Rightarrow> u64 \<Rightarrow> u64 \<Rightarrow> (rstore \<times> int) run" where
  "do_adjust_resource h res start sz =
    (let end = u64_sub (u64_add start sz) 1 in
     run_bind (neighbours_allow h res start end)
       (\<lambda>ok.
          if \<not> ok then Inr (h, - EBUSY)
          else run_bind (children_within (store_fuel h) h (r_child (h ! res)) start end)
                 (\<lambda>fit. if \<not> fit then Inr (h, - EBUSY) else Inr (set_range h res start end, 0))))"

definition adjust_resource :: "rstore \<Rightarrow> nat \<Rightarrow> u64 \<Rightarrow> u64 \<Rightarrow> (rstore \<times> int) run" where
  "adjust_resource h res start sz = do_adjust_resource h res start sz"

definition resource_alignment :: "resource \<Rightarrow> u64" where
  "resource_alignment res =
    (let f = r_flags res AND (IORESOURCE_SIZEALIGN OR IORESOURCE_STARTALIGN) in
     if f = IORESOURCE_SIZEALIGN then resource_size res
     else if f = IORESOURCE_STARTALIGN then r_start res
     else 0)"

end
