(* ===== verification/Resource_Tree.thy ===== *)
theory Resource_Tree
  imports Resource
begin

text \<open>
  Lists of siblings in the store: the abstraction of one level of the tree to the list of its
  resources, its invariant, and what requesting and releasing do to it.
\<close>

subsection \<open>Reading the store after an update\<close>

named_theorems store_simps \<open>fields of a cell after an update of the store\<close>

lemma assign_length [simp]: "length (assign h l v) = length h"
  by (cases l) simp_all

lemma set_parent_length [simp]: "length (set_parent h r v) = length h"
  by (simp add: set_parent_def)

lemma set_range_length [simp]: "length (set_range h r a b) = length h"
  by (simp add: set_range_def)

lemma nth_update: "(xs[i := v]) ! j = (if j = i \<and> i < length xs then v else xs ! j)"
  by (cases "i < length xs") (auto simp: nth_list_update list_update_beyond)

lemma assign_data [store_simps]:
  "r_start (assign h l v ! r) = r_start (h ! r)" "r_end (assign h l v ! r) = r_end (h ! r)"
  "r_name (assign h l v ! r) = r_name (h ! r)" "r_flags (assign h l v ! r) = r_flags (h ! r)"
  "r_desc (assign h l v ! r) = r_desc (h ! r)" "r_parent (assign h l v ! r) = r_parent (h ! r)"
  by (cases l; simp add: nth_update)+

lemma assign_links [store_simps]:
  "r_child (assign h (ChildOf x) v ! r) = (if r = x \<and> x < length h then v else r_child (h ! r))"
  "r_sibling (assign h (ChildOf x) v ! r) = r_sibling (h ! r)"
  "r_child (assign h (SiblingOf x) v ! r) = r_child (h ! r)"
  "r_sibling (assign h (SiblingOf x) v ! r) = (if r = x \<and> x < length h then v else r_sibling (h ! r))"
  by (simp_all add: nth_update)

declare assign.simps [simp del]

lemma set_parent_fields [store_simps]:
  "r_start (set_parent h x v ! r) = r_start (h ! r)" "r_end (set_parent h x v ! r) = r_end (h ! r)"
  "r_name (set_parent h x v ! r) = r_name (h ! r)" "r_flags (set_parent h x v ! r) = r_flags (h ! r)"
  "r_desc (set_parent h x v ! r) = r_desc (h ! r)" "r_child (set_parent h x v ! r) = r_child (h ! r)"
  "r_sibling (set_parent h x v ! r) = r_sibling (h ! r)"
  "r_parent (set_parent h x v ! r) = (if r = x \<and> x < length h then v else r_parent (h ! r))"
  by (simp_all add: set_parent_def nth_update)

subsection \<open>Lists of siblings\<close>

primrec path :: "rstore \<Rightarrow> nat option \<Rightarrow> nat list \<Rightarrow> nat option \<Rightarrow> bool" where
  "path h p [] q \<longleftrightarrow> p = q"
| "path h p (x # xs) q \<longleftrightarrow> p = Some x \<and> x < length h \<and> path h (r_sibling (h ! x)) xs q"

lemma path_append: "path h p (xs @ ys) q \<longleftrightarrow> (\<exists>m. path h p xs m \<and> path h m ys q)"
  by (induction xs arbitrary: p) auto

lemma path_cong:
  assumes "length h' = length h" "\<And>x. x \<in> set xs \<Longrightarrow> r_sibling (h' ! x) = r_sibling (h ! x)"
  shows "path h' p xs q \<longleftrightarrow> path h p xs q"
  using assms(2) by (induction xs arbitrary: p) (auto simp: assms(1))

lemma path_bounded: "path h p xs q \<Longrightarrow> x \<in> set xs \<Longrightarrow> x < length h"
  by (induction xs arbitrary: p) auto

lemma path_fuel:
  assumes "path h p xs q" "distinct xs"
  shows "length xs \<le> length h"
proof -
  have "set xs \<subseteq> {..<length h}" using path_bounded [OF assms(1)] by auto
  then have "card (set xs) \<le> length h" using card_mono [of "{..<length h}" "set xs"] by simp
  then show ?thesis using assms(2) by (simp add: distinct_card)
qed

text \<open>The link that follows the siblings \<open>pre\<close>, and a change of it.\<close>

definition link_after :: "nat \<Rightarrow> nat list \<Rightarrow> link" where
  "link_after root pre = (if pre = [] then ChildOf root else SiblingOf (last pre))"

lemma deref_link_after:
  "path h (r_child (h ! root)) pre q \<Longrightarrow> deref h (link_after root pre) = q"
proof (cases pre rule: rev_cases)
  case (snoc ys y)
  assume "path h (r_child (h ! root)) pre q"
  then show ?thesis by (auto simp: link_after_def snoc path_append)
qed (simp add: link_after_def)

lemma assign_link_after:
  assumes "path h (r_child (h ! root)) pre q" "distinct pre" "root \<notin> set pre" "root < length h"
  shows "path (assign h (link_after root pre) v) (r_child (assign h (link_after root pre) v ! root)) pre v"
proof (cases pre rule: rev_cases)
  case Nil
  then show ?thesis using assms(4) by (simp add: link_after_def store_simps)
next
  case (snoc ys y)
  then have p: "path h (r_child (h ! root)) ys (Some y)" "y < length h" "y \<notin> set ys"
    using assms(1,2) by (auto simp: path_append)
  have "path (assign h (SiblingOf y) v) (r_child (h ! root)) ys (Some y)"
    using p(1,3) by (subst path_cong [of _ h]) (auto simp: store_simps)
  then show ?thesis using p(2) by (simp add: snoc link_after_def path_append store_simps)
qed

definition disjoint_res :: "rstore \<Rightarrow> nat \<Rightarrow> nat \<Rightarrow> bool" where
  "disjoint_res h a b \<longleftrightarrow> r_end (h ! a) < r_start (h ! b) \<or> r_end (h ! b) < r_start (h ! a)"

definition res_before :: "rstore \<Rightarrow> nat \<Rightarrow> nat \<Rightarrow> bool" where
  "res_before h a b \<longleftrightarrow> r_end (h ! a) < r_start (h ! b)"

definition in_range :: "rstore \<Rightarrow> nat \<Rightarrow> nat \<Rightarrow> bool" where
  "in_range h root x \<longleftrightarrow> r_start (h ! x) \<le> r_end (h ! x) \<and> r_start (h ! root) \<le> r_start (h ! x) \<and> r_end (h ! x) \<le> r_end (h ! root)"

text \<open>
  One level of the tree: the children of \<open>root\<close> are the cells \<open>xs\<close>, in the order of their
  addresses, without overlap, inside the range of \<open>root\<close>, and know their parent.
\<close>

definition level :: "rstore \<Rightarrow> nat \<Rightarrow> nat list \<Rightarrow> bool" where
  "level h root xs \<longleftrightarrow> root < length h \<and> path h (r_child (h ! root)) xs None \<and> distinct xs \<and> root \<notin> set xs \<and>
    sorted_wrt (res_before h) xs \<and> (\<forall>x\<in>set xs. in_range h root x \<and> r_parent (h ! x) = Some root)"

lemma level_fuel: "level h root xs \<Longrightarrow> length xs < store_fuel h"
  using path_fuel [of h "r_child (h ! root)" xs None] by (auto simp: level_def store_fuel_def)

lemma level_path_pre:
  assumes "level h root (pre @ suf)"
  shows "path h (r_child (h ! root)) pre (case suf of [] \<Rightarrow> None | x # _ \<Rightarrow> Some x)" "distinct pre" "root \<notin> set pre"
  using assms by (auto simp: level_def path_append split: list.splits)

lemma level_deref:
  assumes "level h root (pre @ suf)"
  shows "deref h (link_after root pre) = (case suf of [] \<Rightarrow> None | x # _ \<Rightarrow> Some x)"
  by (rule deref_link_after) (rule level_path_pre(1) [OF assms])

subsection \<open>The walk of a request\<close>

lemma request_walk_spec:
  assumes "level h root (pre @ suf)" "r_start (h ! new) \<le> r_end (h ! new)" "length suf < fuel"
  shows "request_walk fuel h root new (link_after root pre) =
    (let skip = takeWhile (\<lambda>x. r_end (h ! x) < r_start (h ! new)) suf;
         rest = dropWhile (\<lambda>x. r_end (h ! x) < r_start (h ! new)) suf
     in case rest of
          [] \<Rightarrow> Inr (link_resource h root new (link_after root (pre @ skip)), None)
        | x # _ \<Rightarrow>
            if r_start (h ! x) > r_end (h ! new)
            then Inr (link_resource h root new (link_after root (pre @ skip)), None)
            else Inr (h, Some x))"
  using assms
proof (induction suf arbitrary: pre fuel)
  case Nil
  then obtain f where "fuel = Suc f" by (cases fuel) auto
  then show ?case using level_deref [OF Nil.prems(1)] by simp
next
  case (Cons x suf)
  then obtain f where f: "fuel = Suc f" by (cases fuel) auto
  have d: "deref h (link_after root pre) = Some x" using level_deref [OF Cons.prems(1)] by simp
  have x: "r_start (h ! x) \<le> r_end (h ! x)" using Cons.prems(1) by (simp add: level_def in_range_def)
  show ?case
  proof (cases "r_end (h ! x) < r_start (h ! new)")
    case True
    have "link_after root (pre @ [x]) = SiblingOf x" by (simp add: link_after_def)
    then show ?thesis
      using Cons.IH [of "pre @ [x]" f] Cons.prems f d x True by (simp add: Let_def cong: list.case_cong if_cong)
  next
    case False
    then show ?thesis using f d by simp
  qed
qed


text \<open>Linking a cell in between two siblings.\<close>

lemma link_resource_fields:
  assumes "new < length h" "deref h p = t" "p \<noteq> SiblingOf new"
  shows "length (link_resource h root new p) = length h"
    "r_start (link_resource h root new p ! r) = r_start (h ! r)" "r_end (link_resource h root new p ! r) = r_end (h ! r)"
    "r_parent (link_resource h root new p ! r) = (if r = new then Some root else r_parent (h ! r))"
    "r_sibling (link_resource h root new p ! r) =
       (if r = new then t else if p = SiblingOf r \<and> r < length h then Some new else r_sibling (h ! r))"
    "r_child (link_resource h root new p ! r) = (if p = ChildOf r \<and> r < length h then Some new else r_child (h ! r))"
    "r \<noteq> new \<Longrightarrow> p \<noteq> SiblingOf r \<Longrightarrow> p \<noteq> ChildOf r \<Longrightarrow> link_resource h root new p ! r = h ! r"
  using assms by (cases p; auto simp: link_resource_def Let_def store_simps)+

lemma level_link:
  assumes lv: "level h root (pre @ suf)" and new: "new < length h" "new \<noteq> root" "new \<notin> set (pre @ suf)"
    and rng: "in_range h root new" "\<And>x. x \<in> set pre \<Longrightarrow> res_before h x new" "\<And>x. x \<in> set suf \<Longrightarrow> res_before h new x"
  shows "level (link_resource h root new (link_after root pre)) root (pre @ new # suf)"
proof -
  let ?t = "case suf of [] \<Rightarrow> None | x # _ \<Rightarrow> Some x"
  define h' where "h' = link_resource h root new (link_after root pre)"
  have root: "root < length h" "root \<notin> set (pre @ suf)" "distinct (pre @ suf)" using lv by (auto simp: level_def)
  have ne: "link_after root pre \<noteq> SiblingOf new" using new(3) by (auto simp: link_after_def dest: last_in_set)
  have p_sib: "link_after root pre = SiblingOf r \<longleftrightarrow> pre \<noteq> [] \<and> r = last pre" for r by (auto simp: link_after_def)
  have p_chd: "link_after root pre = ChildOf r \<longleftrightarrow> pre = [] \<and> r = root" for r by (auto simp: link_after_def)
  note F = link_resource_fields [OF new(1) level_deref [OF lv] ne, where root = root,
      unfolded p_sib p_chd, folded h'_def]
  have suf: "path h' ?t suf None"
  proof -
    have "path h ?t suf None" using lv by (auto simp: level_def path_append split: list.splits)
    moreover have "r_sibling (h' ! x) = r_sibling (h ! x)" if "x \<in> set suf" for x
      using that new(3) root(3) last_in_set [of pre] disjoint_iff [of "set pre" "set suf"] by (auto simp: F)
    ultimately show ?thesis by (subst path_cong [OF F(1)])
  qed
  have pre: "path h' (r_child (h' ! root)) pre (Some new)"
  proof (cases pre rule: rev_cases)
    case Nil
    then show ?thesis using root(1) by (simp add: F)
  next
    case (snoc ys y)
    have y: "path h (r_child (h ! root)) ys (Some y)" "y < length h" "y \<notin> set ys" "new \<notin> set ys" "y \<noteq> new"
      using level_path_pre(1,2) [OF lv] new(3) snoc by (auto simp: path_append)
    have "path h' (r_child (h ! root)) ys (Some y) \<longleftrightarrow> path h (r_child (h ! root)) ys (Some y)"
      by (rule path_cong [OF F(1)]) (use y in \<open>auto simp: F snoc\<close>)
    then show ?thesis using y by (simp add: F snoc path_append)
  qed
  have rb: "res_before h' = res_before h" "in_range h' root = in_range h root"
    by (simp_all add: fun_eq_iff res_before_def in_range_def F)
  have "path h' (r_child (h' ! root)) (pre @ new # suf) None"
    using pre suf new(1) by (auto simp: path_append F)
  moreover have "sorted_wrt (res_before h) (pre @ new # suf)"
    using lv rng(2,3) by (auto simp: level_def sorted_wrt_append)
  ultimately show ?thesis
    unfolding level_def rb h'_def [symmetric] using lv root new rng(1) by (auto simp: level_def F)
qed

subsection \<open>Requesting\<close>

lemma takeWhile_all: "dropWhile P xs = [] \<Longrightarrow> takeWhile P xs = xs"
  by (metis append_Nil2 takeWhile_dropWhile_id)

lemma sorted_rest_before:
  assumes "sorted_wrt (res_before h) (x # rest)" "\<forall>y\<in>set (x # rest). r_start (h ! y) \<le> r_end (h ! y)"
    "r_end (h ! new) < r_start (h ! x)"
  shows "\<forall>y\<in>set (x # rest). res_before h new y"
  using assms by (fastforce simp: res_before_def)

lemma do_request_resource_spec:
  assumes lv: "level h root xs" and new: "new < length h" "new \<noteq> root" "new \<notin> set xs"
  shows "if in_range h root new \<and> (\<forall>x\<in>set xs. disjoint_res h x new)
    then \<exists>pre suf. xs = pre @ suf \<and>
      do_request_resource h root new = Inr (link_resource h root new (link_after root pre), None) \<and>
      level (link_resource h root new (link_after root pre)) root (pre @ new # suf)
    else \<exists>c. do_request_resource h root new = Inr (h, Some c) \<and>
      (c = root \<and> \<not> in_range h root new \<or>
       in_range h root new \<and> (\<exists>pre suf. xs = pre @ c # suf \<and> (\<forall>x\<in>set pre. res_before h x new) \<and> \<not> disjoint_res h c new))"
proof (cases "in_range h root new")
  case False
  then show ?thesis
    by (auto simp: do_request_resource_def in_range_def)
next
  case True
  let ?P = "\<lambda>x. r_end (h ! x) < r_start (h ! new)"
  let ?pre = "takeWhile ?P xs" and ?suf = "dropWhile ?P xs"
  have xs: "xs = ?pre @ ?suf" by simp
  have walk: "do_request_resource h root new = request_walk (store_fuel h) h root new (link_after root [])"
    using True by (simp add: do_request_resource_def in_range_def link_after_def)
  have run: "do_request_resource h root new =
      (case ?suf of
         [] \<Rightarrow> Inr (link_resource h root new (link_after root ?pre), None)
       | x # _ \<Rightarrow> if r_start (h ! x) > r_end (h ! new)
           then Inr (link_resource h root new (link_after root ?pre), None) else Inr (h, Some x))"
    unfolding walk using request_walk_spec [of h root "[]" xs new "store_fuel h", unfolded Let_def append_Nil]
      lv True level_fuel [OF lv] by (simp add: in_range_def)
  have pre: "\<And>x. x \<in> set ?pre \<Longrightarrow> res_before h x new" by (auto simp: res_before_def dest: set_takeWhileD)
  have link: "\<exists>pre suf. xs = pre @ suf \<and>
      do_request_resource h root new = Inr (link_resource h root new (link_after root pre), None) \<and>
      level (link_resource h root new (link_after root pre)) root (pre @ new # suf)"
    if "do_request_resource h root new = Inr (link_resource h root new (link_after root ?pre), None)"
      "\<And>x. x \<in> set ?suf \<Longrightarrow> res_before h new x"
  proof (intro exI conjI)
    show "xs = ?pre @ ?suf" by (rule xs)
    show "level (link_resource h root new (link_after root ?pre)) root (?pre @ new # ?suf)"
      by (rule level_link) (use lv new True pre that(2) in auto)
  qed (rule that(1))
  have inr: "\<forall>y\<in>set xs. r_start (h ! y) \<le> r_end (h ! y)" using lv by (simp add: level_def in_range_def)
  show ?thesis
  proof (cases ?suf)
    case Nil
    then have "\<forall>x\<in>set xs. disjoint_res h x new" using pre takeWhile_all [OF Nil] by (auto simp: disjoint_res_def res_before_def)
    then show ?thesis using True link run Nil by simp
  next
    case (Cons x rest)
    have sorted: "sorted_wrt (res_before h) ?suf" using lv xs by (metis level_def sorted_wrt_append)
    have nx: "\<not> ?P x" using Cons by (metis dropWhile_eq_Cons_conv)
    have xin: "x \<in> set xs" using Cons by (metis list.set_intros(1) set_dropWhileD)
    show ?thesis
    proof (cases "r_start (h ! x) > r_end (h ! new)")
      case gt: True
      have suf: "\<forall>y\<in>set ?suf. res_before h new y"
        using sorted_rest_before [of h x rest new] sorted inr gt unfolding Cons by (metis Cons set_dropWhileD)
      then have "\<forall>y\<in>set xs. disjoint_res h y new"
        using pre xs by (metis Un_iff disjoint_res_def res_before_def set_append)
      then show ?thesis using True link [OF _ bspec [OF suf]] run Cons gt by simp
    next
      case False
      then have "\<not> disjoint_res h x new" using nx by (auto simp: disjoint_res_def)
      moreover have "xs = ?pre @ x # rest" using xs Cons by simp
      ultimately show ?thesis using True run Cons False xin pre by auto
    qed
  qed
qed


subsection \<open>Releasing\<close>

lemma level_cong:
  assumes "length h' = length h" "r_child (h' ! r) = r_child (h ! r)"
    "\<And>x. x = r \<or> x \<in> set xs \<Longrightarrow> r_start (h' ! x) = r_start (h ! x)"
    "\<And>x. x = r \<or> x \<in> set xs \<Longrightarrow> r_end (h' ! x) = r_end (h ! x)"
    "\<And>x. x \<in> set xs \<Longrightarrow> r_sibling (h' ! x) = r_sibling (h ! x) \<and> r_parent (h' ! x) = r_parent (h ! x)"
  shows "level h' r xs \<longleftrightarrow> level h r xs"
proof -
  have "sorted_wrt (res_before h') xs \<longleftrightarrow> sorted_wrt (res_before h) xs"
    using sorted_wrt_mono_rel [of xs "res_before h" "res_before h'"] sorted_wrt_mono_rel [of xs "res_before h'" "res_before h"]
    by (auto simp: res_before_def assms(3,4))
  moreover have "path h' (r_child (h' ! r)) xs None \<longleftrightarrow> path h (r_child (h ! r)) xs None"
    unfolding assms(2) by (rule path_cong) (use assms(1,5) in auto)
  ultimately show ?thesis using assms(1,5) by (auto simp: level_def in_range_def assms(3,4))
qed

lemma release_walk_spec:
  assumes "level h root (pre @ rest)" "length rest < fuel"
  shows "release_walk fuel h old rc (link_after root pre) =
    (if old \<in> set rest then release_found h old rc (link_after root (pre @ takeWhile (\<lambda>x. x \<noteq> old) rest))
     else Inr (h, - EINVAL))"
  using assms
proof (induction rest arbitrary: pre fuel)
  case Nil
  then obtain f where "fuel = Suc f" by (cases fuel) auto
  then show ?case using level_deref [OF Nil.prems(1)] by simp
next
  case (Cons x rest)
  then obtain f where f: "fuel = Suc f" by (cases fuel) auto
  have d: "deref h (link_after root pre) = Some x" using level_deref [OF Cons.prems(1)] by simp
  have "link_after root (pre @ [x]) = SiblingOf x" by (simp add: link_after_def)
  then show ?case using Cons.IH [of "pre @ [x]" f] Cons.prems f d by auto
qed

lemma do_release_resource_found:
  assumes lv: "level h root (pre @ old # suf)"
  shows "do_release_resource h old rc = release_found h old rc (link_after root pre)"
proof -
  have "old \<notin> set pre" "r_parent (h ! old) = Some root" using lv by (auto simp: level_def)
  moreover from this have "takeWhile (\<lambda>x. x \<noteq> old) (pre @ old # suf) = pre"
    by (subst takeWhile_append2) auto
  ultimately show ?thesis
    using release_walk_spec [of h root "[]" "pre @ old # suf" "store_fuel h" old rc] lv level_fuel [OF lv]
    by (simp add: do_release_resource_def link_after_def)
qed

text \<open>The store after the link behind \<open>pre\<close> has been set to \<open>v\<close> and \<open>old\<close> has lost its parent.\<close>

lemma unlink_fields:
  fixes h root pre old v
  assumes "old < length h"
  defines "h' \<equiv> set_parent (assign h (link_after root pre) v) old None"
  shows "length h' = length h"
    "r_start (h' ! r) = r_start (h ! r)" "r_end (h' ! r) = r_end (h ! r)"
    "r_parent (h' ! r) = (if r = old then None else r_parent (h ! r))"
    "r_sibling (h' ! r) = (if pre \<noteq> [] \<and> r = last pre \<and> r < length h then v else r_sibling (h ! r))"
    "r_child (h' ! r) = (if pre = [] \<and> r = root \<and> r < length h then v else r_child (h ! r))"
  using assms by (auto simp: link_after_def store_simps)

lemma level_unlink:
  assumes lv: "level h root (pre @ old # suf)"
  shows "level (set_parent (assign h (link_after root pre) (r_sibling (h ! old))) old None) root (pre @ suf)"
proof -
  define h' where "h' = set_parent (assign h (link_after root pre) (r_sibling (h ! old))) old None"
  have root: "root < length h" "root \<notin> set (pre @ old # suf)" "distinct (pre @ old # suf)" "old < length h"
    using lv by (auto simp: level_def path_append)
  note F = unlink_fields [OF root(4), where root = root and pre = pre and v = "r_sibling (h ! old)", folded h'_def]
  have "path h (r_sibling (h ! old)) suf None" using lv by (auto simp: level_def path_append)
  moreover have "r_sibling (h' ! x) = r_sibling (h ! x)" if "x \<in> set suf" for x
    using that root(3) last_in_set [of pre] disjoint_iff [of "set pre" "set suf"] by (auto simp: F)
  ultimately have suf: "path h' (r_sibling (h ! old)) suf None" by (subst path_cong [OF F(1)])
  define h1 where "h1 = assign h (link_after root pre) (r_sibling (h ! old))"
  have "path h1 (r_child (h1 ! root)) pre (r_sibling (h ! old))"
    unfolding h1_def using level_path_pre [OF lv] root(1) by (intro assign_link_after)
  moreover have "path h' (r_child (h' ! root)) pre (r_sibling (h ! old)) = path h1 (r_child (h' ! root)) pre (r_sibling (h ! old))"
    by (rule path_cong) (simp_all add: h'_def h1_def store_simps)
  moreover have "r_child (h' ! root) = r_child (h1 ! root)" by (simp add: h'_def h1_def store_simps)
  ultimately have pre: "path h' (r_child (h' ! root)) pre (r_sibling (h ! old))" by simp
  have rb: "res_before h' = res_before h" "in_range h' root = in_range h root"
    by (simp_all add: fun_eq_iff res_before_def in_range_def F)
  have "path h' (r_child (h' ! root)) (pre @ suf) None" using pre suf by (auto simp: path_append)
  then show ?thesis
    unfolding level_def rb h'_def [symmetric] using lv root by (simp add: level_def F sorted_wrt_append) blast
qed

text \<open>Giving a list of cells a parent.\<close>

primrec set_parents :: "rstore \<Rightarrow> nat list \<Rightarrow> nat option \<Rightarrow> rstore" where
  "set_parents h [] v = h"
| "set_parents h (x # xs) v = set_parents (set_parent h x v) xs v"

lemma set_parents_fields [store_simps]:
  "length (set_parents h xs v) = length h"
  "r_start (set_parents h xs v ! r) = r_start (h ! r)" "r_end (set_parents h xs v ! r) = r_end (h ! r)"
  "r_name (set_parents h xs v ! r) = r_name (h ! r)" "r_flags (set_parents h xs v ! r) = r_flags (h ! r)"
  "r_desc (set_parents h xs v ! r) = r_desc (h ! r)"
  "r_child (set_parents h xs v ! r) = r_child (h ! r)" "r_sibling (set_parents h xs v ! r) = r_sibling (h ! r)"
  "r_parent (set_parents h xs v ! r) = (if r \<in> set xs \<and> r < length h then v else r_parent (h ! r))"
  by (induction xs arbitrary: h) (auto simp: store_simps)

lemma path_set_parent: "path (set_parent h x v) p xs q \<longleftrightarrow> path h p xs q"
  by (rule path_cong) (simp_all add: store_simps)

lemma reparent_spec:
  assumes "path h (Some c) (c # cs) None" "length cs < fuel"
  shows "reparent fuel h c v = Inr (set_parents h (c # cs) v, last (c # cs))"
  using assms
proof (induction cs arbitrary: h c fuel)
  case Nil
  then obtain f where "fuel = Suc f" by (cases fuel) auto
  then show ?case using Nil.prems by (simp add: store_simps)
next
  case (Cons d cs)
  then obtain f where f: "fuel = Suc f" by (cases fuel) auto
  have "r_sibling (h ! c) = Some d" using Cons.prems(1) by simp
  then show ?case
    using Cons.IH [of "set_parent h c v" d f] Cons.prems f by (simp add: store_simps path_set_parent)
qed

lemma path_relink:
  assumes "path h p xs q" "xs \<noteq> []" "length h' = length h" "r_sibling (h' ! last xs) = q'"
    "\<And>x. x \<in> set xs \<Longrightarrow> x \<noteq> last xs \<Longrightarrow> r_sibling (h' ! x) = r_sibling (h ! x)" "distinct xs"
  shows "path h' p xs q'"
proof (cases xs rule: rev_cases)
  case (snoc ys y)
  have "path h' p ys (Some y) \<longleftrightarrow> path h p ys (Some y)"
    by (rule path_cong [OF assms(3)]) (use assms(5,6) snoc in auto)
  then show ?thesis using assms snoc by (auto simp: path_append)
qed (use assms(2) in simp)

text \<open>The store after the children \<open>cs\<close> of \<open>old\<close> have taken its place behind \<open>pre\<close>.\<close>

definition moved_up :: "rstore \<Rightarrow> nat \<Rightarrow> nat list \<Rightarrow> nat \<Rightarrow> nat list \<Rightarrow> rstore" where
  "moved_up h root pre old cs =
    (let h1 = set_parents h cs (Some root);
         h2 = assign h1 (link_after root pre) (r_child (h1 ! old));
         h3 = assign h2 (SiblingOf (last cs)) (r_sibling (h2 ! old))
     in set_parent h3 old None)"

lemma moved_up_fields:
  fixes h root pre old cs
  assumes "old < length h" "old \<notin> set cs" "last cs < length h" "pre = [] \<or> last pre \<noteq> old"
  defines "h' \<equiv> moved_up h root pre old cs"
  shows "length h' = length h"
    "r_start (h' ! r) = r_start (h ! r)" "r_end (h' ! r) = r_end (h ! r)"
    "r_parent (h' ! r) = (if r = old then None else if r \<in> set cs \<and> r < length h then Some root else r_parent (h ! r))"
    "r_sibling (h' ! r) = (if r = last cs then r_sibling (h ! old)
       else if pre \<noteq> [] \<and> r = last pre \<and> r < length h then r_child (h ! old) else r_sibling (h ! r))"
    "r_child (h' ! r) = (if pre = [] \<and> r = root \<and> r < length h then r_child (h ! old) else r_child (h ! r))"
  using assms by (auto simp: moved_up_def Let_def link_after_def store_simps)

lemma level_moved_up:
  assumes lv: "level h root (pre @ old # suf)" and cs: "level h old cs" "cs \<noteq> []" "root \<notin> set cs"
  shows "level (moved_up h root pre old cs) root (pre @ cs @ suf)"
proof -
  define h' where "h' = moved_up h root pre old cs"
  have root: "root < length h" "root \<notin> set (pre @ old # suf)" "distinct (pre @ old # suf)" "old < length h"
    using lv by (auto simp: level_def path_append)
  have csb: "\<forall>x\<in>set cs. x < length h" "old \<notin> set cs" "distinct cs"
    using cs(1) path_bounded [of h "r_child (h ! old)" cs None] by (auto simp: level_def)
  have par: "\<And>x. x \<in> set (pre @ old # suf) \<Longrightarrow> r_parent (h ! x) = Some root"
    "\<And>x. x \<in> set cs \<Longrightarrow> r_parent (h ! x) = Some old"
    using lv cs(1) by (auto simp: level_def)
  then have dj: "set cs \<inter> set (pre @ suf) = {}" using root(2) by fastforce
  have lp: "pre = [] \<or> last pre \<noteq> old \<and> last pre \<in> set pre" using root(3) last_in_set [of pre] by auto
  have lp1: "pre = [] \<or> last pre \<noteq> old" using lp by blast
  have lc: "last cs \<in> set cs" using cs(2) by simp
  note F = moved_up_fields [OF root(4) csb(2) bspec [OF csb(1) lc] lp1, where root = root, folded h'_def]
  have "path h (r_sibling (h ! old)) suf None" using lv by (auto simp: level_def path_append)
  moreover have "r_sibling (h' ! x) = r_sibling (h ! x)" if "x \<in> set suf" for x
    using that root(3) lp lc dj by (auto simp: F)
  ultimately have suf: "path h' (r_sibling (h ! old)) suf None" by (subst path_cong [OF F(1)])
  have mid: "path h' (r_child (h ! old)) cs (r_sibling (h ! old))"
    by (rule path_relink [of h _ _ None])
      (use cs csb lp lc dj F(1) in \<open>auto simp: level_def F\<close>)
  have pre: "path h' (r_child (h' ! root)) pre (r_child (h ! old))"
  proof (cases "pre = []")
    case False
    have ne: "x \<in> set pre \<Longrightarrow> x \<noteq> last cs" for x using lc dj by auto
    have pth: "path h (r_child (h' ! root)) pre (Some old)"
      using level_path_pre(1) [OF lv] False by (simp add: F)
    have bound: "last pre < length h" using path_bounded [OF pth] False by simp
    show ?thesis
      by (rule path_relink [OF pth False F(1)])
        (use False bound ne level_path_pre(2) [OF lv] in \<open>simp_all add: F\<close>)
  qed (use root(1) in \<open>simp add: F\<close>)
  have rb: "res_before h' = res_before h" "in_range h' root = in_range h root"
    by (simp_all add: fun_eq_iff res_before_def in_range_def F)
  have rng: "\<And>x. x \<in> set cs \<Longrightarrow> in_range h old x" "in_range h root old" "sorted_wrt (res_before h) cs"
    using lv cs by (auto simp: level_def)
  have "sorted_wrt (res_before h) (pre @ old # suf)" using lv by (simp add: level_def)
  then have "sorted_wrt (res_before h) (pre @ cs @ suf)"
    using rng(1,3) by (auto simp: sorted_wrt_append) (meson res_before_def in_range_def order.strict_trans2 order.strict_trans1)+
  moreover have "path h' (r_child (h' ! root)) (pre @ cs @ suf) None" using pre mid suf by (auto simp: path_append)
  moreover have "in_range h root x" if "x \<in> set (pre @ cs @ suf)" for x
  proof (cases "x \<in> set cs")
    case True
    then show ?thesis using rng(1) [of x] rng(2) by (simp add: in_range_def)
  qed (use that lv in \<open>auto simp: level_def\<close>)
  moreover have "r_parent (h' ! x) = Some root" if "x \<in> set (pre @ cs @ suf)" for x
    using that csb root(3) par(1) [of x] by (auto simp: F)
  ultimately show ?thesis
    unfolding level_def rb h'_def [symmetric] using root csb cs(3) dj F(1) by auto
qed


subsection \<open>Inserting\<close>

definition within :: "rstore \<Rightarrow> nat \<Rightarrow> nat \<Rightarrow> bool" where
  "within h new x \<longleftrightarrow> r_start (h ! new) \<le> r_start (h ! x) \<and> r_end (h ! x) \<le> r_end (h ! new)"

lemma insert_extent_spec:
  assumes "path h (Some x) (x # xs) None" "length xs < fuel"
  shows "if \<forall>y\<in>set (x # takeWhile (\<lambda>y. r_start (h ! y) \<le> r_end (h ! new)) xs). within h new y
    then insert_extent fuel h new x = Inr (Inr (last (x # takeWhile (\<lambda>y. r_start (h ! y) \<le> r_end (h ! new)) xs)))
    else \<exists>c\<in>set (x # takeWhile (\<lambda>y. r_start (h ! y) \<le> r_end (h ! new)) xs).
      \<not> within h new c \<and> insert_extent fuel h new x = Inr (Inl c)"
  using assms
proof (induction xs arbitrary: x fuel)
  case Nil
  then obtain f where "fuel = Suc f" by (cases fuel) auto
  then show ?case using Nil.prems by (auto simp: within_def)
next
  case (Cons y xs)
  then obtain f where f: "fuel = Suc f" by (cases fuel) auto
  have s: "r_sibling (h ! x) = Some y" using Cons.prems(1) by simp
  show ?case
    using Cons.IH [of y f] Cons.prems f s by (auto simp: within_def not_le split: if_splits)
qed

lemma adopt_spec:
  assumes "path h p xs None" "length xs < fuel"
  shows "adopt fuel h p v = Inr (set_parents h xs (Some v))"
  using assms
proof (induction xs arbitrary: h p fuel)
  case Nil
  then obtain f where "fuel = Suc f" by (cases fuel) auto
  then show ?case using Nil.prems by simp
next
  case (Cons x xs)
  then obtain f where "fuel = Suc f" by (cases fuel) auto
  then show ?case
    using Cons.IH [of "set_parent h x (Some v)" "r_sibling (h ! x)" f] Cons.prems by (auto simp: store_simps path_set_parent)
qed

lemma find_prev_spec:
  assumes "path h (Some c) (c # cs) (Some t)" "t \<notin> set cs" "length cs < fuel"
  shows "find_prev fuel h c t = Inr (last (c # cs))"
  using assms
proof (induction cs arbitrary: c fuel)
  case Nil
  then obtain f where "fuel = Suc f" by (cases fuel) auto
  then show ?case using Nil.prems by simp
next
  case (Cons d cs)
  then obtain f where "fuel = Suc f" by (cases fuel) auto
  then show ?case using Cons.IH [of d f] Cons.prems by auto
qed

text \<open>The store after \<open>new\<close> has taken over the siblings \<open>mid\<close> that follow \<open>pre\<close>.\<close>

definition taken_over :: "rstore \<Rightarrow> nat \<Rightarrow> nat list \<Rightarrow> nat \<Rightarrow> nat list \<Rightarrow> rstore" where
  "taken_over h root pre new mid =
    (let h1 = h[new := (h ! new)\<lparr>r_parent := Some root, r_sibling := r_sibling (h ! last mid), r_child := Some (hd mid)\<rparr>];
         h2 = assign h1 (SiblingOf (last mid)) None
     in assign (set_parents h2 mid (Some new)) (link_after root pre) (Some new))"

lemma taken_over_fields:
  fixes h root pre new mid
  assumes "new < length h" "new \<notin> set mid" "last mid < length h" "mid \<noteq> []" "new \<noteq> root" "pre = [] \<or> last pre \<notin> set mid \<and> last pre \<noteq> new"
  defines "h' \<equiv> taken_over h root pre new mid"
  shows "length h' = length h"
    "r_start (h' ! r) = r_start (h ! r)" "r_end (h' ! r) = r_end (h ! r)"
    "r_parent (h' ! r) = (if r = new then Some root else if r \<in> set mid \<and> r < length h then Some new else r_parent (h ! r))"
    "r_sibling (h' ! r) = (if r = new then r_sibling (h ! last mid) else if r = last mid then None
       else if pre \<noteq> [] \<and> r = last pre \<and> r < length h then Some new else r_sibling (h ! r))"
    "r_child (h' ! r) = (if r = new then Some (hd mid) else if pre = [] \<and> r = root \<and> r < length h then Some new else r_child (h ! r))"
proof -
  have l: "last mid \<in> set mid" using assms(4) by simp
  then have "new \<noteq> last mid" "last mid \<noteq> new" "pre = [] \<or> last pre \<noteq> last mid"
    using assms(2,6) by metis+
  note facts = this assms(1-6) l
  show "length h' = length h"
    "r_start (h' ! r) = r_start (h ! r)" "r_end (h' ! r) = r_end (h ! r)"
    using facts by (auto simp: h'_def taken_over_def Let_def store_simps nth_update)
  show "r_parent (h' ! r) = (if r = new then Some root else if r \<in> set mid \<and> r < length h then Some new else r_parent (h ! r))"
    using facts by (auto simp: h'_def taken_over_def Let_def store_simps nth_update)
  show "r_sibling (h' ! r) = (if r = new then r_sibling (h ! last mid) else if r = last mid then None
       else if pre \<noteq> [] \<and> r = last pre \<and> r < length h then Some new else r_sibling (h ! r))"
    using facts by (auto simp: h'_def taken_over_def Let_def link_after_def store_simps nth_update)
  show "r_child (h' ! r) = (if r = new then Some (hd mid) else if pre = [] \<and> r = root \<and> r < length h then Some new else r_child (h ! r))"
    using facts by (auto simp: h'_def taken_over_def Let_def link_after_def store_simps nth_update)
qed

lemma level_split:
  assumes "level h root (pre @ mid @ suf)"
  shows "mid \<noteq> [] \<Longrightarrow> path h (r_child (h ! root)) pre (Some (hd mid))"
    "mid \<noteq> [] \<Longrightarrow> path h (Some (hd mid)) mid (r_sibling (h ! last mid))"
    "mid \<noteq> [] \<Longrightarrow> path h (r_sibling (h ! last mid)) suf None"
proof -
  obtain m where m: "path h (r_child (h ! root)) pre m" "path h m (mid @ suf) None"
    using assms by (auto simp: level_def path_append)
  assume ne: "mid \<noteq> []"
  then obtain ys y where y: "mid = ys @ [y]" by (cases mid rule: rev_cases) auto
  have "m = Some (hd mid)" using m(2) ne by (cases mid) auto
  then show "path h (r_child (h ! root)) pre (Some (hd mid))"
    "path h (Some (hd mid)) mid (r_sibling (h ! last mid))" "path h (r_sibling (h ! last mid)) suf None"
    using m y by (auto simp: path_append)
qed

lemma level_last_pre:
  assumes "level h root (pre @ mid @ suf)" "new \<notin> set (pre @ mid @ suf)"
  shows "pre = [] \<or> last pre \<notin> set mid \<and> last pre \<noteq> new"
  using assms by (cases pre rule: rev_cases) (auto simp: level_def)

lemma level_taken_over:
  assumes lv: "level h root (pre @ mid @ suf)" and new: "new < length h" "new \<noteq> root" "new \<notin> set (pre @ mid @ suf)"
    and mid: "mid \<noteq> []" "\<forall>x\<in>set mid. within h new x"
    and rng: "in_range h root new" "\<forall>x\<in>set pre. res_before h x new" "\<forall>x\<in>set suf. res_before h new x"
  shows "level (taken_over h root pre new mid) root (pre @ new # suf)"
    "level (taken_over h root pre new mid) new mid"
proof -
  define h' where "h' = taken_over h root pre new mid"
  have root: "root < length h" "root \<notin> set (pre @ mid @ suf)" "distinct (pre @ mid @ suf)"
    "\<forall>x\<in>set (pre @ mid @ suf). x < length h"
    using lv path_bounded [of h "r_child (h ! root)" "pre @ mid @ suf" None] by (auto simp: level_def)
  have lm: "last mid \<in> set mid" using mid(1) by simp
  have lp: "pre = [] \<or> last pre \<in> set pre" using last_in_set by blast
  note lp1 = level_last_pre [OF lv new(3)]
  have nm: "new \<notin> set mid" "last mid < length h" using new(3) root(4) lm by auto
  note F = taken_over_fields [OF new(1) nm mid(1) new(2) lp1, folded h'_def]
  note P = level_split [OF lv mid(1)]
  have "r_sibling (h' ! x) = r_sibling (h ! x)" if "x \<in> set suf" for x
    using that root(3) new(3) lp lm by (auto simp: F)
  then have suf: "path h' (r_sibling (h ! last mid)) suf None"
    using P(3) by (subst path_cong [OF F(1)])
  have midp: "path h' (Some (hd mid)) mid None"
    by (rule path_relink [OF P(2) mid(1) F(1)])
      (use nm lm root(3) lp1 in \<open>auto simp: F\<close>)
  have prep: "path h' (r_child (h' ! root)) pre (Some new)"
  proof (cases "pre = []")
    case False
    have pth: "path h (r_child (h' ! root)) pre (Some (hd mid))"
      using P(1) False new(2) mid(1) by (simp add: F)
    have ne: "x \<in> set pre \<Longrightarrow> x \<noteq> last mid \<and> x \<noteq> new" for x using lm root(3) new(3) by auto
    have lpl: "last pre < length h" using root(4) False by simp
    show ?thesis
      by (rule path_relink [OF pth False F(1)])
        (use False lpl ne root(3) in \<open>simp_all add: F\<close>)
  qed (use root(1) new(2) in \<open>simp add: F\<close>)
  have rb: "res_before h' = res_before h" "in_range h' = in_range h"
    by (simp_all add: fun_eq_iff res_before_def in_range_def F)
  have srt: "sorted_wrt (res_before h) (pre @ mid @ suf)" using lv by (simp add: level_def)
  have all: "\<forall>x\<in>set (pre @ mid @ suf). in_range h root x \<and> r_parent (h ! x) = Some root"
    using lv by (simp add: level_def)
  have "path h' (r_child (h' ! root)) (pre @ new # suf) None" using prep suf new(1) by (auto simp: path_append F)
  moreover have "sorted_wrt (res_before h) (pre @ new # suf)"
    using srt rng(2,3) by (simp add: sorted_wrt_append)
  moreover have "in_range h root x \<and> r_parent (h' ! x) = Some root" if "x \<in> set (pre @ new # suf)" for x
    using that all rng(1) root(3) new(3) by (auto simp: F)
  ultimately show "level h' root (pre @ new # suf)"
    unfolding level_def rb using root new by (auto simp: F)
  have "sorted_wrt (res_before h) mid" using srt by (simp add: sorted_wrt_append)
  moreover have "in_range h new x \<and> r_parent (h' ! x) = Some new" if "x \<in> set mid" for x
    using that all mid(2) root(4) nm(1) by (auto simp: F in_range_def within_def)
  ultimately show "level h' new mid"
    unfolding level_def rb using new root(3) midp by (auto simp: F)
qed

lemma insert_splice_spec:
  assumes lv: "level h root (pre @ mid @ suf)" and new: "new < length h" "new \<noteq> root" "new \<notin> set (pre @ mid @ suf)"
    and mid: "mid \<noteq> []"
  shows "insert_splice h root new (hd mid) (last mid) = Inr (taken_over h root pre new mid)"
proof -
  have root: "root < length h" "root \<notin> set (pre @ mid @ suf)" "distinct (pre @ mid @ suf)"
    using lv by (auto simp: level_def)
  have fuel: "length (pre @ mid @ suf) < store_fuel h" by (rule level_fuel [OF lv])
  define h1 where "h1 = h[new := (h ! new)\<lparr>r_parent := Some root, r_sibling := r_sibling (h ! last mid), r_child := Some (hd mid)\<rparr>]"
  define h3 where "h3 = set_parents (assign h1 (SiblingOf (last mid)) None) mid (Some new)"
  have lm: "last mid \<in> set mid" "hd mid \<in> set mid" using mid by simp_all
  note P = level_split [OF lv mid]
  have sib: "x \<noteq> new \<Longrightarrow> x \<noteq> last mid \<Longrightarrow> r_sibling (h3 ! x) = r_sibling (h ! x)" for x
    by (simp add: h3_def h1_def store_simps nth_update)
  have len: "length h3 = length h" by (simp add: h3_def h1_def store_simps)
  have nm: "last mid \<noteq> new" "last mid < length h" using new(3) lm path_bounded [OF P(2)] by auto
  have "path (assign h1 (SiblingOf (last mid)) None) (Some (hd mid)) mid None"
    by (rule path_relink [OF P(2) mid])
      (use new(3) nm root(3) in \<open>auto simp: h1_def store_simps nth_update\<close>)
  then have adopted: "adopt (store_fuel h) (assign h1 (SiblingOf (last mid)) None) (Some (hd mid)) new = Inr h3"
    unfolding h3_def using fuel by (intro adopt_spec) simp_all
  have chd: "r_child (h3 ! root) = r_child (h ! root)" using new(2) by (simp add: h3_def h1_def store_simps nth_update)
  have "path h3 (r_child (h ! root)) pre (Some (hd mid)) \<longleftrightarrow> path h (r_child (h ! root)) pre (Some (hd mid))"
    by (rule path_cong [OF len], rule sib) (use new(3) root(3) lm in auto)
  then have prep: "path h3 (r_child (h ! root)) pre (Some (hd mid))" using P(1) by simp
  show ?thesis
  proof (cases pre)
    case Nil
    then have "r_child (h ! root) = Some (hd mid)" using P(1) by simp
    then show ?thesis
      using adopted chd Nil by (simp add: insert_splice_def taken_over_def Let_def h1_def [symmetric] h3_def [symmetric] link_after_def)
  next
    case (Cons c cs)
    then have c: "r_child (h ! root) = Some c" "hd mid \<noteq> c" "hd mid \<notin> set cs" using P(1) root(3) lm by auto
    have "find_prev (store_fuel h) h3 c (hd mid) = Inr (last pre)"
      using find_prev_spec [of h3 c cs "hd mid" "store_fuel h"] prep c fuel Cons by simp
    then show ?thesis
      using adopted chd c Cons by (simp add: insert_splice_def taken_over_def Let_def h1_def [symmetric] h3_def [symmetric] link_after_def)
  qed
qed


subsection \<open>Adjusting\<close>

lemma set_range_fields [store_simps]:
  "r_parent (set_range h x a b ! r) = r_parent (h ! r)" "r_child (set_range h x a b ! r) = r_child (h ! r)"
  "r_sibling (set_range h x a b ! r) = r_sibling (h ! r)" "r_flags (set_range h x a b ! r) = r_flags (h ! r)"
  "r_start (set_range h x a b ! r) = (if r = x \<and> x < length h then a else r_start (h ! r))"
  "r_end (set_range h x a b ! r) = (if r = x \<and> x < length h then b else r_end (h ! r))"
  by (simp_all add: set_range_def nth_update)

lemma children_within_spec:
  assumes "path h p xs None" "length xs < fuel"
  shows "children_within fuel h p s e = Inr (\<forall>x\<in>set xs. s \<le> r_start (h ! x) \<and> r_end (h ! x) \<le> e)"
  using assms
proof (induction xs arbitrary: p fuel)
  case Nil
  then obtain f where "fuel = Suc f" by (cases fuel) auto
  then show ?case using Nil.prems by simp
next
  case (Cons x xs)
  then obtain f where "fuel = Suc f" by (cases fuel) auto
  then show ?case using Cons.IH [of "r_sibling (h ! x)" f] Cons.prems by (auto simp: not_le not_less)
qed

lemma neighbours_allow_spec:
  assumes lv: "level h q (pre @ res # suf)"
  shows "neighbours_allow h res s e = Inr (r_start (h ! q) \<le> s \<and> e \<le> r_end (h ! q) \<and>
    (suf \<noteq> [] \<longrightarrow> e < r_start (h ! hd suf)) \<and> (pre \<noteq> [] \<longrightarrow> r_end (h ! last pre) < s))"
proof -
  have par: "r_parent (h ! res) = Some q" using lv by (simp add: level_def)
  have sib: "r_sibling (h ! res) = (case suf of [] \<Rightarrow> None | x # _ \<Rightarrow> Some x)"
    using lv by (cases suf) (auto simp: level_def path_append)
  show ?thesis
  proof (cases pre)
    case Nil
    then have "r_child (h ! q) = Some res" using lv by (simp add: level_def)
    then show ?thesis using par sib Nil by (cases suf) (auto simp: neighbours_allow_def)
  next
    case (Cons c cs)
    have c: "r_child (h ! q) = Some c" "c \<noteq> res" "res \<notin> set cs" using lv Cons by (auto simp: level_def)
    have "path h (Some c) (c # cs) (Some res)" using level_path_pre(1) [OF lv] Cons c(1) by simp
    moreover have "length cs < store_fuel h" using level_fuel [OF lv] Cons by simp
    ultimately have "find_prev (store_fuel h) h c res = Inr (last pre)"
      using find_prev_spec [of h c cs res] c(3) Cons by simp
    then show ?thesis using par sib c Cons by (cases suf) (auto simp: neighbours_allow_def not_le)
  qed
qed

lemma sorted_neighbours:
  assumes "level h q (pre @ res # suf)" "s \<le> e" "suf \<noteq> [] \<longrightarrow> e < r_start (h ! hd suf)" "pre \<noteq> [] \<longrightarrow> r_end (h ! last pre) < s"
  shows "\<forall>x\<in>set pre. r_end (h ! x) < s" "\<forall>x\<in>set suf. e < r_start (h ! x)"
proof -
  have srt: "sorted_wrt (res_before h) pre" "sorted_wrt (res_before h) suf"
    and ok: "\<forall>x\<in>set (pre @ suf). r_start (h ! x) \<le> r_end (h ! x)"
    using assms(1) by (auto simp: level_def sorted_wrt_append in_range_def)
  show "\<forall>x\<in>set suf. e < r_start (h ! x)"
    using srt(2) ok assms(3) by (cases suf) (auto simp: res_before_def intro: order.strict_trans2 order.strict_trans)
  show "\<forall>x\<in>set pre. r_end (h ! x) < s"
  proof (cases pre rule: rev_cases)
    case (snoc ys y)
    have "r_end (h ! x) < s" if "x \<in> set ys" for x
    proof -
      have "r_end (h ! x) < r_start (h ! y)" "r_start (h ! y) \<le> r_end (h ! y)" "r_end (h ! y) < s"
        using that srt(1) ok assms(4) snoc by (auto simp: sorted_wrt_append res_before_def)
      then show ?thesis by simp
    qed
    then show ?thesis using assms(4) snoc by auto
  qed simp
qed

lemma level_set_range:
  assumes lv: "level h q (pre @ res # suf)" and se: "r_start (h ! q) \<le> s" "e \<le> r_end (h ! q)" "s \<le> e"
    and nb: "\<forall>x\<in>set pre. r_end (h ! x) < s" "\<forall>x\<in>set suf. e < r_start (h ! x)"
  shows "level (set_range h res s e) q (pre @ res # suf)"
proof -
  let ?h = "set_range h res s e"
  have res: "res < length h" "q \<noteq> res" "res \<notin> set pre" "res \<notin> set suf" using lv by (auto simp: level_def path_append)
  have "path ?h (r_child (?h ! q)) (pre @ res # suf) None \<longleftrightarrow> path h (r_child (h ! q)) (pre @ res # suf) None"
    unfolding set_range_fields by (rule path_cong) (simp_all add: store_simps)
  moreover have "sorted_wrt (res_before ?h) (pre @ res # suf)"
  proof -
    have same: "res_before ?h x y \<longleftrightarrow> res_before h x y" if "x \<noteq> res" "y \<noteq> res" for x y
      using that by (simp add: res_before_def store_simps)
    have "sorted_wrt (res_before h) pre" "sorted_wrt (res_before h) suf" "\<forall>x\<in>set pre. \<forall>y\<in>set suf. res_before h x y"
      using lv by (auto simp: level_def sorted_wrt_append)
    then have "sorted_wrt (res_before ?h) pre" "sorted_wrt (res_before ?h) suf" "\<forall>x\<in>set pre. \<forall>y\<in>set suf. res_before ?h x y"
      using res by (metis same sorted_wrt_mono_rel)+
    then show ?thesis using nb res by (auto simp: sorted_wrt_append res_before_def store_simps)
  qed
  moreover have "in_range ?h q x" if "x \<in> set (pre @ res # suf)" for x
    using that lv se res by (auto simp: level_def in_range_def store_simps)
  ultimately show ?thesis using lv by (simp add: level_def store_simps)
qed

end
