(* ===== verification/Resource_Forest.thy ===== *)
theory Resource_Forest
  imports Resource_Tree
begin

text \<open>
  The whole tree.  The store implements a forest: a set \<open>N\<close> of cells and for every cell the list of
  its children.  Each operation of \<^verbatim>\<open>kernel/resource.c\<close> on the pointers is an update of that list
  function, and keeps the forest.
\<close>

definition forest :: "rstore \<Rightarrow> nat set \<Rightarrow> (nat \<Rightarrow> nat list) \<Rightarrow> bool" where
  "forest h N kids \<longleftrightarrow>
    (\<forall>r\<in>N. level h r (kids r) \<and> set (kids r) \<subseteq> N) \<and>
    (\<forall>x\<in>N. \<forall>p. r_parent (h ! x) = Some p \<longrightarrow> p \<in> N \<and> x \<in> set (kids p)) \<and>
    (\<exists>rank :: nat \<Rightarrow> nat. \<forall>r\<in>N. \<forall>x\<in>set (kids r). rank x < rank r)"

lemma forestD:
  assumes "forest h N kids" "r \<in> N"
  shows "level h r (kids r)" "set (kids r) \<subseteq> N" "r < length h"
proof -
  show *: "level h r (kids r)" and "set (kids r) \<subseteq> N"
    using assms unfolding forest_def by blast+
  show "r < length h" using * by (simp add: level_def)
qed

lemma forest_parent:
  assumes "forest h N kids" "x \<in> N" "r_parent (h ! x) = Some p"
  shows "p \<in> N" "x \<in> set (kids p)"
  using assms unfolding forest_def by blast+

lemma forest_rank:
  assumes "forest h N kids"
  obtains rank :: "nat \<Rightarrow> nat" where "\<forall>r\<in>N. \<forall>x\<in>set (kids r). rank x < rank r"
  using assms unfolding forest_def by blast

lemma forest_finite: "forest h N kids \<Longrightarrow> N \<subseteq> {..<length h}"
  using forestD(3) by auto

lemma forest_card: "forest h N kids \<Longrightarrow> card N \<le> length h"
  using card_mono [OF _ forest_finite] by fastforce

lemma kids_parent: "forest h N kids \<Longrightarrow> r \<in> N \<Longrightarrow> x \<in> set (kids r) \<Longrightarrow> r_parent (h ! x) = Some r"
  using forestD(1) [of h N kids r] by (simp add: level_def)

lemma kids_unique: "forest h N kids \<Longrightarrow> r \<in> N \<Longrightarrow> s \<in> N \<Longrightarrow> x \<in> set (kids r) \<Longrightarrow> x \<in> set (kids s) \<Longrightarrow> r = s"
  using kids_parent [of h N kids r x] kids_parent [of h N kids s x] by simp

text \<open>A new cell below \<open>q\<close>, in front of a part of the children of \<open>q\<close>, keeps the ranks apart.\<close>

lemma rank_insert:
  assumes "\<forall>r\<in>N. \<forall>x\<in>set (kids r). rank x < (rank r :: nat)" "q \<in> N" "new \<notin> N" "\<forall>r\<in>N. set (kids r) \<subseteq> N"
    "set (kids q) = set pre \<union> set mid \<union> set suf"
  shows "\<exists>rank' :: nat \<Rightarrow> nat. \<forall>r\<in>insert new N. \<forall>x\<in>set ((kids(q := pre @ new # suf, new := mid)) r). rank' x < rank' r"
proof (intro exI ballI)
  let ?rank = "\<lambda>x. if x = new then 2 * rank q + 1 else 2 * rank x + 2"
  fix r x
  assume r: "r \<in> insert new N" and x: "x \<in> set ((kids(q := pre @ new # suf, new := mid)) r)"
  consider "r = new" "x \<in> set mid" | "r = q" "r \<noteq> new" "x = new" | "r = q" "r \<noteq> new" "x \<in> set (kids q)" | "r \<in> N" "r \<noteq> q" "x \<in> set (kids r)"
    using r x assms(2,3,5) by (auto split: if_splits)
  then show "?rank x < ?rank r"
  proof cases
    case 1
    then have "rank x < rank q" "x \<noteq> new" using assms by blast+
    then show ?thesis using 1 by simp
  next
    case 2
    then show ?thesis by simp
  next
    case 3
    then have "rank x < rank q" "x \<noteq> new" using assms by blast+
    then show ?thesis using 3 by simp
  next
    case 4
    then have "rank x < rank r" "x \<noteq> new" "r \<noteq> new" using assms by blast+
    then show ?thesis by simp
  qed
qed

lemma forest_insert:
  assumes "forest h N kids" "q \<in> N" "kids q = pre @ mid @ suf" "new \<notin> N"
    "level h' q (pre @ new # suf)" "level h' new mid" "\<And>r. r \<in> N \<Longrightarrow> r \<noteq> q \<Longrightarrow> level h' r (kids r)"
    "\<And>x. x \<in> N \<Longrightarrow> x \<notin> set mid \<Longrightarrow> r_parent (h' ! x) = r_parent (h ! x)"
  shows "forest h' (insert new N) (kids(q := pre @ new # suf, new := mid))"
proof -
  obtain rank :: "nat \<Rightarrow> nat" where "\<forall>r\<in>N. \<forall>x\<in>set (kids r). rank x < rank r"
    using forest_rank [OF assms(1)] .
  then have ranks: "\<exists>rank' :: nat \<Rightarrow> nat. \<forall>r\<in>insert new N. \<forall>x\<in>set ((kids(q := pre @ new # suf, new := mid)) r). rank' x < rank' r"
    by (rule rank_insert) (use assms(2-4) forestD(2) [OF assms(1)] in auto)
   have sub: "set (pre @ mid @ suf) \<subseteq> N" using forestD(2) [OF assms(1,2)] assms(3) by simp
  have "level h' r ((kids(q := pre @ new # suf, new := mid)) r)" if "r \<in> insert new N" for r
    using that assms(2,4-7) by auto
  moreover have "set ((kids(q := pre @ new # suf, new := mid)) r) \<subseteq> insert new N" if "r \<in> insert new N" for r
    using that sub forestD(2) [OF assms(1), of r] by (cases "r = new"; cases "r = q") (auto intro: subset_insertI2)
  moreover have "p \<in> insert new N \<and> x \<in> set ((kids(q := pre @ new # suf, new := mid)) p)"
    if x: "x \<in> insert new N" "r_parent (h' ! x) = Some p" for x p
  proof -
    consider "x = new" | "x \<in> set mid" "x \<noteq> new" | "x \<in> N" "x \<notin> set mid" using x(1) by blast
    then show ?thesis
    proof cases
      case 1
      then show ?thesis using assms(2,4,5) x(2) by (auto simp: level_def)
    next
      case 2
      then show ?thesis using assms(6) x(2) by (auto simp: level_def)
    next
      case 3
      then have "p \<in> N" "x \<in> set (kids p)" using forest_parent [OF assms(1)] assms(8) x(2) by auto
      then show ?thesis using 3 assms(3,4) by auto
    qed
  qed
  ultimately show ?thesis unfolding forest_def using ranks by blast
qed

lemma forest_link:
  assumes f: "forest h N kids" "q \<in> N" and kids: "kids q = pre @ suf"
    and new: "new \<notin> N" "new < length h" "r_child (h ! new) = None"
    and lv: "level (link_resource h q new (link_after q pre)) q (pre @ new # suf)"
  shows "forest (link_resource h q new (link_after q pre)) (insert new N) (kids(q := pre @ new # suf, new := []))"
proof -
  have lvq: "level h q (pre @ suf)" using forestD(1) [OF f] kids by simp
  have last: "pre = [] \<or> last pre \<in> set (kids q)" using last_in_set [of pre] kids by auto
  have kq: "set (kids q) \<subseteq> N" "new \<noteq> q" using forestD(2) [OF f] f(2) new(1) by auto
  have ne: "link_after q pre \<noteq> SiblingOf new" using last kq new(1) by (auto simp: link_after_def)
  note F = link_resource_fields [OF new(2) level_deref [OF lvq] ne, where root = q]
  have "level (link_resource h q new (link_after q pre)) new []"
    using new kq(2) by (simp add: level_def F) (simp add: link_after_def)
  moreover have "level (link_resource h q new (link_after q pre)) r (kids r)" if r: "r \<in> N" "r \<noteq> q" for r
  proof (rule iffD2 [OF level_cong forestD(1) [OF f(1) r(1)]])
    show "r_child (link_resource h q new (link_after q pre) ! r) = r_child (h ! r)"
      using r by (simp add: F) (simp add: link_after_def)
    fix x
    assume x: "x \<in> set (kids r)"
    have "x \<noteq> new" "x \<notin> set (kids q)" using x r forestD(2) [OF f(1) r(1)] new(1) kids_unique [OF f(1) r(1) f(2) x] by auto
    then show "r_sibling (link_resource h q new (link_after q pre) ! x) = r_sibling (h ! x) \<and>
        r_parent (link_resource h q new (link_after q pre) ! x) = r_parent (h ! x)"
      using last by (simp add: F) (auto simp: link_after_def)
  qed (simp_all add: F)
  moreover have "r_parent (link_resource h q new (link_after q pre) ! x) = r_parent (h ! x)" if "x \<in> N" for x
    using that new(1) by (auto simp: F)
  ultimately show ?thesis
    using forest_insert [OF f, of pre "[]" suf new] kids new(1) lv by simp
qed

lemma forest_taken_over:
  assumes f: "forest h N kids" "q \<in> N" and kids: "kids q = pre @ mid @ suf"
    and new: "new \<notin> N" "new < length h" and mid: "mid \<noteq> []" "\<forall>x\<in>set mid. within h new x"
    and rng: "in_range h q new" "\<forall>x\<in>set pre. res_before h x new" "\<forall>x\<in>set suf. res_before h new x"
  shows "forest (taken_over h q pre new mid) (insert new N) (kids(q := pre @ new # suf, new := mid))"
proof (rule forest_insert [OF f kids new(1)])
  have lvq: "level h q (pre @ mid @ suf)" using forestD(1) [OF f] kids by simp
  have kq: "set (kids q) \<subseteq> N" "new \<noteq> q" using forestD(2) [OF f] f(2) new(1) by auto
  then have nk: "new \<notin> set (pre @ mid @ suf)" using new(1) kids by auto
  show "level (taken_over h q pre new mid) q (pre @ new # suf)" "level (taken_over h q pre new mid) new mid"
    by (rule level_taken_over [OF lvq new(2) kq(2) nk mid rng])+
  have last: "last mid \<in> set (kids q)" "pre = [] \<or> last pre \<in> set (kids q)"
    using kids mid(1) last_in_set [of pre] by auto
  have l: "last mid < length h" using last(1) kq(1) forest_finite [OF f(1)] by auto
  have nm: "new \<notin> set mid" using nk by simp
  note F = taken_over_fields [OF new(2) nm l mid(1) kq(2) level_last_pre [OF lvq nk]]
  show "level (taken_over h q pre new mid) r (kids r)" if r: "r \<in> N" "r \<noteq> q" for r
  proof (rule iffD2 [OF level_cong forestD(1) [OF f(1) r(1)]])
    show "r_child (taken_over h q pre new mid ! r) = r_child (h ! r)"
      using r new(1) by (auto simp: F)
    fix x
    assume x: "x \<in> set (kids r)"
    have "x \<noteq> new" "x \<notin> set (kids q)" using x r forestD(2) [OF f(1) r(1)] new(1) kids_unique [OF f(1) r(1) f(2) x] by auto
    then have "x \<noteq> new \<and> x \<noteq> last mid \<and> x \<notin> set mid \<and> (pre = [] \<or> x \<noteq> last pre)" using last kids by auto
    then show "r_sibling (taken_over h q pre new mid ! x) = r_sibling (h ! x) \<and>
        r_parent (taken_over h q pre new mid ! x) = r_parent (h ! x)"
      by (auto simp: F)
  qed (simp_all add: F)
  show "r_parent (taken_over h q pre new mid ! x) = r_parent (h ! x)" if "x \<in> N" "x \<notin> set mid" for x
    using that new(1) by (auto simp: F)
qed

subsection \<open>Requesting\<close>

definition same_ranges :: "rstore \<Rightarrow> rstore \<Rightarrow> bool" where
  "same_ranges h h' \<longleftrightarrow> length h' = length h \<and>
    (\<forall>r. r_start (h' ! r) = r_start (h ! r) \<and> r_end (h' ! r) = r_end (h ! r))"

lemma forest_request:
  assumes f: "forest h N kids" "q \<in> N" and new: "new \<notin> N" "new < length h" "r_child (h ! new) = None"
  shows "if in_range h q new \<and> (\<forall>x\<in>set (kids q). disjoint_res h x new)
    then \<exists>h' pre suf. do_request_resource h q new = Inr (h', None) \<and> kids q = pre @ suf \<and> same_ranges h h' \<and>
      forest h' (insert new N) (kids(q := pre @ new # suf, new := []))
    else \<exists>c. do_request_resource h q new = Inr (h, Some c) \<and>
      (c = q \<and> \<not> in_range h q new \<or>
       in_range h q new \<and> (\<exists>pre suf. kids q = pre @ c # suf \<and> (\<forall>x\<in>set pre. res_before h x new) \<and> \<not> disjoint_res h c new))"
proof (cases "in_range h q new \<and> (\<forall>x\<in>set (kids q). disjoint_res h x new)")
  case True
  have kq: "set (kids q) \<subseteq> N" "new \<noteq> q" "new \<notin> set (kids q)" using forestD(2) [OF f] f(2) new(1) by auto
  from do_request_resource_spec [OF forestD(1) [OF f] new(2) kq(2,3)] True
  obtain pre suf where ps: "kids q = pre @ suf"
      "do_request_resource h q new = Inr (link_resource h q new (link_after q pre), None)"
      "level (link_resource h q new (link_after q pre)) q (pre @ new # suf)" by auto
  have lv: "level h q (pre @ suf)" using forestD(1) [OF f] ps(1) by simp
  have "link_after q pre \<noteq> SiblingOf new" using kq(3) ps(1) by (auto simp: link_after_def dest: last_in_set)
  from link_resource_fields [OF new(2) level_deref [OF lv] this]
  have "same_ranges h (link_resource h q new (link_after q pre))" by (simp add: same_ranges_def)
  then show ?thesis using True ps forest_link [OF f ps(1) new ps(3)] by auto
next
  case False
  have kq: "new \<noteq> q" "new \<notin> set (kids q)" using forestD(2) [OF f] f(2) new(1) by auto
  show ?thesis
    using do_request_resource_spec [OF forestD(1) [OF f] new(2) kq] unfolding if_not_P [OF False] .
qed

subsection \<open>Inserting\<close>

definition partial_overlap :: "rstore \<Rightarrow> nat \<Rightarrow> nat \<Rightarrow> bool" where
  "partial_overlap h a b \<longleftrightarrow> \<not> disjoint_res h a b \<and> \<not> within h a b \<and> \<not> within h b a"

text \<open>Where the descent can stop, and with which answer.\<close>

definition descent_ends :: "rstore \<Rightarrow> nat set \<Rightarrow> (nat \<Rightarrow> nat list) \<Rightarrow> nat \<Rightarrow> rstore \<times> (nat option + nat \<times> nat) \<Rightarrow> bool" where
  "descent_ends h N kids new r \<longleftrightarrow>
    (\<exists>h' q pre suf. r = (h', Inl None) \<and> q \<in> N \<and> kids q = pre @ suf \<and> same_ranges h h' \<and> in_range h q new \<and>
       forest h' (insert new N) (kids(q := pre @ new # suf, new := []))) \<or>
    (\<exists>q pre c suf. r = (h, Inr (q, c)) \<and> q \<in> N \<and> kids q = pre @ c # suf \<and> in_range h q new \<and>
       (\<forall>x\<in>set pre. res_before h x new) \<and> \<not> disjoint_res h c new \<and> (within h c new \<longrightarrow> within h new c))"

lemma insert_descend_spec:
  assumes f: "forest h N kids" and rank: "\<forall>r\<in>N. \<forall>x\<in>set (kids r). rank x < (rank r :: nat)"
    and new: "new \<notin> N" "new < length h" "r_child (h ! new) = None"
    and q: "q \<in> N" "in_range h q new" "card {x\<in>N. rank x < rank q} < fuel"
  shows "\<exists>r. insert_descend fuel h q new = Inr r \<and> descent_ends h N kids new r"
  using q
proof (induction fuel arbitrary: q)
  case (Suc fuel)
  have fin: "finite N" using forest_finite [OF f] finite_subset by blast
  note req = forest_request [OF f Suc.prems(1) new]
  show ?case
  proof (cases "\<forall>x\<in>set (kids q). disjoint_res h x new")
    case True
    with req Suc.prems(2) obtain h' pre suf where "do_request_resource h q new = Inr (h', None)" "kids q = pre @ suf"
        "same_ranges h h'" "forest h' (insert new N) (kids(q := pre @ new # suf, new := []))" by auto
    then show ?thesis using Suc.prems by (auto simp: descent_ends_def)
  next
    case False
    with req Suc.prems(2) obtain c pre suf where c: "do_request_resource h q new = Inr (h, Some c)" "kids q = pre @ c # suf"
        "\<forall>x\<in>set pre. res_before h x new" "\<not> disjoint_res h c new" by auto
    then have cN: "c \<in> N" "c \<in> set (kids q)" "rank c < rank q" using forestD(2) [OF f Suc.prems(1)] rank Suc.prems(1) by auto
    then have ne: "c \<noteq> q" "c \<noteq> new" using new(1) by auto
    show ?thesis
    proof (cases "within h c new \<longrightarrow> within h new c")
      case True
      then have "insert_descend (Suc fuel) h q new = Inr (h, Inr (q, c))"
        using c(1) ne by (auto simp: within_def not_less)
      then show ?thesis using True c Suc.prems unfolding descent_ends_def by blast
    next
      case inside: False
      then have "in_range h c new" using Suc.prems(2) by (auto simp: within_def in_range_def)
      moreover have "card {x\<in>N. rank x < rank c} < fuel"
      proof -
        have "{x\<in>N. rank x < rank c} \<subset> {x\<in>N. rank x < rank q}" using cN by auto
        from psubset_card_mono [OF _ this] show ?thesis using fin Suc.prems(3) by simp
      qed
      ultimately obtain r where r: "insert_descend fuel h c new = Inr r" "descent_ends h N kids new r"
        using Suc.IH cN(1) by blast
      have "insert_descend (Suc fuel) h q new = insert_descend fuel h c new"
        using c(1) ne inside by (auto simp: within_def not_less)
      then show ?thesis using r by simp
    qed
  qed
qed simp

lemma dropWhile_after:
  assumes "sorted_wrt (res_before h) xs" "\<forall>y\<in>set xs. r_start (h ! y) \<le> r_end (h ! y)"
  shows "\<forall>y\<in>set (dropWhile (\<lambda>y. r_start (h ! y) \<le> r_end (h ! new)) xs). res_before h new y"
  using assms
proof (induction xs)
  case (Cons x xs)
  show ?case
  proof (cases "r_start (h ! x) \<le> r_end (h ! new)")
    case False
    then show ?thesis using sorted_rest_before [OF Cons.prems, of new] by simp
  qed (use Cons in simp)
qed simp

text \<open>The children from the first overlap on: taken over as a whole, or one of them sticks out.\<close>

lemma insert_take_over:
  assumes f: "forest h N kids" "q \<in> N" and kids: "kids q = pre @ c # suf0" and new: "new \<notin> N" "new < length h"
    and rng: "in_range h q new" "\<forall>x\<in>set pre. res_before h x new" "\<not> disjoint_res h c new" "within h c new \<longrightarrow> within h new c"
  shows "(\<exists>d\<in>N. insert_extent (store_fuel h) h new c = Inr (Inl d) \<and> partial_overlap h d new) \<or>
    (\<exists>mid suf l h'. c # suf0 = mid @ suf \<and> insert_extent (store_fuel h) h new c = Inr (Inr l) \<and>
       insert_splice h q new c l = Inr h' \<and> same_ranges h h' \<and> (\<forall>x\<in>set mid. within h new x) \<and>
       forest h' (insert new N) (kids(q := pre @ new # suf, new := mid)))"
proof -
  let ?P = "\<lambda>y. r_start (h ! y) \<le> r_end (h ! new)"
  let ?mid = "c # takeWhile ?P suf0" and ?suf = "dropWhile ?P suf0"
  have kN: "set (kids q) \<subseteq> N" "new \<noteq> q" using forestD(2) [OF f] f(2) new(1) by auto
  have lv: "level h q (pre @ ?mid @ ?suf)" "level h q (pre @ c # suf0)" using forestD(1) [OF f] kids by simp_all
  have srt: "sorted_wrt (res_before h) (c # suf0)" "\<forall>y\<in>set (c # suf0). r_start (h ! y) \<le> r_end (h ! y)"
    using lv(2) by (auto simp: level_def sorted_wrt_append in_range_def)
  have pth: "path h (Some c) (c # suf0) None" using lv(2) by (auto simp: level_def path_append)
  have fuel: "length suf0 < store_fuel h" using level_fuel [OF lv(2)] by simp
  note ext = insert_extent_spec [OF pth fuel, of new]
  show ?thesis
  proof (cases "\<forall>y\<in>set ?mid. within h new y")
    case True
    have suf: "\<forall>y\<in>set ?suf. res_before h new y" using dropWhile_after [of h suf0 new] srt by simp
    have nk: "new \<notin> set (pre @ ?mid @ ?suf)" using kN new(1) kids by (auto dest: set_takeWhileD set_dropWhileD)
    have kids': "kids q = pre @ ?mid @ ?suf" using kids by simp
    have "insert_splice h q new c (last ?mid) = Inr (taken_over h q pre new ?mid)"
      using insert_splice_spec [OF lv(1) new(2) kN(2) nk] by simp
    moreover have "same_ranges h (taken_over h q pre new ?mid)"
    proof -
      have "last ?mid < length h" using path_bounded [OF pth, of "last ?mid"] last_in_set [of ?mid]
        by (auto dest: set_takeWhileD)
      moreover note level_last_pre [OF lv(1) nk]
      moreover have "new \<notin> set ?mid" using nk by (auto dest: set_takeWhileD)
      ultimately show ?thesis
        using taken_over_fields [OF new(2) _ _ _ kN(2)] by (simp add: same_ranges_def)
    qed
    moreover have "insert_extent (store_fuel h) h new c = Inr (Inr (last ?mid))" using ext True by auto
    moreover have "c # suf0 = ?mid @ ?suf" by simp
    moreover note forest_taken_over [OF f kids' new _ True rng(1,2) suf]
    ultimately show ?thesis using True by blast
  next
    case False
    with ext obtain d where d: "d \<in> set ?mid" "\<not> within h new d" "insert_extent (store_fuel h) h new c = Inr (Inl d)"
      by (auto split: if_splits)
    have "partial_overlap h d new"
    proof (cases "d = c")
      case False
      then have "d \<in> set suf0" "?P d" using d(1) by (auto dest: set_takeWhileD)
      moreover from this have "res_before h c d" using srt(1) by simp
      ultimately show ?thesis using rng(3) d(2) srt(2) 
        by (auto simp: partial_overlap_def disjoint_res_def res_before_def within_def)
    qed (use rng d(2) in \<open>auto simp: partial_overlap_def\<close>)
    moreover have "d \<in> N" using d(1) kN(1) kids by (auto dest: set_takeWhileD)
    ultimately show ?thesis using d(3) by blast
  qed
qed

lemma do_insert_resource_spec:
  assumes f: "forest h N kids" "p \<in> N" and new: "new \<notin> N" "new < length h" "r_child (h ! new) = None"
  shows "(\<exists>h' q pre mid suf. do_insert_resource h p new = Inr (h', None) \<and> q \<in> N \<and> kids q = pre @ mid @ suf \<and>
      same_ranges h h' \<and> in_range h q new \<and> (\<forall>x\<in>set mid. within h new x) \<and>
      forest h' (insert new N) (kids(q := pre @ new # suf, new := mid))) \<or>
    (\<exists>c. do_insert_resource h p new = Inr (h, Some c) \<and>
      (c = p \<and> \<not> in_range h p new \<or> c \<in> N \<and> partial_overlap h c new))"
proof (cases "in_range h p new")
  case False
  have "do_request_resource h p new = Inr (h, Some p)" using forest_request [OF f new] False by auto
  then show ?thesis using False by (auto simp: do_insert_resource_def store_fuel_def)
next
  case True
  obtain rank :: "nat \<Rightarrow> nat" where rank: "\<forall>r\<in>N. \<forall>x\<in>set (kids r). rank x < rank r"
    using forest_rank [OF f(1)] .
  have "finite N" using forest_finite [OF f(1)] finite_subset by blast
  then have "card {x\<in>N. rank x < rank p} \<le> card N" by (intro card_mono) auto
  then have "card {x\<in>N. rank x < rank p} < store_fuel h" using forest_card [OF f(1)] by (simp add: store_fuel_def)
  from insert_descend_spec [OF f(1) rank new f(2) True this]
  obtain r where r: "insert_descend (store_fuel h) h p new = Inr r" "descent_ends h N kids new r" by blast
  from r(2) show ?thesis unfolding descent_ends_def
  proof (elim disjE exE conjE, goal_cases)
    case (1 h' q pre suf)
    then have "do_insert_resource h p new = Inr (h', None)" using r(1) by (simp add: do_insert_resource_def)
    moreover have "kids q = pre @ [] @ suf" "\<forall>x\<in>set []. within h new x" using 1 by simp_all
    ultimately show ?case using 1(2,4-6) by blast
  next
    case (2 q pre c suf)
    from insert_take_over [OF f(1) 2(2,3) new(1,2) 2(4-7)] show ?case
    proof (elim disjE bexE exE conjE, goal_cases)
      case (1 d)
      then have "do_insert_resource h p new = Inr (h, Some d)" using r(1) 2(1) by (simp add: do_insert_resource_def)
      then show ?case using 1 by blast
    next
      case (2 mid suf' l h')
      then have "do_insert_resource h p new = Inr (h', None)" using r(1) \<open>r = _\<close> by (simp add: do_insert_resource_def)
      moreover have "kids q = pre @ mid @ suf'" using 2(1) \<open>kids q = _\<close> by simp
      ultimately show ?case using 2(4-6) \<open>q \<in> N\<close> \<open>in_range h q new\<close> by blast
    qed
  qed
qed

subsection \<open>Releasing\<close>

text \<open>Cells \<open>xs\<close> take the place of \<open>old\<close> among the children of \<open>q\<close>.\<close>

lemma forest_replace:
  assumes "forest h N kids" "q \<in> N" "kids q = pre @ old # suf" "N' \<subseteq> N" "q \<in> N'"
    "set xs \<subseteq> set (kids old)" "set (pre @ xs @ suf) \<subseteq> N'" "old \<in> N' \<Longrightarrow> xs = []"
    "level h' q (pre @ xs @ suf)" "\<And>r. r \<in> N' \<Longrightarrow> r \<noteq> q \<Longrightarrow> level h' r (kids r)" "r_parent (h' ! old) = None"
    "\<And>x. x \<in> N' \<Longrightarrow> x \<noteq> old \<Longrightarrow> x \<notin> set xs \<Longrightarrow> r_parent (h' ! x) = r_parent (h ! x)"
    "old \<in> N' \<or> set xs = set (kids old)" "N - {old} \<subseteq> N'"
  shows "forest h' N' (kids(q := pre @ xs @ suf))"
proof -
  obtain rank :: "nat \<Rightarrow> nat" where rank: "\<forall>r\<in>N. \<forall>x\<in>set (kids r). rank x < rank r"
    using forest_rank [OF assms(1)] .
  have old: "old \<in> N" "old \<in> set (kids q)" using forestD(2) [OF assms(1,2)] assms(3) by auto
  have up: "rank x < rank q" if "x \<in> set xs" for x
  proof -
    have "rank x < rank old" "rank old < rank q" using that assms(2,6) old rank by blast+
    then show ?thesis by simp
  qed
  have "rank x < rank r" if "r \<in> N'" "x \<in> set ((kids(q := pre @ xs @ suf)) r)" for r x
  proof (cases "r = q \<and> x \<in> set xs")
    case False
    then have "x \<in> set (kids r)" "r \<in> N" using that assms(3,4) by (auto split: if_splits)
    then show ?thesis using rank by blast
  qed (use up in simp)
  moreover have "set (kids r) \<subseteq> N'" if r: "r \<in> N'" "r \<noteq> q" for r
  proof -
    have "old \<notin> set (kids r)" using kids_unique [OF assms(1) _ assms(2) _ old(2), of r] r assms(4) by auto
    then show ?thesis using forestD(2) [OF assms(1), of r] r assms(4,14) by blast
  qed
  moreover have "p \<in> N' \<and> x \<in> set ((kids(q := pre @ xs @ suf)) p)" if x: "x \<in> N'" "r_parent (h' ! x) = Some p" for x p
  proof (cases "x \<in> set xs")
    case True
    then have "r_parent (h' ! x) = Some q" using assms(9) by (auto simp: level_def)
    then show ?thesis using x(2) True assms(5) by simp
  next
    case False
    then have ne: "x \<noteq> old" using x(2) assms(11) by auto
    then have p: "p \<in> N" "x \<in> set (kids p)" using False x assms(4,12) forest_parent [OF assms(1), of x p] by auto
    have "p \<noteq> old \<or> old \<in> N'" using p(2) False assms(13) by auto
    then show ?thesis using p ne assms(3,14) by auto
  qed
  moreover have "set ((kids(q := pre @ xs @ suf)) r) \<subseteq> N'" "level h' r ((kids(q := pre @ xs @ suf)) r)" if "r \<in> N'" for r
    using that calculation(2) assms(7,9,10) by auto
  ultimately show ?thesis unfolding forest_def by blast
qed

lemma forest_release:
  assumes f: "forest h N kids" "q \<in> N" and kids: "kids q = pre @ old # suf" and rc: "rc \<or> kids old = []"
  shows "\<exists>h'. do_release_resource h old rc = Inr (h', 0) \<and> same_ranges h h' \<and> r_parent (h' ! old) = None \<and>
    forest h' N (kids(q := pre @ suf))"
proof -
  let ?h = "set_parent (assign h (link_after q pre) (r_sibling (h ! old))) old None"
  have lv: "level h q (pre @ old # suf)" using forestD(1) [OF f] kids by simp
  have old: "old \<in> N" "old < length h" using forestD(2) [OF f] kids forest_finite [OF f(1)] by auto
  note F = unlink_fields [OF old(2), where root = q and pre = pre and v = "r_sibling (h ! old)"]
  have "kids old = [] \<Longrightarrow> r_child (h ! old) = None" using forestD(1) [OF f(1) old(1)] by (simp add: level_def)
  then have "release_found h old rc (link_after q pre) = Inr (?h, 0)"
    using rc by (auto simp: release_found_def split: option.split)
  then have "do_release_resource h old rc = Inr (?h, 0)" using do_release_resource_found [OF lv] by simp
  moreover have "forest ?h N (kids(q := pre @ [] @ suf))"
  proof (rule forest_replace [OF f kids subset_refl f(2)])
    show "level ?h q (pre @ [] @ suf)" using level_unlink [OF lv] by simp
    show "level ?h r (kids r)" if r: "r \<in> N" "r \<noteq> q" for r
    proof (rule iffD2 [OF level_cong forestD(1) [OF f(1) r(1)]])
      fix x
      assume "x \<in> set (kids r)"
      then have "x \<notin> set (kids q)" using r kids_unique [OF f(1) r(1) f(2)] by auto
      then have "x \<noteq> old" "pre = [] \<or> x \<noteq> last pre" using kids by auto
      then show "r_sibling (?h ! x) = r_sibling (h ! x) \<and> r_parent (?h ! x) = r_parent (h ! x)" by (auto simp: F)
    qed (use r in \<open>simp_all add: F\<close>)
    show "set (pre @ [] @ suf) \<subseteq> N" using forestD(2) [OF f] kids by auto
  qed (use old in \<open>simp_all add: F\<close>)
  moreover have "same_ranges h ?h" by (simp add: same_ranges_def F)
  ultimately show ?thesis by (auto simp: F)
qed

text \<open>A removed resource leaves its children to its parent.\<close>

lemma forest_moved_up:
  assumes f: "forest h N kids" "q \<in> N" and kids: "kids q = pre @ old # suf" and cs: "kids old \<noteq> []"
  shows "do_release_resource h old False = Inr (moved_up h q pre old (kids old), 0)"
    "same_ranges h (moved_up h q pre old (kids old))"
    "r_parent (moved_up h q pre old (kids old) ! old) = None"
    "forest (moved_up h q pre old (kids old)) (N - {old}) (kids(q := pre @ kids old @ suf))"
proof -
  let ?cs = "kids old" and ?h = "moved_up h q pre old (kids old)"
  have lv: "level h q (pre @ old # suf)" using forestD(1) [OF f] kids by simp
  have old: "old \<in> N" "old < length h" "old \<in> set (kids q)" using forestD(2) [OF f] kids forest_finite [OF f(1)] by auto
  have lvc: "level h old ?cs" and sub: "set ?cs \<subseteq> N" using forestD [OF f(1) old(1)] by auto
  obtain rank :: "nat \<Rightarrow> nat" where rank: "\<forall>r\<in>N. \<forall>x\<in>set (kids r). rank x < rank r" using forest_rank [OF f(1)] .
  have rq: "rank old < rank q" using rank f(2) old(3) by blast
  then have qn: "q \<notin> set ?cs" "q \<noteq> old" using rank old(1) by fastforce+
  have on: "old \<notin> set ?cs" using lvc by (simp add: level_def)
  have lc: "last ?cs \<in> set ?cs" using cs by simp
  have lp: "pre = [] \<or> last pre \<in> set (kids q) \<and> last pre \<noteq> old"
    using lv kids by (cases pre rule: rev_cases) (auto simp: level_def)
  have "last ?cs < length h" "pre = [] \<or> last pre \<noteq> old"
    using lc sub forest_finite [OF f(1)] lp by auto
  note F = moved_up_fields [OF old(2) on this, where root = q]
  obtain c cs' where c: "?cs = c # cs'" using cs by (cases ?cs) auto
  have "path h (Some c) (c # cs') None" "r_child (h ! old) = Some c" using lvc c by (auto simp: level_def)
  moreover have "length cs' < store_fuel h" using level_fuel [OF lvc] c by simp
  moreover have "r_parent (h ! old) = Some q" using kids_parent [OF f old(3)] .
  ultimately show "do_release_resource h old False = Inr (?h, 0)"
    using do_release_resource_found [OF lv, of False] reparent_spec [of h c cs' "store_fuel h" "Some q"]
    by (simp add: release_found_def moved_up_def Let_def c)
  show "same_ranges h ?h" "r_parent (?h ! old) = None" by (simp_all add: same_ranges_def F)
  have sN: "set (pre @ ?cs @ suf) \<subseteq> N - {old}" using lv kids forestD(2) [OF f] sub on by (auto simp: level_def)
  show "forest ?h (N - {old}) (kids(q := pre @ ?cs @ suf))"
  proof (rule forest_replace [OF f kids _ _ subset_refl sN])
    show "level ?h q (pre @ ?cs @ suf)" by (rule level_moved_up [OF lv lvc cs qn(1)])
    show "level ?h r (kids r)" if r: "r \<in> N - {old}" "r \<noteq> q" for r
    proof (rule iffD2 [OF level_cong forestD(1) [OF f(1), of r]])
      fix x
      assume x: "x \<in> set (kids r)"
      then have "x \<notin> set (kids q)" "x \<notin> set (kids old)"
        using r kids_unique [OF f(1) _ f(2) x] kids_unique [OF f(1) _ old(1) x] by auto
      then have "x \<noteq> old" "x \<notin> set ?cs" "x \<noteq> last ?cs" "pre = [] \<or> x \<noteq> last pre" using old(3) lc lp by auto
      then show "r_sibling (?h ! x) = r_sibling (h ! x) \<and> r_parent (?h ! x) = r_parent (h ! x)" by (auto simp: F)
    qed (use r in \<open>simp_all add: F\<close>)
  qed (use f(2) qn in \<open>auto simp: F\<close>)
qed

lemma forest_shrink:
  assumes "forest h N kids" "old \<in> N" "r_parent (h ! old) = None" "kids old = []"
  shows "forest h (N - {old}) kids"
proof -
  have no: "old \<notin> set (kids r)" if "r \<in> N" for r using kids_parent [OF assms(1) that, of old] assms(3) by auto
  obtain rank :: "nat \<Rightarrow> nat" where rank: "\<forall>r\<in>N. \<forall>x\<in>set (kids r). rank x < rank r" using forest_rank [OF assms(1)] .
  have "level h r (kids r) \<and> set (kids r) \<subseteq> N - {old}" if "r \<in> N - {old}" for r
    using that forestD(1,2) [OF assms(1), of r] no by auto
  moreover have "p \<in> N - {old} \<and> x \<in> set (kids p)" if "x \<in> N - {old}" "r_parent (h ! x) = Some p" for x p
    using that forest_parent [OF assms(1), of x p] assms(4) by auto
  ultimately show ?thesis unfolding forest_def using rank by blast
qed

lemma forest_remove:
  assumes f: "forest h N kids" "q \<in> N" and kids: "kids q = pre @ old # suf"
  shows "\<exists>h'. do_release_resource h old False = Inr (h', 0) \<and> same_ranges h h' \<and> r_parent (h' ! old) = None \<and>
    forest h' (N - {old}) (kids(q := pre @ kids old @ suf))"
proof (cases "kids old = []")
  case True
  have old: "old \<in> N" "old \<noteq> q" using forestD(1,2) [OF f] kids by (auto simp: level_def)
  from forest_release [OF f kids, of False] True obtain h' where
    "do_release_resource h old False = Inr (h', 0)" "same_ranges h h'" "r_parent (h' ! old) = None" "forest h' N (kids(q := pre @ suf))"
    by auto
  then show ?thesis using forest_shrink [of h' N _ old] True old by auto
next
  case False
  then show ?thesis using forest_moved_up [OF f kids] by blast
qed

lemma forest_cong:
  assumes "forest h N kids" "\<And>r. r \<in> N \<Longrightarrow> kids' r = kids r"
  shows "forest h N kids'"
proof -
  obtain rank :: "nat \<Rightarrow> nat" where rank: "\<forall>r\<in>N. \<forall>x\<in>set (kids r). rank x < rank r" using forest_rank [OF assms(1)] .
  then have "\<forall>r\<in>N. \<forall>x\<in>set (kids' r). rank x < rank r" using assms(2) by simp
  moreover have "level h r (kids' r) \<and> set (kids' r) \<subseteq> N" if "r \<in> N" for r
    using that forestD(1,2) [OF assms(1) that] assms(2) by simp
  moreover have "p \<in> N \<and> x \<in> set (kids' p)" if "x \<in> N" "r_parent (h ! x) = Some p" for x p
    using forest_parent [OF assms(1) that] assms(2) by simp
  ultimately show ?thesis unfolding forest_def by blast
qed

end
