(* ===== verification/Resource_Ops.thy ===== *)
theory Resource_Ops
  imports Resource_Forest
begin

text \<open>
  What the exported operations of \<^verbatim>\<open>kernel/resource.c\<close> promise about the tree: requesting, inserting,
  releasing, removing and adjusting, one by one, as round trips, and in any order.
\<close>

subsection \<open>Adjusting in a forest\<close>

definition room_for :: "rstore \<Rightarrow> nat \<Rightarrow> nat list \<Rightarrow> nat list \<Rightarrow> nat list \<Rightarrow> u64 \<Rightarrow> u64 \<Rightarrow> bool" where
  "room_for h q pre suf cs s e \<longleftrightarrow> r_start (h ! q) \<le> s \<and> e \<le> r_end (h ! q) \<and>
    (\<forall>x\<in>set pre. r_end (h ! x) < s) \<and> (\<forall>x\<in>set suf. e < r_start (h ! x)) \<and>
    (\<forall>x\<in>set cs. s \<le> r_start (h ! x) \<and> r_end (h ! x) \<le> e)"

lemma forest_set_range:
  assumes f: "forest h N kids" and res: "res \<in> N" and se: "s \<le> e"
    and cs: "\<forall>x\<in>set (kids res). s \<le> r_start (h ! x) \<and> r_end (h ! x) \<le> e"
    and par: "\<And>q pre suf. q \<in> N \<Longrightarrow> kids q = pre @ res # suf \<Longrightarrow> room_for h q pre suf (kids res) s e"
  shows "forest (set_range h res s e) N kids"
proof -
  let ?h = "set_range h res s e"
  have "level ?h r (kids r)" if r: "r \<in> N" for r
  proof -
    consider (self) "r = res" | (up) "r \<noteq> res" "res \<in> set (kids r)" | (other) "r \<noteq> res" "res \<notin> set (kids r)" by blast
    then show ?thesis
    proof cases
      case self
      have lv: "level h res (kids res)" using forestD(1) [OF f res] .
      then have "res \<notin> set (kids res)" by (simp add: level_def)
      moreover from this have "path ?h (r_child (h ! res)) (kids res) None \<longleftrightarrow> path h (r_child (h ! res)) (kids res) None"
        by (intro path_cong) (simp_all add: store_simps)
      moreover have "sorted_wrt (res_before ?h) (kids res)"
      proof -
        have "sorted_wrt (res_before h) (kids res)" using lv by (simp add: level_def)
        then show ?thesis
          by (rule sorted_wrt_mono_rel [rotated]) (use \<open>res \<notin> set (kids res)\<close> in \<open>auto simp: res_before_def store_simps\<close>)
      qed
      ultimately show ?thesis
        using lv cs self forestD(3) [OF f res] by (auto simp: level_def in_range_def store_simps)
    next
      case up
      then obtain pre suf where k: "kids r = pre @ res # suf" by (auto simp: in_set_conv_decomp)
      have "room_for h r pre suf (kids res) s e" by (rule par [OF r k])
      moreover have "level h r (pre @ res # suf)" using forestD(1) [OF f r] k by simp
      ultimately show ?thesis using level_set_range se by (simp add: room_for_def k)
    next
      case other
      show ?thesis
        by (rule iffD2 [OF level_cong forestD(1) [OF f r]]) (use other in \<open>auto simp: store_simps\<close>)
    qed
  qed
  moreover obtain rank :: "nat \<Rightarrow> nat" where "\<forall>r\<in>N. \<forall>x\<in>set (kids r). rank x < rank r" using forest_rank [OF f] .
  moreover have "p \<in> N \<and> x \<in> set (kids p)" if "x \<in> N" "r_parent (?h ! x) = Some p" for x p
    using that forest_parent [OF f, of x p] by (simp add: store_simps)
  ultimately show ?thesis unfolding forest_def using forestD(2) [OF f] by blast
qed

lemma u64_last:
  assumes "0 < sz" "start + sz \<le> u64_lim"
  shows "u64_sub (u64_add start sz) 1 = start + sz - 1"
proof (cases "start + sz = u64_lim")
  case True
  then show ?thesis using assms by (simp add: u64_add_def u64_sub_def u64_lim_def)
qed (use assms in \<open>simp add: u64_simps\<close>)

lemma if_both: "(if \<not> A then x else if \<not> B then x else y) = (if A \<and> B then y else x)"
  by simp

text \<open>The end that \<^verbatim>\<open>__adjust_resource\<close> computes, and what it looks at before it stores the new range.\<close>

abbreviation adjusted_end :: "u64 \<Rightarrow> u64 \<Rightarrow> u64" where
  "adjusted_end start sz \<equiv> u64_sub (u64_add start sz) 1"

definition passes_checks :: "rstore \<Rightarrow> nat \<Rightarrow> nat list \<Rightarrow> nat list \<Rightarrow> nat list \<Rightarrow> u64 \<Rightarrow> u64 \<Rightarrow> bool" where
  "passes_checks h q pre suf cs s e \<longleftrightarrow> r_start (h ! q) \<le> s \<and> e \<le> r_end (h ! q) \<and>
    (suf \<noteq> [] \<longrightarrow> e < r_start (h ! hd suf)) \<and> (pre \<noteq> [] \<longrightarrow> r_end (h ! last pre) < s) \<and>
    (\<forall>x\<in>set cs. s \<le> r_start (h ! x) \<and> r_end (h ! x) \<le> e)"

lemma do_adjust_resource_eq:
  assumes f: "forest h N kids" "q \<in> N" and k: "kids q = pre @ res # suf"
  shows "do_adjust_resource h res start sz =
    (if passes_checks h q pre suf (kids res) start (adjusted_end start sz)
     then Inr (set_range h res start (adjusted_end start sz), 0) else Inr (h, - EBUSY))"
proof -
  have res: "res \<in> N" using forestD(2) [OF f] k by auto
  have lv: "level h q (pre @ res # suf)" using forestD(1) [OF f] k by simp
  have "path h (r_child (h ! res)) (kids res) None" "length (kids res) < store_fuel h"
    using forestD(1) [OF f(1) res] level_fuel by (auto simp: level_def)
  note cw = children_within_spec [OF this, of start "adjusted_end start sz"]
  have p: "passes_checks h q pre suf (kids res) start (adjusted_end start sz) \<longleftrightarrow>
      (r_start (h ! q) \<le> start \<and> adjusted_end start sz \<le> r_end (h ! q) \<and>
       (suf \<noteq> [] \<longrightarrow> adjusted_end start sz < r_start (h ! hd suf)) \<and> (pre \<noteq> [] \<longrightarrow> r_end (h ! last pre) < start)) \<and>
      (\<forall>x\<in>set (kids res). start \<le> r_start (h ! x) \<and> r_end (h ! x) \<le> adjusted_end start sz)"
    unfolding passes_checks_def by blast
  show ?thesis
    unfolding do_adjust_resource_def Let_def neighbours_allow_spec [OF lv] run_bind.simps cw p by (rule if_both)
qed

text \<open>A range that is not reversed: the checks against the neighbours are checks against all siblings.\<close>

lemma passes_checks_room:
  assumes "level h q (pre @ res # suf)" "s \<le> e"
  shows "passes_checks h q pre suf cs s e \<longleftrightarrow> room_for h q pre suf cs s e"
  using sorted_neighbours [OF assms] unfolding passes_checks_def room_for_def by (meson hd_in_set last_in_set)

lemma adjust_forward:
  assumes f: "forest h N kids" "q \<in> N" and k: "kids q = pre @ res # suf" and se: "s \<le> e"
    and room: "room_for h q pre suf (kids res) s e"
  shows "forest (set_range h res s e) N kids"
proof -
  have res: "res \<in> N" using forestD(2) [OF f] k by auto
  have lv: "level h q (pre @ res # suf)" using forestD(1) [OF f] k by simp
  show ?thesis
  proof (rule forest_set_range [OF f(1) res se])
    show "\<forall>x\<in>set (kids res). s \<le> r_start (h ! x) \<and> r_end (h ! x) \<le> e" using room by (simp add: room_for_def)
    fix q' pre' suf'
    assume q': "q' \<in> N" "kids q' = pre' @ res # suf'"
    then have "q' = q" using kids_unique [OF f(1) q'(1) f(2), of res] k by simp
    moreover have "res \<notin> set pre" "res \<notin> set suf" using lv by (auto simp: level_def)
    moreover from calculation have "pre' = pre \<and> suf' = suf"
      using q'(2) k append_Cons_eq_iff [of res pre suf pre' suf'] by auto
    ultimately show "room_for h q' pre' suf' (kids res) s e" using room by simp
  qed
qed

lemma adjust_reversed:
  assumes f: "forest h N kids" "q \<in> N" and k: "kids q = pre @ res # suf" and se: "e < s"
  shows "\<not> forest (set_range h res s e) N kids"
proof
  assume "forest (set_range h res s e) N kids"
  from forestD(1) [OF this f(2)] have "in_range (set_range h res s e) q res" using k by (simp add: level_def)
  moreover have "res < length h" using forestD(2) [OF f] forestD(3) [OF f(1)] k by auto
  ultimately show False using se by (simp add: in_range_def set_range_def)
qed

lemma adjust_resource_cases:
  fixes start sz :: u64
  assumes f: "forest h N kids" "q \<in> N" and k: "kids q = pre @ res # suf"
  defines "e \<equiv> adjusted_end start sz"
  shows "if start \<le> e
    then if room_for h q pre suf (kids res) start e
      then adjust_resource h res start sz = Inr (set_range h res start e, 0) \<and> forest (set_range h res start e) N kids
      else adjust_resource h res start sz = Inr (h, - EBUSY)
    else if passes_checks h q pre suf (kids res) start e
      then adjust_resource h res start sz = Inr (set_range h res start e, 0) \<and> \<not> forest (set_range h res start e) N kids
      else adjust_resource h res start sz = Inr (h, - EBUSY)"
proof -
  have lv: "level h q (pre @ res # suf)" using forestD(1) [OF f] k by simp
  note eq = do_adjust_resource_eq [OF f k, of start sz, folded e_def adjust_resource_def]
  show ?thesis
    using eq passes_checks_room [OF lv, of start e "kids res"] adjust_forward [OF f k, of start e] adjust_reversed [OF f k, of e start]
    by (cases "start \<le> e") simp_all
qed

subsection \<open>A concrete tree\<close>

text \<open>Cell 0 is the root, 1 and 2 are its children, 3 is a child of 2; the cells 4 to 6 are free.\<close>

definition demo_cell :: "u64 \<Rightarrow> u64 \<Rightarrow> nat option \<Rightarrow> nat option \<Rightarrow> nat option \<Rightarrow> resource" where
  "demo_cell a b parent sibling child = null_resource\<lparr>r_start := a, r_end := b, r_parent := parent, r_sibling := sibling, r_child := child\<rparr>"

definition demo_store :: rstore where
  "demo_store =
    [demo_cell 0 0xffff None None (Some 1),
     demo_cell 0x100 0x1ff (Some 0) (Some 2) None,
     demo_cell 0x400 0x7ff (Some 0) None (Some 3),
     demo_cell 0x400 0x4ff (Some 2) None None,
     demo_cell 0x200 0x2ff None None None,
     demo_cell 0x180 0x2ff None None None,
     demo_cell 0x100 0x3ff None None None]"

definition demo_kids :: "nat \<Rightarrow> nat list" where
  "demo_kids r = (if r = 0 then [1, 2] else if r = 2 then [3] else [])"

lemma demo_forest: "forest demo_store {0, 1, 2, 3} demo_kids"
proof -
  have "\<forall>r\<in>{0, 1, 2, 3}. level demo_store r (demo_kids r) \<and> set (demo_kids r) \<subseteq> {0, 1, 2, 3}"
    by (simp add: level_def demo_kids_def demo_store_def demo_cell_def res_before_def in_range_def)
  moreover have "\<forall>x\<in>{0, 1, 2, 3}. \<forall>p. r_parent (demo_store ! x) = Some p \<longrightarrow> p \<in> {0, 1, 2, 3} \<and> x \<in> set (demo_kids p)"
    by (simp add: demo_kids_def demo_store_def demo_cell_def null_resource_def)
  moreover have "\<forall>r\<in>{0, 1, 2, 3}. \<forall>x\<in>set (demo_kids r). 3 - x < 3 - r"
    by (simp add: demo_kids_def)
  ultimately show ?thesis unfolding forest_def by (intro conjI exI [of _ "\<lambda>x. 3 - x"]) blast+
qed

lemma demo_fields:
  "length demo_store = 7" "r_child (demo_store ! 4) = None" "r_child (demo_store ! 5) = None" "r_child (demo_store ! 6) = None"
  "r_start (demo_store ! 0) = 0" "r_end (demo_store ! 0) = 0xffff"
  by (simp_all add: demo_store_def demo_cell_def null_resource_def)

subsection \<open>Requesting\<close>

text \<open>
  C9: \<open>request_resource\<close> links the new resource among the children of the root exactly when it lies
  in the range of the root and overlaps none of its children; the list of children then has it in
  the order of the addresses and everything else in the tree stays.  Otherwise the call returns
  \<open>- EBUSY\<close> and no cell has changed.
\<close>

theorem request_resource_correct:
  assumes "forest h N kids" "q \<in> N" "new \<notin> N" "new < length h" "r_child (h ! new) = None"
  shows "if in_range h q new \<and> (\<forall>x\<in>set (kids q). disjoint_res h x new)
    then \<exists>h' pre suf. request_resource h q new = Inr (h', 0) \<and> kids q = pre @ suf \<and> same_ranges h h' \<and>
      forest h' (insert new N) (kids(q := pre @ new # suf, new := []))
    else request_resource h q new = Inr (h, - EBUSY)"
proof (cases "in_range h q new \<and> (\<forall>x\<in>set (kids q). disjoint_res h x new)")
  case True
  with forest_request [OF assms] obtain h' pre suf where "do_request_resource h q new = Inr (h', None)"
    "kids q = pre @ suf" "same_ranges h h'" "forest h' (insert new N) (kids(q := pre @ new # suf, new := []))" by auto
  then show ?thesis using True by (auto simp: request_resource_def request_resource_conflict_def)
next
  case False
  with forest_request [OF assms] obtain c where "do_request_resource h q new = Inr (h, Some c)" by auto
  then show ?thesis unfolding if_not_P [OF False] by (simp add: request_resource_def request_resource_conflict_def)
qed

lemma demo_request_ok: "in_range demo_store 0 4 \<and> (\<forall>x\<in>set (demo_kids 0). disjoint_res demo_store x 4)"
  by (simp add: in_range_def disjoint_res_def demo_kids_def demo_store_def demo_cell_def)

theorem request_resource_correct_witness:
  "\<exists>h' pre suf. request_resource demo_store 0 4 = Inr (h', 0) \<and> demo_kids 0 = pre @ suf \<and> same_ranges demo_store h' \<and>
    forest h' (insert 4 {0, 1, 2, 3}) (demo_kids(0 := pre @ 4 # suf, 4 := []))"
proof -
  have "0 \<in> {0, 1, 2, 3::nat}" "4 \<notin> {0, 1, 2, 3::nat}" "4 < length demo_store" "r_child (demo_store ! 4) = None"
    by (simp_all add: demo_fields)
  from request_resource_correct [OF demo_forest this] demo_request_ok show ?thesis by simp
qed

text \<open>
  C35: releasing a resource that has just been requested gives back the store as it was: apart from
  the cell of the resource itself, every cell is the same as before the request, pointers included.
\<close>

theorem request_release_roundtrip:
  assumes "forest h N kids" "q \<in> N" "new \<notin> N" "new < length h" "r_child (h ! new) = None"
    and "request_resource h q new = Inr (h', 0)"
  shows "\<exists>h''. release_resource h' new = Inr (h'', 0) \<and> length h'' = length h \<and> (\<forall>r. r \<noteq> new \<longrightarrow> h'' ! r = h ! r) \<and>
    r_parent (h'' ! new) = None \<and> r_start (h'' ! new) = r_start (h ! new) \<and> r_end (h'' ! new) = r_end (h ! new)"
proof -
  note f = assms(1,2)
  have kq: "new \<noteq> q" "new \<notin> set (kids q)" using forestD(2) [OF f] f(2) assms(3) by auto
  note spec = do_request_resource_spec [OF forestD(1) [OF f] assms(4) kq]
  have ok: "in_range h q new \<and> (\<forall>x\<in>set (kids q). disjoint_res h x new)"
  proof (rule ccontr)
    assume "\<not> ?thesis"
    then obtain c where "do_request_resource h q new = Inr (h, Some c)" using spec by (auto split: if_splits)
    then show False using assms(6) by (simp add: request_resource_def request_resource_conflict_def EBUSY_def)
  qed
  with spec obtain pre suf where ps: "kids q = pre @ suf"
      "do_request_resource h q new = Inr (link_resource h q new (link_after q pre), None)"
      "level (link_resource h q new (link_after q pre)) q (pre @ new # suf)" by auto
  have h': "h' = link_resource h q new (link_after q pre)"
    using ps(2) assms(6) by (simp add: request_resource_def request_resource_conflict_def)
  have lv: "level h q (pre @ suf)" using forestD(1) [OF f] ps(1) by simp
  have ne: "link_after q pre \<noteq> SiblingOf new" using kq(2) ps(1) by (auto simp: link_after_def dest: last_in_set)
  note F = link_resource_fields [OF assms(4) level_deref [OF lv] ne, where root = q, folded h']
  have "r_child (h' ! new) = None" using assms(5) kq(1) by (simp add: F) (simp add: link_after_def)
  then have "do_release_resource h' new True =
      Inr (set_parent (assign h' (link_after q pre) (r_sibling (h' ! new))) new None, 0)"
    using do_release_resource_found [OF ps(3), of True] h' by (simp add: release_found_def)
  moreover have "r_sibling (h' ! new) = deref h (link_after q pre)" using F(5) [of new] level_deref [OF lv] by simp
  moreover have "set_parent (assign h' (link_after q pre) (deref h (link_after q pre))) new None ! r = h ! r" if "r \<noteq> new" for r
    using that ne by (cases "link_after q pre") (auto simp: h' link_resource_def Let_def assign.simps set_parent_def nth_update)
  ultimately show ?thesis using assms(4) by (auto simp: release_resource_def store_simps F)
qed

lemma demo_new:
  "0 \<in> {0, 1, 2, 3::nat}" "4 \<notin> {0, 1, 2, 3::nat}" "5 \<notin> {0, 1, 2, 3::nat}" "6 \<notin> {0, 1, 2, 3::nat}"
  "4 < length demo_store" "5 < length demo_store" "6 < length demo_store"
  by (simp_all add: demo_fields)

lemma demo_request: "\<exists>h'. request_resource demo_store 0 4 = Inr (h', 0)"
  using forest_request [OF demo_forest demo_new(1,2,5) demo_fields(2)] demo_request_ok
  by (auto simp: request_resource_def request_resource_conflict_def)

theorem request_release_roundtrip_witness:
  "\<exists>h' h''. request_resource demo_store 0 4 = Inr (h', 0) \<and> release_resource h' 4 = Inr (h'', 0) \<and>
    (\<forall>r. r \<noteq> 4 \<longrightarrow> h'' ! r = demo_store ! r)"
proof -
  obtain h' where h': "request_resource demo_store 0 4 = Inr (h', 0)" using demo_request by blast
  from request_release_roundtrip [OF demo_forest demo_new(1,2,5) demo_fields(2) h'] show ?thesis using h' by blast
qed

subsection \<open>Inserting\<close>

lemma insert_resource_cases:
  assumes "forest h N kids" "p \<in> N" "new \<notin> N" "new < length h" "r_child (h ! new) = None"
  shows "(\<exists>h' q pre mid suf. insert_resource h p new = Inr (h', 0) \<and> q \<in> N \<and> kids q = pre @ mid @ suf \<and>
      same_ranges h h' \<and> in_range h q new \<and> (\<forall>x\<in>set mid. within h new x) \<and>
      forest h' (insert new N) (kids(q := pre @ new # suf, new := mid))) \<or>
    insert_resource h p new = Inr (h, - EBUSY) \<and> (\<not> in_range h p new \<or> (\<exists>c\<in>N. partial_overlap h c new))"
  using do_insert_resource_spec [OF assms]
proof (elim disjE exE conjE, goal_cases)
  case (1 h' q pre mid suf)
  then have "insert_resource h p new = Inr (h', 0)" by (simp add: insert_resource_def insert_resource_conflict_def)
  then show ?case using 1 by blast
qed (auto simp: insert_resource_def insert_resource_conflict_def)

text \<open>
  C3: \<open>insert_resource\<close> refines the insertion of a node into the tree of ranges.  When it returns 0
  there is a node below which the new resource has become a child, and it has taken over as its own
  children precisely a run of consecutive children of that node, all inside its range.  It fails, and
  changes nothing, only when the new resource is outside the range of the given root or overlaps some
  resource of the tree in part.
\<close>

theorem insert_resource_correct:
  assumes "forest h N kids" "p \<in> N" "new \<notin> N" "new < length h" "r_child (h ! new) = None"
  shows "(\<exists>h' q pre mid suf. insert_resource h p new = Inr (h', 0) \<and> q \<in> N \<and> kids q = pre @ mid @ suf \<and>
      same_ranges h h' \<and> in_range h q new \<and> (\<forall>x\<in>set mid. within h new x) \<and>
      forest h' (insert new N) (kids(q := pre @ new # suf, new := mid))) \<or>
    insert_resource h p new = Inr (h, - EBUSY) \<and> (\<not> in_range h p new \<or> (\<exists>c\<in>N. partial_overlap h c new))"
  by (rule insert_resource_cases [OF assms])

lemma demo_clean: "in_range demo_store 0 6 \<and> (\<forall>c\<in>{0, 1, 2, 3}. \<not> partial_overlap demo_store c 6)"
  by (simp add: in_range_def partial_overlap_def within_def disjoint_res_def demo_store_def demo_cell_def)

theorem insert_resource_correct_witness:
  "\<exists>h' q pre mid suf. insert_resource demo_store 0 6 = Inr (h', 0) \<and> demo_kids q = pre @ mid @ suf \<and>
    forest h' (insert 6 {0, 1, 2, 3}) (demo_kids(q := pre @ 6 # suf, 6 := mid))"
  using insert_resource_correct [OF demo_forest demo_new(1,4,7) demo_fields(4)] demo_clean by blast

text \<open>
  C36: \<open>remove_resource\<close> undoes \<open>insert_resource\<close>: the children the inserted resource had taken over
  go back to where they were, and the store implements the same tree as before.
\<close>

theorem insert_remove_roundtrip:
  assumes "forest h N kids" "p \<in> N" "new \<notin> N" "new < length h" "r_child (h ! new) = None"
    and "insert_resource h p new = Inr (h', 0)"
  shows "\<exists>h''. remove_resource h' new = Inr (h'', 0) \<and> same_ranges h h'' \<and> forest h'' N kids"
proof -
  have "\<not> (insert_resource h p new = Inr (h, - EBUSY))" using assms(6) by (auto simp: EBUSY_def)
  with insert_resource_cases [OF assms(1-5)] assms(6)
  obtain q pre mid suf where q: "q \<in> N" "kids q = pre @ mid @ suf" "same_ranges h h'"
      "forest h' (insert new N) (kids(q := pre @ new # suf, new := mid))" by auto
  let ?kids = "kids(q := pre @ new # suf, new := mid)"
  have ne: "q \<noteq> new" using q(1) assms(3) by auto
  then have "?kids q = pre @ new # suf" "?kids new = mid" by simp_all
  with forest_remove [OF q(4), of q pre new suf] q(1) obtain h'' where
    r: "do_release_resource h' new False = Inr (h'', 0)" "same_ranges h' h''"
      "forest h'' (insert new N - {new}) (?kids(q := pre @ mid @ suf))" by auto
  have "forest h'' N (?kids(q := pre @ mid @ suf))" using r(3) assms(3) by simp
  then have "forest h'' N kids" by (rule forest_cong) (use q(2) assms(3) in auto)
  then show ?thesis using r(1,2) q(3) by (simp add: remove_resource_def same_ranges_def)
qed

lemma demo_insert: "\<exists>h'. insert_resource demo_store 0 6 = Inr (h', 0)"
  using insert_resource_cases [OF demo_forest demo_new(1,4,7) demo_fields(4)] demo_clean by blast

theorem insert_remove_roundtrip_witness:
  "\<exists>h' h''. insert_resource demo_store 0 6 = Inr (h', 0) \<and> remove_resource h' 6 = Inr (h'', 0) \<and>
    forest h'' {0, 1, 2, 3} demo_kids"
proof -
  obtain h' where h': "insert_resource demo_store 0 6 = Inr (h', 0)" using demo_insert by blast
  from insert_remove_roundtrip [OF demo_forest demo_new(1,4,7) demo_fields(4) h'] show ?thesis using h' by blast
qed

subsection \<open>Adjusting\<close>

text \<open>
  C37: \<open>adjust_resource\<close> computes the new end as start plus size minus one in 64 bits.  When that end
  is not below the start, the resource is moved exactly when the new range stays inside the parent, between
  its siblings and around all children, and the tree keeps its shape; otherwise the answer is
  \<open>- EBUSY\<close> and the store is untouched.  When the size is 0 or the sum wraps around, so that the end is
  below the start, nothing refuses the call: it succeeds whenever start and end, each for itself, pass the
  comparisons with the parent and the two neighbours and there are no children, and the store is then no tree of ranges any more.
\<close>

theorem adjust_resource_correct:
  assumes "forest h N kids" "q \<in> N" "kids q = pre @ res # suf"
  shows "if start \<le> adjusted_end start sz
    then if room_for h q pre suf (kids res) start (adjusted_end start sz)
      then adjust_resource h res start sz = Inr (set_range h res start (adjusted_end start sz), 0) \<and>
        forest (set_range h res start (adjusted_end start sz)) N kids
      else adjust_resource h res start sz = Inr (h, - EBUSY)
    else if passes_checks h q pre suf (kids res) start (adjusted_end start sz)
      then adjust_resource h res start sz = Inr (set_range h res start (adjusted_end start sz), 0) \<and>
        \<not> forest (set_range h res start (adjusted_end start sz)) N kids
      else adjust_resource h res start sz = Inr (h, - EBUSY)"
  by (rule adjust_resource_cases [OF assms])

theorem adjust_resource_correct_witness:
  "adjust_resource demo_store 2 0x300 0x600 = Inr (set_range demo_store 2 0x300 0x8ff, 0) \<and>
    adjust_resource demo_store 2 0x180 0x600 = Inr (demo_store, - EBUSY) \<and>
    adjust_resource demo_store 1 0x300 0 = Inr (set_range demo_store 1 0x300 0x2ff, 0) \<and>
    \<not> forest (set_range demo_store 1 0x300 0x2ff) {0, 1, 2, 3} demo_kids"
proof -
  have k: "demo_kids 0 = [1] @ 2 # []" "demo_kids 2 = [3]" "demo_kids 0 = [] @ 1 # [2]" "demo_kids 1 = []"
    by (simp_all add: demo_kids_def)
  have e: "adjusted_end 0x300 0x600 = 0x8ff" "adjusted_end 0x180 0x600 = 0x77f" "adjusted_end 0x300 0 = 0x2ff"
    by (simp_all add: u64_add_def u64_sub_def u64_lim_def)
  have c: "room_for demo_store 0 [1] [] [3] 0x300 0x8ff" "\<not> room_for demo_store 0 [1] [] [3] 0x180 0x77f"
    "passes_checks demo_store 0 [] [2] [] 0x300 0x2ff"
    by (simp_all add: room_for_def passes_checks_def demo_store_def demo_cell_def)
  note cases = adjust_resource_correct [OF demo_forest demo_new(1)]
  show ?thesis
    using cases [OF k(1), of "0x300" "0x600", unfolded e k(2)] cases [OF k(1), of "0x180" "0x600", unfolded e k(2)]
      cases [OF k(3), of "0x300" 0, unfolded e k(4)] c by simp
qed

subsection \<open>The operations in any order\<close>

definition tree :: "rstore \<Rightarrow> nat set \<Rightarrow> bool" where
  "tree h N \<longleftrightarrow> (\<exists>kids. forest h N kids)"

text \<open>
  A resource that may be requested or inserted has no children and is not linked: it has never been part of
  the tree, or it has been released from it.
\<close>

definition fresh_cell :: "rstore \<Rightarrow> nat set \<Rightarrow> nat \<Rightarrow> bool" where
  "fresh_cell h N new \<longleftrightarrow> new < length h \<and> r_child (h ! new) = None \<and> (new \<in> N \<longrightarrow> r_parent (h ! new) = None)"

definition linked :: "rstore \<Rightarrow> nat set \<Rightarrow> nat \<Rightarrow> bool" where
  "linked h N r \<longleftrightarrow> r \<in> N \<and> r_parent (h ! r) \<noteq> None"

text \<open>
  The contract the operations share: on a tree, under its guard, an operation returns, and the
  store is again a tree of the cells that belong to it after that answer.
\<close>

locale tree_operation =
  fixes guard :: "rstore \<Rightarrow> nat set \<Rightarrow> bool"
    and oper :: "rstore \<Rightarrow> (rstore \<times> int) run"
    and members :: "nat set \<Rightarrow> int \<Rightarrow> nat set"
  assumes keeps: "tree h N \<Longrightarrow> guard h N \<Longrightarrow> \<exists>h' e. oper h = Inr (h', e) \<and> tree h' (members N e)"
begin

lemma no_fault: "tree h N \<Longrightarrow> guard h N \<Longrightarrow> oper h \<noteq> Inl f"
  using keeps by fastforce

lemma step_keeps: "tree h N \<Longrightarrow> guard h N \<Longrightarrow> oper h = Inr (h', e) \<Longrightarrow> tree h' (members N e)"
  using keeps by fastforce

end

lemma linked_position:
  assumes "forest h N kids" "linked h N r"
  obtains q pre suf where "q \<in> N" "kids q = pre @ r # suf"
proof -
  from assms(2) obtain q where "r \<in> N" "r_parent (h ! r) = Some q" by (auto simp: linked_def)
  from forest_parent [OF assms(1) this] show ?thesis using that by (metis in_set_conv_decomp)
qed

lemma adjust_keeps:
  assumes f: "forest h N kids" and res: "res \<in> N" and se: "start \<le> adjusted_end start sz"
  shows "\<exists>h' e. adjust_resource h res start sz = Inr (h', e) \<and> forest h' N kids"
proof (cases "r_parent (h ! res)")
  case None
  let ?e = "adjusted_end start sz"
  have "path h (r_child (h ! res)) (kids res) None" "length (kids res) < store_fuel h"
    using forestD(1) [OF f res] level_fuel by (auto simp: level_def)
  note cw = children_within_spec [OF this, of start ?e]
  have "res \<notin> set (kids q)" if "q \<in> N" for q using kids_parent [OF f that, of res] None by auto
  then have "\<And>q pre suf. q \<in> N \<Longrightarrow> kids q \<noteq> pre @ res # suf" by (metis in_set_conv_decomp)
  then have "forest (set_range h res start ?e) N kids" if "\<forall>x\<in>set (kids res). start \<le> r_start (h ! x) \<and> r_end (h ! x) \<le> ?e"
    using that se by (intro forest_set_range [OF f res]) auto
  moreover have "neighbours_allow h res start ?e = Inr True" by (simp add: neighbours_allow_def None)
  ultimately show ?thesis
    unfolding adjust_resource_def do_adjust_resource_def Let_def using cw f by auto
next
  case (Some q)
  then have "linked h N res" using res by (simp add: linked_def)
  from linked_position [OF f this] obtain q pre suf where "q \<in> N" "kids q = pre @ res # suf" .
  from adjust_resource_cases [OF f this, of start sz] show ?thesis using f se by (auto split: if_splits)
qed

lemma linked_answer:
  assumes "forest h N kids" "(\<exists>h' k. r = Inr (h', 0) \<and> forest h' (insert new N) k) \<or> r = Inr (h, - EBUSY)"
  shows "\<exists>h' e. r = Inr (h', e) \<and> tree h' (if e = 0 then insert new N else N)"
  using assms(2)
proof (elim disjE exE conjE)
  fix h' k
  assume "r = Inr (h', 0)" "forest h' (insert new N) k"
  then show ?thesis by (intro exI [of _ h'] exI [of _ 0]) (auto simp: tree_def)
next
  assume "r = Inr (h, - EBUSY)"
  then show ?thesis using assms(1) by (intro exI [of _ h] exI [of _ "- EBUSY"]) (auto simp: tree_def EBUSY_def)
qed

lemma forest_unlinked:
  assumes f: "forest h N kids" and new: "fresh_cell h N new"
  shows "forest h (N - {new}) kids"
proof -
  have no: "new \<notin> set (kids r)" if "r \<in> N" for r
    using kids_parent [OF f that, of new] forestD(2) [OF f that] new by (auto simp: fresh_cell_def)
  have "kids new = []" if "new \<in> N"
    using forestD(1) [OF f that] new by (cases "kids new") (auto simp: level_def fresh_cell_def)
  then have "p \<in> N - {new} \<and> x \<in> set (kids p)" if "x \<in> N - {new}" "r_parent (h ! x) = Some p" for x p
    using forest_parent [OF f _ that(2)] that(1) by fastforce
  moreover have "level h r (kids r) \<and> set (kids r) \<subseteq> N - {new}" if "r \<in> N - {new}" for r
    using forestD [OF f, of r] no that by auto
  moreover obtain rank :: "nat \<Rightarrow> nat" where "\<forall>r\<in>N. \<forall>x\<in>set (kids r). rank x < rank r"
    using forest_rank [OF f] by blast
  ultimately show ?thesis unfolding forest_def by (intro conjI exI [of _ rank]) blast+
qed

lemma fresh_cell_request:
  assumes "tree h N" "q \<in> N \<and> q \<noteq> new \<and> fresh_cell h N new"
  obtains kids where "forest h N kids" "forest h (N - {new}) kids" "q \<in> N - {new}" "new \<notin> N - {new}" "new < length h"
    "r_child (h ! new) = None" "insert new (N - {new}) = insert new N"
  using assms forest_unlinked by (auto simp: tree_def fresh_cell_def)

interpretation req: tree_operation "\<lambda>h N. q \<in> N \<and> q \<noteq> new \<and> fresh_cell h N new" "\<lambda>h. request_resource h q new"
  "\<lambda>N e. if e = 0 then insert new N else N" for q new
proof (unfold_locales, goal_cases)
  case (1 h N)
  from fresh_cell_request [OF this] obtain kids where f: "forest h N kids" "forest h (N - {new}) kids"
    and new: "q \<in> N - {new}" "new \<notin> N - {new}" "new < length h" "r_child (h ! new) = None"
    and ins: "insert new (N - {new}) = insert new N" .
  have "(\<exists>h' k. do_request_resource h q new = Inr (h', None) \<and> forest h' (insert new N) k) \<or>
      (\<exists>c. do_request_resource h q new = Inr (h, Some c))"
    using forest_request [OF f(2) new, unfolded ins] by (auto split: if_splits)
  then have "(\<exists>h' k. request_resource h q new = Inr (h', 0) \<and> forest h' (insert new N) k) \<or> request_resource h q new = Inr (h, - EBUSY)"
    by (auto simp: request_resource_def request_resource_conflict_def)
  then show ?case by (rule linked_answer [OF f(1)])
qed

interpretation ins: tree_operation "\<lambda>h N. p \<in> N \<and> p \<noteq> new \<and> fresh_cell h N new" "\<lambda>h. insert_resource h p new"
  "\<lambda>N e. if e = 0 then insert new N else N" for p new
proof (unfold_locales, goal_cases)
  case (1 h N)
  from fresh_cell_request [OF this] obtain kids where f: "forest h N kids" "forest h (N - {new}) kids"
    and new: "p \<in> N - {new}" "new \<notin> N - {new}" "new < length h" "r_child (h ! new) = None"
    and ins: "insert new (N - {new}) = insert new N" .
  have "(\<exists>h' k. insert_resource h p new = Inr (h', 0) \<and> forest h' (insert new N) k) \<or> insert_resource h p new = Inr (h, - EBUSY)"
    using insert_resource_cases [OF f(2) new, unfolded ins] by blast
  then show ?case by (rule linked_answer [OF f(1)])
qed

interpretation rel: tree_operation "\<lambda>h N. linked h N old" "\<lambda>h. release_resource h old" "\<lambda>N e. N" for old
proof (unfold_locales, goal_cases)
  case (1 h N)
  then obtain kids where f: "forest h N kids" by (auto simp: tree_def)
  from linked_position [OF f 1(2)] obtain q pre suf where "q \<in> N" "kids q = pre @ old # suf" .
  from forest_release [OF f this, of True] show ?case by (auto simp: release_resource_def tree_def)
qed

interpretation rem: tree_operation "\<lambda>h N. linked h N old" "\<lambda>h. remove_resource h old" "\<lambda>N e. N - {old}" for old
proof (unfold_locales, goal_cases)
  case (1 h N)
  then obtain kids where f: "forest h N kids" by (auto simp: tree_def)
  from linked_position [OF f 1(2)] obtain q pre suf where "q \<in> N" "kids q = pre @ old # suf" .
  from forest_remove [OF f this] show ?case by (auto simp: remove_resource_def tree_def)
qed

interpretation adj: tree_operation "\<lambda>h N. res \<in> N \<and> start \<le> adjusted_end start sz" "\<lambda>h. adjust_resource h res start sz"
  "\<lambda>N e. N" for res start sz
proof (unfold_locales, goal_cases)
  case (1 h N)
  then obtain kids where f: "forest h N kids" by (auto simp: tree_def)
  from 1(2) have "res \<in> N" "start \<le> adjusted_end start sz" by simp_all
  from adjust_keeps [OF f this] show ?case unfolding tree_def by blast
qed

inductive res_step :: "rstore \<times> nat set \<Rightarrow> rstore \<times> nat set \<Rightarrow> bool" where
  step_request: "q \<in> N \<and> q \<noteq> new \<and> fresh_cell h N new \<Longrightarrow> request_resource h q new = Inr (h', e) \<Longrightarrow>
    res_step (h, N) (h', if e = 0 then insert new N else N)"
| step_insert: "p \<in> N \<and> p \<noteq> new \<and> fresh_cell h N new \<Longrightarrow> insert_resource h p new = Inr (h', e) \<Longrightarrow>
    res_step (h, N) (h', if e = 0 then insert new N else N)"
| step_release: "linked h N old \<Longrightarrow> release_resource h old = Inr (h', e) \<Longrightarrow> res_step (h, N) (h', N)"
| step_remove: "linked h N old \<Longrightarrow> remove_resource h old = Inr (h', e) \<Longrightarrow> res_step (h, N) (h', N - {old})"
| step_adjust: "res \<in> N \<and> start \<le> adjusted_end start sz \<Longrightarrow> adjust_resource h res start sz = Inr (h', e) \<Longrightarrow>
    res_step (h, N) (h', N)"

lemma res_step_keeps: "res_step s t \<Longrightarrow> tree (fst s) (snd s) \<Longrightarrow> tree (fst t) (snd t)"
  by (induction rule: res_step.induct)
    (auto dest: req.step_keeps ins.step_keeps rel.step_keeps rem.step_keeps adj.step_keeps)

lemma res_steps_keep: "res_step\<^sup>*\<^sup>* s t \<Longrightarrow> tree (fst s) (snd s) \<Longrightarrow> tree (fst t) (snd t)"
  by (induction rule: rtranclp_induct) (auto dest: res_step_keeps)

lemma tree_children:
  assumes "tree h N" "x \<in> N" "r_parent (h ! x) = Some p"
  shows "p \<in> N" "in_range h p x" "y \<in> N \<Longrightarrow> r_parent (h ! y) = Some p \<Longrightarrow> y \<noteq> x \<Longrightarrow> disjoint_res h x y"
proof -
  from assms(1) obtain kids where f: "forest h N kids" by (auto simp: tree_def)
  show p: "p \<in> N" by (rule forest_parent(1) [OF f assms(2,3)])
  have x: "x \<in> set (kids p)" by (rule forest_parent(2) [OF f assms(2,3)])
  have lv: "level h p (kids p)" by (rule forestD(1) [OF f p])
  then show "in_range h p x" using x by (simp add: level_def)
  assume y: "y \<in> N" "r_parent (h ! y) = Some p" "y \<noteq> x"
  then have "y \<in> set (kids p)" using forest_parent [OF f] by blast
  then have "res_before h x y \<or> res_before h y x"
    using lv x y(3) unfolding level_def by (metis in_set_conv_nth linorder_neqE_nat sorted_wrt_nth_less)
  then show "disjoint_res h x y" by (auto simp: res_before_def disjoint_res_def)
qed

text \<open>
  C6: whatever sequence of requests, insertions, releases, removals and adjustments has run, with
  whatever answers, every resource that has a parent lies inside the range of a parent which is
  itself in the tree, and two resources with the same parent never overlap.  A resource that is requested or inserted
  has no children and is not linked at that time (it may have been released before), one that is released or removed
  is linked, and an adjustment has a size and does not wrap around the end of the addresses; one that does
  may succeed and break the tree, as shown under adjusting above.
\<close>

theorem resource_tree_invariant:
  assumes "tree h N" "res_step\<^sup>*\<^sup>* (h, N) (h', N')" "x \<in> N'" "r_parent (h' ! x) = Some p"
  shows "p \<in> N' \<and> r_start (h' ! p) \<le> r_start (h' ! x) \<and> r_start (h' ! x) \<le> r_end (h' ! x) \<and> r_end (h' ! x) \<le> r_end (h' ! p) \<and>
    (\<forall>y\<in>N'. y \<noteq> x \<and> r_parent (h' ! y) = Some p \<longrightarrow>
      r_end (h' ! x) < r_start (h' ! y) \<or> r_end (h' ! y) < r_start (h' ! x))"
proof -
  have t: "tree h' N'" using res_steps_keep [OF assms(2)] assms(1) by simp
  show ?thesis
    using tree_children [OF t assms(3,4)] by (auto simp: in_range_def disjoint_res_def)
qed

lemma demo_tree: "tree demo_store {0, 1, 2, 3}"
  using demo_forest by (auto simp: tree_def)

text \<open>Requested, released and requested again.\<close>

definition demo_requested :: rstore where
  "demo_requested = demo_store[1 := (demo_store ! 1)\<lparr>r_sibling := Some 4\<rparr>,
     4 := (demo_store ! 4)\<lparr>r_parent := Some 0, r_sibling := Some 2\<rparr>]"

definition demo_released :: rstore where
  "demo_released = demo_store[4 := (demo_store ! 4)\<lparr>r_sibling := Some 2\<rparr>]"

lemma demo_runs:
  "request_resource demo_store 0 4 = Inr (demo_requested, 0)"
  "release_resource demo_requested 4 = Inr (demo_released, 0)"
  "request_resource demo_released 0 4 = Inr (demo_requested, 0)"
  by (simp_all add: request_resource_def request_resource_conflict_def do_request_resource_def release_resource_def
      do_release_resource_def release_found_def link_resource_def set_parent_def demo_requested_def demo_released_def
      demo_store_def demo_cell_def null_resource_def store_fuel_def assign.simps Let_def)

theorem resource_tree_invariant_witness:
  "res_step\<^sup>*\<^sup>* (demo_store, {0, 1, 2, 3}) (demo_released, {0, 1, 2, 3, 4}) \<and>
   res_step\<^sup>*\<^sup>* (demo_released, {0, 1, 2, 3, 4}) (demo_requested, {0, 1, 2, 3, 4}) \<and>
   r_end (demo_requested ! 4) \<le> r_end (demo_requested ! 0) \<and>
   (r_end (demo_requested ! 4) < r_start (demo_requested ! 1) \<or> r_end (demo_requested ! 1) < r_start (demo_requested ! 4))"
proof -
  let ?N = "{0, 1, 2, 3::nat}" and ?M = "{0, 1, 2, 3, 4::nat}"
  have p: "r_parent (demo_requested ! 4) = Some 0" "r_parent (demo_requested ! 1) = Some 0" "r_parent (demo_released ! 4) = None"
    "r_child (demo_released ! 4) = None" "length demo_released = 7"
    by (simp_all add: demo_requested_def demo_released_def demo_store_def demo_cell_def null_resource_def)
  have M: "insert 4 ?N = ?M" "insert 4 ?M = ?M" by auto
  have 1: "res_step (demo_store, ?N) (demo_requested, ?M)"
    using step_request [OF _ demo_runs(1), of ?N] demo_fields M by (simp add: fresh_cell_def)
  have 2: "res_step (demo_requested, ?M) (demo_released, ?M)"
    using step_release [OF _ demo_runs(2), of ?M] p by (simp add: linked_def)
  have 3: "res_step (demo_released, ?M) (demo_requested, ?M)"
    using step_request [OF _ demo_runs(3), of ?M] p M by (simp add: fresh_cell_def)
  have r: "res_step\<^sup>*\<^sup>* (demo_store, ?N) (demo_released, ?M)" using 1 2 by (rule rtranclp.rtrancl_into_rtrancl [OF r_into_rtranclp])
  have r': "res_step\<^sup>*\<^sup>* (demo_released, ?M) (demo_requested, ?M)" using 3 by (rule r_into_rtranclp)
  from resource_tree_invariant [OF demo_tree rtranclp_trans [OF r r'] _ p(1)]
  have "r_end (demo_requested ! 4) \<le> r_end (demo_requested ! 0)"
    "r_end (demo_requested ! 4) < r_start (demo_requested ! 1) \<or> r_end (demo_requested ! 1) < r_start (demo_requested ! 4)"
    using p(2) by simp_all
  then show ?thesis using r r' by blast
qed

end
