(* ===== verification/Resource_Alloc.thy ===== *)
theory Resource_Alloc
  imports Resource_Ops
begin

text \<open>
  \<^verbatim>\<open>allocate_resource\<close>: the search for a slot between the children of a resource, under bounds and
  alignment.  The callback \<^verbatim>\<open>alignf\<close> of the caller is an argument of the model, a function of the
  fields of the available range that the code has filled in, the size and the alignment.
  \<^verbatim>\<open>arch_remove_reservations\<close> is the empty default of the file.
\<close>

type_synonym alignf = "u64 \<Rightarrow> u64 \<Rightarrow> nat \<Rightarrow> u64 \<Rightarrow> u64 \<Rightarrow> u64"

record resource_constraint =
  c_min :: u64
  c_max :: u64
  c_align :: u64
  c_alignf :: alignf

definition simple_align_resource :: alignf where
  "simple_align_resource avail_start avail_end avail_flags sz align = avail_start"

definition resource_clip :: "u64 \<Rightarrow> u64 \<Rightarrow> u64 \<Rightarrow> u64 \<Rightarrow> u64 \<times> u64" where
  "resource_clip start end lo hi = (if start < lo then lo else start, if end > hi then hi else end)"

definition arch_remove_reservations :: "u64 \<times> u64 \<Rightarrow> u64 \<times> u64" where
  "arch_remove_reservations avail = avail"

definition clear_unset :: "nat \<Rightarrow> nat" where
  "clear_unset flags = flags AND u64_not IORESOURCE_UNSET"

text \<open>The attempt to place the new resource in the gap from \<open>tmp_start\<close> to \<open>tmp_end\<close>.\<close>

definition try_gap :: "nat \<Rightarrow> u64 \<Rightarrow> resource_constraint \<Rightarrow> u64 \<times> u64 \<Rightarrow> (u64 \<times> u64) option" where
  "try_gap flags sz constraint tmp =
    (let tmp_start = fst tmp; tmp_end = snd tmp;
         avail = null_resource\<lparr>r_start := ALIGN tmp_start (c_align constraint), r_end := tmp_end, r_flags := clear_unset flags\<rparr>
     in if r_start avail \<ge> tmp_start then
          let start = c_alignf constraint (r_start avail) (r_end avail) (r_flags avail) sz (c_align constraint);
              alloc = null_resource\<lparr>r_start := start, r_end := u64_sub (u64_add start sz) 1, r_flags := r_flags avail\<rparr>
          in if r_start alloc \<le> r_end alloc \<and> resource_contains avail alloc then Some (r_start alloc, r_end alloc) else None
        else None)"

primrec find_walk ::
  "nat \<Rightarrow> rstore \<Rightarrow> nat \<Rightarrow> nat option \<Rightarrow> nat \<Rightarrow> u64 \<Rightarrow> resource_constraint \<Rightarrow> u64 \<Rightarrow> nat option \<Rightarrow> (u64 \<times> u64) option run" where
  "find_walk 0 h root old flags sz constraint tmp_start this = Inl No_fuel"
| "find_walk (Suc fuel) h root old flags sz constraint tmp_start this =
    (let tmp_end = (case this of
                      None \<Rightarrow> r_end (h ! root)
                    | Some t \<Rightarrow> if this = old then r_end (h ! t) else u64_sub (r_start (h ! t)) 1);
         tmp = (if tmp_end < tmp_start then (tmp_start, tmp_end)
                else arch_remove_reservations (resource_clip tmp_start tmp_end (c_min constraint) (c_max constraint)));
         found = (if tmp_end < tmp_start then None else try_gap flags sz constraint tmp)
     in case found of
          Some slot \<Rightarrow> Inr (Some slot)
        | None \<Rightarrow>
            (case this of
               None \<Rightarrow> Inr None
             | Some t \<Rightarrow>
                 if r_end (h ! t) = r_end (h ! root) then Inr None
                 else find_walk fuel h root old flags sz constraint
                        (if this \<noteq> old then u64_add (r_end (h ! t)) 1 else fst tmp) (r_sibling (h ! t))))"

text \<open>\<open>None\<close> is the answer \<^verbatim>\<open>-EBUSY\<close>; a slot is what the code stores in \<^verbatim>\<open>new\<close>.\<close>

definition do_find_resource ::
  "rstore \<Rightarrow> nat \<Rightarrow> nat option \<Rightarrow> nat \<Rightarrow> u64 \<Rightarrow> resource_constraint \<Rightarrow> (u64 \<times> u64) option run" where
  "do_find_resource h root old flags sz constraint =
    (case r_child (h ! root) of
       None \<Rightarrow> find_walk (store_fuel h) h root old flags sz constraint (r_start (h ! root)) None
     | Some this \<Rightarrow>
         if r_start (h ! this) = r_start (h ! root)
         then find_walk (store_fuel h) h root old flags sz constraint
                (if Some this = old then r_start (h ! this) else u64_add (r_end (h ! this)) 1) (r_sibling (h ! this))
         else find_walk (store_fuel h) h root old flags sz constraint (r_start (h ! root)) (Some this))"

definition find_resource ::
  "rstore \<Rightarrow> nat \<Rightarrow> nat \<Rightarrow> u64 \<Rightarrow> resource_constraint \<Rightarrow> (u64 \<times> u64) option run" where
  "find_resource h root new sz constraint = do_find_resource h root None (r_flags (h ! new)) sz constraint"

definition reallocate_resource :: "rstore \<Rightarrow> nat \<Rightarrow> nat \<Rightarrow> u64 \<Rightarrow> resource_constraint \<Rightarrow> (rstore \<times> int) run" where
  "reallocate_resource h root old newsize constraint =
    run_bind (do_find_resource h root (Some old) (r_flags (h ! old)) newsize constraint)
      (\<lambda>slot.
         case slot of
           None \<Rightarrow> Inr (h, - EBUSY)
         | Some (a, b) \<Rightarrow>
             let new = (h ! old)\<lparr>r_start := a, r_end := b\<rparr> in
             if resource_contains new (h ! old) then Inr (set_range h old a b, 0)
             else if r_child (h ! old) \<noteq> None then Inr (h, - EBUSY)
             else if resource_contains (h ! old) new then Inr (set_range h old a b, 0)
             else run_bind (do_release_resource h old True)
                    (\<lambda>(h1, ret).
                       run_bind (do_request_resource (h1[old := new]) root old)
                         (\<lambda>(h2, conflict). if conflict \<noteq> None then Inl Bug_on else Inr (h2, 0))))"

definition allocate_resource ::
  "rstore \<Rightarrow> nat \<Rightarrow> nat \<Rightarrow> u64 \<Rightarrow> u64 \<Rightarrow> u64 \<Rightarrow> u64 \<Rightarrow> alignf option \<Rightarrow> (rstore \<times> int) run" where
  "allocate_resource h root new sz lo hi align alignf =
    (let f = (case alignf of None \<Rightarrow> simple_align_resource | Some g \<Rightarrow> g);
         constraint = \<lparr>c_min = lo, c_max = hi, c_align = align, c_alignf = f\<rparr>
     in if r_parent (h ! new) \<noteq> None then reallocate_resource h root new sz constraint
        else
          run_bind (find_resource h root new sz constraint)
            (\<lambda>slot.
               case slot of
                 None \<Rightarrow> Inr (h, - EBUSY)
               | Some (a, b) \<Rightarrow>
                   run_bind (do_request_resource (set_range h new a b) root new)
                     (\<lambda>(h', conflict). Inr (h', if conflict \<noteq> None then - EBUSY else 0))))"

subsection \<open>Aligning near the top of the address space\<close>

lemma ALIGN_wrap:
  assumes "x < u64_lim" "u64_lim < x + 2 ^ k" "k < 64"
  shows "ALIGN x (2 ^ k) = 0"
proof -
  let ?y = "x + (2 ^ k - 1) - u64_lim"
  have k: "(1::nat) \<le> 2 ^ k" "(2::nat) ^ k < u64_lim" using assms(3) pow2_less_u64_lim by simp_all
  have y: "?y < 2 ^ k" "?y < u64_lim" "u64_lim \<le> x + (2 ^ k - 1)" using assms(1,2) k by linarith+
  have "u64_sub (2 ^ k) 1 = 2 ^ k - 1" using k by (simp add: u64_sub_eq)
  moreover have "u64_add x (2 ^ k - 1) = ?y"
    using y by (simp add: u64_add_def le_mod_geq)
  ultimately show ?thesis
    using round_down_pow2 [OF y(2) assms(3)] y(1)
    by (simp add: ALIGN_def round_down_def round_mask_def)
qed

lemma ALIGN_less:
  assumes "k < 64"
  shows "ALIGN x (2 ^ k) < u64_lim"
proof -
  let ?y = "u64_add x (2 ^ k - 1)"
  have y: "?y < u64_lim" by simp
  have "u64_sub (2 ^ k) 1 = 2 ^ k - 1" using pow2_less_u64_lim assms by (simp add: u64_sub_eq)
  then have "ALIGN x (2 ^ k) = ?y div 2 ^ k * 2 ^ k"
    using round_down_pow2 [OF y assms] by (simp add: ALIGN_def round_down_def round_mask_def)
  also have "\<dots> \<le> ?y" by simp
  finally show ?thesis using y by linarith
qed

lemma ALIGN_checked:
  assumes "x < u64_lim" "k < 64" "x \<le> ALIGN x (2 ^ k)"
  shows "2 ^ k dvd ALIGN x (2 ^ k)"
proof (cases "x + 2 ^ k \<le> u64_lim")
  case True
  then show ?thesis using ALIGN_bounds(3) assms(2) by simp
next
  case False
  then show ?thesis using ALIGN_wrap [of x k] assms by simp
qed

lemma ALIGN_reaches:
  assumes "x \<le> c" "c < u64_lim" "k < 64" "2 ^ k dvd c"
  shows "x \<le> ALIGN x (2 ^ k) \<and> ALIGN x (2 ^ k) \<le> c"
proof -
  have "x + 2 ^ k \<le> u64_lim"
  proof -
    have "(2::nat) ^ k dvd u64_lim" unfolding u64_lim_def by (rule le_imp_power_dvd) (use assms(3) in simp)
    then obtain m where m: "u64_lim = 2 ^ k * m" by blast
    obtain q where q: "c = 2 ^ k * q" using assms(4) by blast
    have "q < m" using assms(2) unfolding m q by simp
    then have "2 ^ k * (q + 1) \<le> 2 ^ k * m" by (intro mult_le_mono2) simp
    then show ?thesis using assms(1) unfolding m q by simp
  qed
  then show ?thesis using ALIGN_bounds(1) ALIGN_least assms by simp
qed

subsection \<open>One gap\<close>

lemma resource_contains_plain:
  assumes "r_flags a = r_flags b" "r_flags b AND IORESOURCE_UNSET = 0"
  shows "resource_contains a b \<longleftrightarrow> r_start a \<le> r_start b \<and> r_end b \<le> r_end a"
  using assms by (auto simp: resource_contains_def resource_type_def)

lemma clear_unset_clear: "clear_unset f AND IORESOURCE_UNSET = 0"
proof (rule bit_eqI)
  fix n
  have unset: "IORESOURCE_UNSET = 2 ^ 29" by (simp add: IORESOURCE_UNSET_def)
  have "bit IORESOURCE_UNSET n \<Longrightarrow> n = 29" unfolding unset bit_exp_iff by simp
  then show "bit (clear_unset f AND IORESOURCE_UNSET) n \<longleftrightarrow> bit (0::nat) n"
    by (auto simp: clear_unset_def u64_not_def bit_and_iff bit_xor_iff bit_mask_iff)
qed

lemma try_gap_Some:
  assumes "try_gap f sz c (ts, te) = Some (a, b)"
  shows "ts \<le> a" "a \<le> b" "b \<le> te" "b = u64_sub (u64_add a sz) 1"
  using assms by (auto simp: try_gap_def Let_def resource_contains_plain clear_unset_clear split: if_splits)

lemma last_of_slot:
  assumes "a \<le> u64_sub (u64_add a sz) 1" "0 < sz" "a < u64_lim" "sz \<le> u64_lim"
  shows "a + sz \<le> u64_lim" "u64_sub (u64_add a sz) 1 = a + sz - 1"
proof -
  show *: "a + sz \<le> u64_lim"
  proof (rule ccontr)
    assume "\<not> a + sz \<le> u64_lim"
    then have "u64_add a sz = a + sz - u64_lim" "1 \<le> a + sz - u64_lim" "a + sz - u64_lim < u64_lim" "a + sz - u64_lim \<le> a"
      using assms(3,4) by (simp_all add: u64_add_def le_mod_geq)
    then show False using assms(1) by (simp add: u64_sub_eq)
  qed
  show "u64_sub (u64_add a sz) 1 = a + sz - 1" by (rule u64_last [OF assms(2) *])
qed

text \<open>The aligned places for \<open>sz\<close> bytes inside a range.\<close>

definition place_in :: "nat \<Rightarrow> u64 \<Rightarrow> u64 \<Rightarrow> u64 \<Rightarrow> u64 \<Rightarrow> bool" where
  "place_in k sz ts te s \<longleftrightarrow> 2 ^ k dvd s \<and> ts \<le> s \<and> s + sz - 1 \<le> te"

lemma try_gap_simple:
  assumes "c_align c = 2 ^ k" "k < 64" "c_alignf c = simple_align_resource" "0 < sz" "sz < u64_lim" "ts < u64_lim" "te < u64_lim"
  shows "case try_gap f sz c (ts, te) of
      None \<Rightarrow> \<forall>s. \<not> place_in k sz ts te s
    | Some (a, b) \<Rightarrow> place_in k sz ts te a \<and> b = a + sz - 1 \<and> (\<forall>s. place_in k sz ts te s \<longrightarrow> a \<le> s)"
proof -
  let ?a = "ALIGN ts (2 ^ k)" and ?b = "u64_sub (u64_add (ALIGN ts (2 ^ k)) sz) 1"
  have gap: "try_gap f sz c (ts, te) = (if ts \<le> ?a \<and> ?a \<le> ?b \<and> ?b \<le> te then Some (?a, ?b) else None)"
    by (auto simp: try_gap_def Let_def assms(1,3) simple_align_resource_def resource_contains_plain clear_unset_clear)
  have lim: "?a < u64_lim" by (rule ALIGN_less [OF assms(2)])
  have below: "ts \<le> ?a \<and> ?a \<le> s" if "place_in k sz ts te s" for s
    using that assms(2,4,7) by (intro ALIGN_reaches) (auto simp: place_in_def)
  show ?thesis
  proof (cases "ts \<le> ?a \<and> ?a \<le> ?b \<and> ?b \<le> te")
    case True
    then have "?b = ?a + sz - 1" using last_of_slot(2) lim assms(4,5) by simp
    then show ?thesis using True gap below ALIGN_checked [OF assms(6,2)] by (auto simp: place_in_def)
  next
    case False
    have "\<not> place_in k sz ts te s" for s
    proof
      assume s: "place_in k sz ts te s"
      have "?a + sz - 1 \<le> te" "ts \<le> ?a" using below [OF s] s by (auto simp: place_in_def)
      moreover from this have "?a + sz \<le> u64_lim" using assms(4,7) by linarith
      ultimately show False using False u64_last [OF assms(4), of ?a] assms(4) by simp
    qed
    then show ?thesis using False gap by simp
  qed
qed

subsection \<open>All gaps\<close>

text \<open>The places the caller would accept: aligned, in bounds, inside the parent and clear of its children.\<close>

definition fits :: "rstore \<Rightarrow> nat \<Rightarrow> nat list \<Rightarrow> nat \<Rightarrow> u64 \<Rightarrow> u64 \<Rightarrow> u64 \<Rightarrow> u64 \<Rightarrow> bool" where
  "fits h q xs k sz lo hi s \<longleftrightarrow> 2 ^ k dvd s \<and> lo \<le> s \<and> s + sz - 1 \<le> hi \<and> r_start (h ! q) \<le> s \<and> s + sz - 1 \<le> r_end (h ! q) \<and>
    (\<forall>x\<in>set xs. r_end (h ! x) < s \<or> s + sz - 1 < r_start (h ! x))"

definition first_fit :: "rstore \<Rightarrow> nat \<Rightarrow> nat list \<Rightarrow> nat \<Rightarrow> u64 \<Rightarrow> u64 \<Rightarrow> u64 \<Rightarrow> (u64 \<times> u64) option \<Rightarrow> bool" where
  "first_fit h q xs k sz lo hi r \<longleftrightarrow>
    (case r of
       None \<Rightarrow> \<forall>s. \<not> fits h q xs k sz lo hi s
     | Some (a, b) \<Rightarrow> fits h q xs k sz lo hi a \<and> b = a + sz - 1 \<and> (\<forall>s. fits h q xs k sz lo hi s \<longrightarrow> a \<le> s))"

lemma find_walk_step:
  "find_walk (Suc n) h q None f sz c ts (Some x) =
    (case (if u64_sub (r_start (h ! x)) 1 < ts then None
           else try_gap f sz c (resource_clip ts (u64_sub (r_start (h ! x)) 1) (c_min c) (c_max c))) of
       Some slot \<Rightarrow> Inr (Some slot)
     | None \<Rightarrow>
         if r_end (h ! x) = r_end (h ! q) then Inr None
         else find_walk n h q None f sz c (u64_add (r_end (h ! x)) 1) (r_sibling (h ! x)))"
  by (simp add: Let_def arch_remove_reservations_def split: option.split)

lemma find_walk_spec:
  assumes lv: "level h q (pre @ suf)" and lim: "r_end (h ! q) < u64_lim" "lo < u64_lim" "ts < u64_lim"
    and sz: "0 < sz" "sz < u64_lim" and k: "k < 64" and fuel: "length suf < fuel"
    and c: "c = \<lparr>c_min = lo, c_max = hi, c_align = 2 ^ k, c_alignf = simple_align_resource\<rparr>"
    and ts: "r_start (h ! q) \<le> ts" "\<forall>x\<in>set pre. r_end (h ! x) < ts" "\<forall>x\<in>set suf. r_start (h ! q) < r_start (h ! x)"
      "\<And>s. fits h q (pre @ suf) k sz lo hi s \<Longrightarrow> ts \<le> s"
  shows "\<exists>r. find_walk fuel h q None f sz c ts (case suf of [] \<Rightarrow> None | x # _ \<Rightarrow> Some x) = Inr r \<and>
    first_fit h q (pre @ suf) k sz lo hi r"
  using lv fuel lim(3) ts
proof (induction suf arbitrary: pre ts fuel)
  case Nil
  then obtain n where n: "fuel = Suc n" by (cases fuel) auto
  let ?ts = "if ts < lo then lo else ts" and ?te = "if r_end (h ! q) > hi then hi else r_end (h ! q)"
  have fit: "fits h q (pre @ []) k sz lo hi s \<longleftrightarrow> ts \<le> r_end (h ! q) \<and> place_in k sz ?ts ?te s" for s
  proof
    assume s: "fits h q (pre @ []) k sz lo hi s"
    have "s \<le> s + sz - 1" using sz(1) by simp
    then show "ts \<le> r_end (h ! q) \<and> place_in k sz ?ts ?te s"
      using s Nil.prems(7) [OF s] by (auto simp: fits_def place_in_def)
  next
    assume "ts \<le> r_end (h ! q) \<and> place_in k sz ?ts ?te s"
    then show "fits h q (pre @ []) k sz lo hi s"
      using Nil.prems(4,5) by (auto simp: fits_def place_in_def split: if_splits)
  qed
  have gap: "case try_gap f sz c (?ts, ?te) of
      None \<Rightarrow> \<forall>s. \<not> place_in k sz ?ts ?te s
    | Some (a, b) \<Rightarrow> place_in k sz ?ts ?te a \<and> b = a + sz - 1 \<and> (\<forall>s. place_in k sz ?ts ?te s \<longrightarrow> a \<le> s)"
    using Nil.prems(3) lim k sz by (intro try_gap_simple) (auto simp: c)
  show ?case
    using gap fit by (auto simp: n first_fit_def resource_clip_def arch_remove_reservations_def c Let_def split: option.splits)
next
  case (Cons x suf)
  then obtain n where n: "fuel = Suc n" by (cases fuel) auto
  have x: "r_start (h ! q) < r_start (h ! x)" "r_start (h ! x) \<le> r_end (h ! x)" "r_end (h ! x) \<le> r_end (h ! q)"
    using Cons.prems(1,6) by (auto simp: level_def in_range_def)
  have after: "\<forall>y\<in>set suf. r_end (h ! x) < r_start (h ! y)"
    using Cons.prems(1) by (auto simp: level_def sorted_wrt_append res_before_def)
  have inr: "\<forall>y\<in>set suf. r_start (h ! y) \<le> r_end (h ! y)"
    using Cons.prems(1) by (auto simp: level_def in_range_def)
  let ?xs = "pre @ x # suf"
  let ?gap = "r_start (h ! x) - 1"
  let ?ts = "if ts < lo then lo else ts" and ?te = "if ?gap > hi then hi else ?gap"
  have ge: "u64_sub (r_start (h ! x)) 1 = ?gap" using x lim(1) by (simp add: u64_sub_eq)
  have clip: "resource_clip ts ?gap (c_min c) (c_max c) = (?ts, ?te)" by (simp add: resource_clip_def c)
  note walk = find_walk_step [of n h q f sz c ts x, unfolded ge clip, folded n]
  have here: "fits h q ?xs k sz lo hi s" if "ts \<le> ?gap" "place_in k sz ?ts ?te s" for s
  proof -
    have "s + sz - 1 < r_start (h ! x)" "ts \<le> s" "lo \<le> s" "s + sz - 1 \<le> hi" "2 ^ k dvd s"
      using that x by (auto simp: place_in_def split: if_splits)
    then show ?thesis using x after Cons.prems(4,5) by (fastforce simp: fits_def)
  qed
  have split: "ts \<le> ?gap \<and> place_in k sz ?ts ?te s \<or> r_end (h ! x) < s" if s: "fits h q ?xs k sz lo hi s" for s
    using s Cons.prems(7) [OF s] sz(1) by (auto simp: fits_def place_in_def)
  have gap: "case try_gap f sz c (?ts, ?te) of
      None \<Rightarrow> \<forall>s. \<not> place_in k sz ?ts ?te s
    | Some (a, b) \<Rightarrow> place_in k sz ?ts ?te a \<and> b = a + sz - 1 \<and> (\<forall>s. place_in k sz ?ts ?te s \<longrightarrow> a \<le> s)"
    using Cons.prems(3) lim k sz x by (intro try_gap_simple) (auto simp: c)
  show ?case
  proof (cases "if ?gap < ts then None else try_gap f sz c (?ts, ?te)")
    case (Some ab)
    then obtain a b where ab: "ab = (a, b)" "ts \<le> ?gap" "try_gap f sz c (?ts, ?te) = Some (a, b)"
      by (cases ab) (auto split: if_splits)
    then have pl: "place_in k sz ?ts ?te a" "b = a + sz - 1" "\<forall>s. place_in k sz ?ts ?te s \<longrightarrow> a \<le> s" using gap by auto
    have "a \<le> s" if s: "fits h q ?xs k sz lo hi s" for s
    proof -
      have "a \<le> r_end (h ! x)" using pl(1) x sz(1) by (auto simp: place_in_def split: if_splits)
      then show ?thesis using split [OF s] pl(3) by auto
    qed
    then have "first_fit h q ?xs k sz lo hi (Some (a, b))" using here [OF ab(2) pl(1)] pl(2) by (simp add: first_fit_def)
    moreover have "find_walk fuel h q None f sz c ts (Some x) = Inr (Some (a, b))"
      unfolding walk using ab by simp
    ultimately show ?thesis by simp
  next
    case None
    then have none: "\<not> (ts \<le> ?gap \<and> place_in k sz ?ts ?te s)" for s using gap by (auto split: if_splits)
    have beyond: "r_end (h ! x) < s" if "fits h q ?xs k sz lo hi s" for s using split [OF that] none by blast
    have step: "find_walk fuel h q None f sz c ts (Some x) =
        (if r_end (h ! x) = r_end (h ! q) then Inr None
         else find_walk n h q None f sz c (u64_add (r_end (h ! x)) 1) (r_sibling (h ! x)))"
      unfolding walk None by simp
    show ?thesis
    proof (cases "r_end (h ! x) = r_end (h ! q)")
      case True
      have "\<not> fits h q ?xs k sz lo hi s" for s
        using beyond [of s] True sz(1) by (auto simp: fits_def)
      then show ?thesis using step True by (simp add: first_fit_def)
    next
      case False
      then have add: "u64_add (r_end (h ! x)) 1 = r_end (h ! x) + 1" "r_end (h ! x) + 1 < u64_lim"
        using x lim(1) by (simp_all add: u64_add_eq)
      have sib: "r_sibling (h ! x) = (case suf of [] \<Rightarrow> None | y # _ \<Rightarrow> Some y)"
        using Cons.prems(1) by (cases suf) (auto simp: level_def path_append)
      have "\<forall>y\<in>set (pre @ [x]). r_end (h ! y) < r_end (h ! x) + 1"
        using Cons.prems(1) x by (fastforce simp: level_def sorted_wrt_append res_before_def)
      moreover have "r_start (h ! q) \<le> r_end (h ! x) + 1" using x by simp
      moreover have "r_end (h ! x) + 1 \<le> s" if "fits h q ((pre @ [x]) @ suf) k sz lo hi s" for s
        using beyond [of s] that by simp
      ultimately show ?thesis
        using Cons.IH [of "pre @ [x]" n "r_end (h ! x) + 1"] Cons.prems(1,2,6) add n step False sib by simp
    qed
  qed
qed

subsection \<open>Allocating\<close>

text \<open>
  A first child that starts with its parent and ends at the top of the address space makes the
  search wrap around to 0; no place is left then, and the request that follows refuses the slot.
\<close>

lemma find_resource_spec:
  assumes lv: "level h q xs" and lim: "r_end (h ! q) < u64_lim" "lo < u64_lim" and sz: "0 < sz" "sz < u64_lim" and k: "k < 64"
    and c: "c = \<lparr>c_min = lo, c_max = hi, c_align = 2 ^ k, c_alignf = simple_align_resource\<rparr>"
  shows "\<exists>r. find_resource h q new sz c = Inr r \<and>
    (first_fit h q xs k sz lo hi r \<or>
     (\<exists>x. xs = [x] \<and> r_start (h ! x) = r_start (h ! q) \<and> r_end (h ! x) = r_end (h ! q) \<and> (\<forall>s. \<not> fits h q xs k sz lo hi s)))"
proof (cases xs)
  case Nil
  have "\<exists>r. find_walk (store_fuel h) h q None (r_flags (h ! new)) sz c (r_start (h ! q)) (case [] of [] \<Rightarrow> None | x # _ \<Rightarrow> Some x) = Inr r \<and>
      first_fit h q ([] @ []) k sz lo hi r" if "r_start (h ! q) < u64_lim"
    by (rule find_walk_spec) (use lv lim sz k c Nil that in \<open>auto simp: store_fuel_def fits_def\<close>)
  moreover have "r_child (h ! q) = None" using lv Nil by (simp add: level_def)
  moreover have "\<exists>r. find_walk (store_fuel h) h q None (r_flags (h ! new)) sz c (r_start (h ! q)) None = Inr r \<and> first_fit h q [] k sz lo hi r"
    if "\<not> r_start (h ! q) < u64_lim"
  proof -
    have "\<not> fits h q [] k sz lo hi s" for s using that lim(1) sz(1) by (auto simp: fits_def)
    moreover have "r_end (h ! q) < r_start (h ! q)" using that lim(1) by simp
    ultimately show ?thesis by (simp add: store_fuel_def first_fit_def)
  qed
  ultimately show ?thesis using Nil by (fastforce simp: find_resource_def do_find_resource_def)
next
  case (Cons x suf)
  have x: "r_child (h ! q) = Some x" "r_start (h ! q) \<le> r_start (h ! x)" "r_start (h ! x) \<le> r_end (h ! x)" "r_end (h ! x) \<le> r_end (h ! q)"
    using lv Cons by (auto simp: level_def in_range_def)
  have after: "\<forall>y\<in>set suf. r_end (h ! x) < r_start (h ! y)" "\<forall>y\<in>set suf. r_start (h ! y) \<le> r_end (h ! y) \<and> r_end (h ! y) \<le> r_end (h ! q)"
    using lv Cons by (auto simp: level_def in_range_def res_before_def)
  have sib: "r_sibling (h ! x) = (case suf of [] \<Rightarrow> None | y # _ \<Rightarrow> Some y)"
    using lv Cons by (cases suf) (auto simp: level_def)
  have fuel: "length xs < store_fuel h" by (rule level_fuel [OF lv])
  show ?thesis
  proof (cases "r_start (h ! x) = r_start (h ! q)")
    case False
    have "\<exists>r. find_walk (store_fuel h) h q None (r_flags (h ! new)) sz c (r_start (h ! q)) (case xs of [] \<Rightarrow> None | x # _ \<Rightarrow> Some x) = Inr r \<and>
        first_fit h q ([] @ xs) k sz lo hi r"
      by (rule find_walk_spec) (use lv lim sz k c fuel x after False Cons in \<open>auto simp: fits_def\<close>)
    then show ?thesis using x False Cons by (simp add: find_resource_def do_find_resource_def)
  next
    case True
    show ?thesis
    proof (cases "r_end (h ! x) = r_end (h ! q)")
      case whole: True
      have "suf = []" using after whole by (cases suf) auto
      moreover have "\<not> fits h q xs k sz lo hi s" for s
        using True whole x sz(1) Cons by (auto simp: fits_def)
      moreover have "\<exists>r. find_walk (store_fuel h) h q None (r_flags (h ! new)) sz c (u64_add (r_end (h ! x)) 1) None = Inr r"
        by (auto simp: store_fuel_def Let_def split: option.split)
      ultimately show ?thesis using Cons True whole x sib by (auto simp: find_resource_def do_find_resource_def)
    next
      case False
      then have e: "u64_add (r_end (h ! x)) 1 = r_end (h ! x) + 1" "r_end (h ! x) + 1 < u64_lim"
        using x lim(1) by (simp_all add: u64_add_eq)
      have "\<exists>r. find_walk (store_fuel h) h q None (r_flags (h ! new)) sz c (r_end (h ! x) + 1) (case suf of [] \<Rightarrow> None | x # _ \<Rightarrow> Some x) = Inr r \<and>
          first_fit h q ([x] @ suf) k sz lo hi r"
        by (rule find_walk_spec) (use lv lim sz k c fuel x after True e Cons in \<open>auto simp: fits_def\<close>)
      then show ?thesis using x True e sib Cons by (simp add: find_resource_def do_find_resource_def) blast
    qed
  qed
qed

lemma forest_frame:
  assumes "forest h N kids" "length h' = length h" "\<And>r. r \<in> N \<Longrightarrow> h' ! r = h ! r"
  shows "forest h' N kids"
proof -
  obtain rank :: "nat \<Rightarrow> nat" where rank: "\<forall>r\<in>N. \<forall>x\<in>set (kids r). rank x < rank r" using forest_rank [OF assms(1)] .
  moreover have "level h' r (kids r)" if r: "r \<in> N" for r
  proof (rule iffD2 [OF level_cong forestD(1) [OF assms(1) r]])
    have "x \<in> N" if "x = r \<or> x \<in> set (kids r)" for x using that r forestD(2) [OF assms(1) r] by auto
    then show "r_start (h' ! x) = r_start (h ! x)" "r_end (h' ! x) = r_end (h ! x)" if "x = r \<or> x \<in> set (kids r)" for x
      using that assms(3) by simp_all
    show "r_sibling (h' ! x) = r_sibling (h ! x) \<and> r_parent (h' ! x) = r_parent (h ! x)" if "x \<in> set (kids r)" for x
      using that forestD(2) [OF assms(1) r] assms(3) by auto
  qed (use assms(2,3) r in simp_all)
  moreover have "p \<in> N \<and> x \<in> set (kids p)" if "x \<in> N" "r_parent (h' ! x) = Some p" for x p
    using that assms(3) forest_parent [OF assms(1), of x p] by simp
  ultimately show ?thesis unfolding forest_def using forestD(2) [OF assms(1)] by blast
qed

lemma allocate_resource_run:
  assumes "r_parent (h ! new) = None"
  shows "allocate_resource h q new sz lo hi align None =
    run_bind (find_resource h q new sz \<lparr>c_min = lo, c_max = hi, c_align = align, c_alignf = simple_align_resource\<rparr>)
      (\<lambda>slot. case slot of
         None \<Rightarrow> Inr (h, - EBUSY)
       | Some (a, b) \<Rightarrow> run_bind (do_request_resource (set_range h new a b) q new)
           (\<lambda>(h', conflict). Inr (h', if conflict \<noteq> None then - EBUSY else 0)))"
  unfolding allocate_resource_def Let_def using assms by (simp only: option.case not_True_eq_False refl if_False)

text \<open>
  C4: \<open>allocate_resource\<close> for a resource that is not in the tree yet is a first-fit search.  If there
  is an aligned place of the wanted size within the bounds, inside the root and clear of its children,
  the call returns 0 and the resource is linked at the lowest such place, with the tree intact.  If
  there is none, the call returns \<open>- EBUSY\<close> and no cell but that of the resource has changed.
\<close>

theorem allocate_resource_first_fit:
  assumes f: "forest h N kids" "q \<in> N" and new: "new \<notin> N" "new < length h" "r_child (h ! new) = None" "r_parent (h ! new) = None"
    and lim: "r_end (h ! q) < u64_lim" "lo < u64_lim" and sz: "0 < sz" "sz < u64_lim" and k: "k < 64"
  shows "if \<exists>s. fits h q (kids q) k sz lo hi s
    then \<exists>h' s kids'. allocate_resource h q new sz lo hi (2 ^ k) None = Inr (h', 0) \<and>
      fits h q (kids q) k sz lo hi s \<and> (\<forall>s'. fits h q (kids q) k sz lo hi s' \<longrightarrow> s \<le> s') \<and>
      r_start (h' ! new) = s \<and> r_end (h' ! new) = s + sz - 1 \<and>
      new \<in> set (kids' q) \<and> forest h' (insert new N) kids'
    else \<exists>h'. allocate_resource h q new sz lo hi (2 ^ k) None = Inr (h', - EBUSY) \<and> (\<forall>r. r \<noteq> new \<longrightarrow> h' ! r = h ! r)"
proof -
  note run = allocate_resource_run [OF new(4), of q sz lo hi "2 ^ k"]
  let ?c = "\<lparr>c_min = lo, c_max = hi, c_align = 2 ^ k, c_alignf = simple_align_resource\<rparr>"
  from find_resource_spec [OF forestD(1) [OF f] lim sz k refl, of new hi] obtain r where
    r: "find_resource h q new sz ?c = Inr r"
       "first_fit h q (kids q) k sz lo hi r \<or>
        (\<exists>x. kids q = [x] \<and> r_start (h ! x) = r_start (h ! q) \<and> r_end (h ! x) = r_end (h ! q) \<and> (\<forall>s. \<not> fits h q (kids q) k sz lo hi s))"
    by blast
  have set: "forest (set_range h new a b) N kids" "new < length (set_range h new a b)" "r_child (set_range h new a b ! new) = None" for a b
    using new(1-3) forest_frame [OF f(1), of "set_range h new a b"] by (auto simp: store_simps) (metis nth_list_update_neq set_range_def)
  have other: "set_range h new a b ! y = h ! y" if "y \<noteq> new" for a b y using that by (simp add: set_range_def)
  have qn: "q \<noteq> new" "new \<notin> set (kids q)" using f(2) new(1) forestD(2) [OF f] by auto
  note req = forest_request [OF set(1) f(2) new(1) set(2,3)]
  show ?thesis
  proof (cases "\<exists>s. fits h q (kids q) k sz lo hi s")
    case True
    then obtain a where a: "r = Some (a, a + sz - 1)" "fits h q (kids q) k sz lo hi a" "\<forall>s'. fits h q (kids q) k sz lo hi s' \<longrightarrow> a \<le> s'"
      using r(2) by (auto simp: first_fit_def split: option.splits)
    let ?h = "set_range h new a (a + sz - 1)"
    have "in_range ?h q new \<and> (\<forall>x\<in>set (kids q). disjoint_res ?h x new)"
    proof -
      have "\<forall>x\<in>set (kids q). x \<noteq> new" using qn by auto
      then show ?thesis using a(2) qn new(2) sz(1) by (auto simp: fits_def in_range_def disjoint_res_def store_simps)
    qed
    with req [of a "a + sz - 1"] obtain h' pre suf where h': "do_request_resource ?h q new = Inr (h', None)" "same_ranges ?h h'"
        "forest h' (insert new N) (kids(q := pre @ new # suf, new := []))" by auto
    have "allocate_resource h q new sz lo hi (2 ^ k) None = Inr (h', 0)" using run r(1) a(1) h'(1) by simp
    moreover have "r_start (h' ! new) = a" "r_end (h' ! new) = a + sz - 1"
      using h'(2) new(2) by (simp_all add: same_ranges_def store_simps)
    moreover have "new \<in> set ((kids(q := pre @ new # suf, new := [])) q)" using qn by simp
    ultimately show ?thesis unfolding if_P [OF True] using a(2,3) h'(3) by blast
  next
    case False
    have "\<exists>h'. allocate_resource h q new sz lo hi (2 ^ k) None = Inr (h', - EBUSY) \<and> (\<forall>r. r \<noteq> new \<longrightarrow> h' ! r = h ! r)"
    proof (cases r)
      case None
      then show ?thesis using run r(1) by auto
    next
      case (Some ab)
      then obtain a b where ab: "r = Some (a, b)" by (cases ab) auto
      then obtain x where x: "kids q = [x]" "r_start (h ! x) = r_start (h ! q)" "r_end (h ! x) = r_end (h ! q)"
        using r(2) False by (auto simp: first_fit_def)
      have "\<not> (in_range (set_range h new a b) q new \<and> (\<forall>x\<in>set (kids q). disjoint_res (set_range h new a b) x new))"
        using x qn new(2) by (auto simp: in_range_def disjoint_res_def store_simps)
      with req [of a b] obtain c where "do_request_resource (set_range h new a b) q new = Inr (set_range h new a b, Some c)" by auto
      then show ?thesis using run r(1) ab other by auto
    qed
    then show ?thesis using False by simp
  qed
qed

theorem allocate_resource_first_fit_witness:
  "(\<exists>h'. allocate_resource demo_store 0 4 0x100 0x180 0xfff (2 ^ 8) None = Inr (h', 0) \<and> r_start (h' ! 4) = 0x200) \<and>
    (\<exists>h'. allocate_resource demo_store 0 4 0x300 0 0x6ff (2 ^ 8) None = Inr (h', - EBUSY))"
proof -
  have p: "r_parent (demo_store ! 4) = None" by (simp add: demo_store_def demo_cell_def null_resource_def)
  have l: "r_end (demo_store ! 0) < u64_lim" "(0x180::nat) < u64_lim" "(0::nat) < u64_lim" "(0x100::nat) < u64_lim" "(0x300::nat) < u64_lim"
    by (simp_all add: demo_fields u64_lim_def)
  note A = allocate_resource_first_fit [OF demo_forest demo_new(1,2,5) demo_fields(2) p l(1)]
  have fit: "fits demo_store 0 (demo_kids 0) 8 0x100 0x180 0xfff s \<longleftrightarrow>
      2 ^ 8 dvd s \<and> 0x180 \<le> s \<and> s + 0x100 - 1 \<le> 0xfff \<and> (0x1ff < s \<or> s + 0x100 - 1 < 0x100) \<and> (0x7ff < s \<or> s + 0x100 - 1 < 0x400)" for s
    by (auto simp: fits_def demo_kids_def demo_store_def demo_cell_def)
  have yes: "fits demo_store 0 (demo_kids 0) 8 0x100 0x180 0xfff 0x200" unfolding fit by simp
  have least: "0x200 \<le> s" if "fits demo_store 0 (demo_kids 0) 8 0x100 0x180 0xfff s" for s using that unfolding fit by linarith
  have no: "\<not> (\<exists>s. fits demo_store 0 (demo_kids 0) 8 0x300 0 0x6ff s)"
    by (auto simp: fits_def demo_kids_def demo_store_def demo_cell_def)
  have "\<exists>h' s. allocate_resource demo_store 0 4 0x100 0x180 0xfff (2 ^ 8) None = Inr (h', 0) \<and>
      fits demo_store 0 (demo_kids 0) 8 0x100 0x180 0xfff s \<and>
      (\<forall>s'. fits demo_store 0 (demo_kids 0) 8 0x100 0x180 0xfff s' \<longrightarrow> s \<le> s') \<and> r_start (h' ! 4) = s"
    using A [OF l(2) _ l(4), of 8 "0xfff"] yes by (auto split: if_splits)
  then have "\<exists>h'. allocate_resource demo_store 0 4 0x100 0x180 0xfff (2 ^ 8) None = Inr (h', 0) \<and> r_start (h' ! 4) = 0x200"
    using yes least by (metis le_antisym)
  moreover have "\<exists>h'. allocate_resource demo_store 0 4 0x300 0 0x6ff (2 ^ 8) None = Inr (h', - EBUSY)"
    using A [OF l(3) _ l(5), of 8 "0x6ff"] no by (auto split: if_splits)
  ultimately show ?thesis by blast
qed

end
