(* ===== verification/Resource_Region.thy ===== *)
theory Resource_Region
  imports Resource_Alloc
begin

text \<open>
  Regions: the part of \<^verbatim>\<open>kernel/resource.c\<close> that allocates the resource structures itself.  The state
  is the store with the list \<^verbatim>\<open>bootmem_resource_free\<close>, which runs through the \<^verbatim>\<open>sibling\<close> fields.

  The slab allocator is not part of these sources: \<open>sl_kzalloc\<close> tells which cell \<^verbatim>\<open>kzalloc\<close> hands out
  in a state, if any, and \<open>sl_PageSlab\<close> which cells it owns.  \<^verbatim>\<open>kfree\<close> leaves the store alone.

  A caller of \<^verbatim>\<open>__request_region\<close> that has to sleep for a muxed region is the answer \<open>Waiting\<close>, with the
  local variables of the loop; the loop goes on from there when it is woken up.
\<close>

record pool =
  p_store :: rstore
  bootmem_resource_free :: "nat option"

record slab =
  sl_kzalloc :: "rstore \<Rightarrow> nat option"
  sl_PageSlab :: "nat \<Rightarrow> bool"

datatype region_answer = Granted nat | Refused | Waiting nat nat

definition free_resource :: "slab \<Rightarrow> pool \<Rightarrow> nat option \<Rightarrow> pool" where
  "free_resource env s res =
    (case res of
       None \<Rightarrow> s
     | Some r \<Rightarrow>
         if \<not> sl_PageSlab env r
         then s\<lparr>p_store := assign (p_store s) (SiblingOf r) (bootmem_resource_free s), bootmem_resource_free := Some r\<rparr>
         else s)"

definition alloc_resource :: "slab \<Rightarrow> pool \<Rightarrow> pool \<times> nat option" where
  "alloc_resource env s =
    (case bootmem_resource_free s of
       Some r \<Rightarrow>
         (s\<lparr>p_store := (p_store s)[r := null_resource], bootmem_resource_free := r_sibling (p_store s ! r)\<rparr>, Some r)
     | None \<Rightarrow>
         (case sl_kzalloc env (p_store s) of
            None \<Rightarrow> (s, None)
          | Some r \<Rightarrow> (s\<lparr>p_store := (p_store s)[r := null_resource]\<rparr>, Some r)))"

subsection \<open>Requesting a region\<close>

definition region_flags :: "resource \<Rightarrow> nat \<Rightarrow> nat" where
  "region_flags parent flags =
    (resource_type parent OR resource_ext_type parent) OR (IORESOURCE_BUSY OR flags)"

primrec region_loop :: "nat \<Rightarrow> slab \<Rightarrow> pool \<Rightarrow> nat \<Rightarrow> nat \<Rightarrow> nat \<Rightarrow> (pool \<times> region_answer) run" where
  "region_loop 0 env s parent res flags = Inl No_fuel"
| "region_loop (Suc fuel) env s parent res flags =
    (let h = p_store s;
         h1 = h[res := (h ! res)\<lparr>r_flags := region_flags (h ! parent) flags, r_desc := r_desc (h ! parent)\<rparr>]
     in run_bind (do_request_resource h1 parent res)
          (\<lambda>(h2, conflict).
             let s2 = s\<lparr>p_store := h2\<rparr> in
             case conflict of
               None \<Rightarrow> Inr (s2, Granted res)
             | Some c \<Rightarrow>
                 if c \<noteq> parent \<and> r_flags (h2 ! c) AND IORESOURCE_BUSY = 0 then region_loop fuel env s2 c res flags
                 else if r_flags (h2 ! c) AND flags AND IORESOURCE_MUXED \<noteq> 0 then Inr (s2, Waiting parent res)
                 else Inr (free_resource env s2 (Some res), Refused)))"

definition request_region ::
  "slab \<Rightarrow> pool \<Rightarrow> nat \<Rightarrow> u64 \<Rightarrow> u64 \<Rightarrow> string \<Rightarrow> nat \<Rightarrow> (pool \<times> region_answer) run" where
  "request_region env s parent start n name flags =
    (case alloc_resource env s of
       (s1, None) \<Rightarrow> Inr (s1, Refused)
     | (s1, Some res) \<Rightarrow>
         let h = p_store s1;
             h1 = h[res := (h ! res)\<lparr>r_name := name, r_start := start, r_end := u64_sub (u64_add start n) 1\<rparr>]
         in region_loop (store_fuel h) env (s1\<lparr>p_store := h1\<rparr>) parent res flags)"

subsection \<open>Releasing a region\<close>

text \<open>The flag tells whether a region was released; without one the kernel prints a warning.\<close>

primrec release_region_walk :: "nat \<Rightarrow> slab \<Rightarrow> pool \<Rightarrow> u64 \<Rightarrow> u64 \<Rightarrow> link \<Rightarrow> (pool \<times> bool) run" where
  "release_region_walk 0 env s start end p = Inl No_fuel"
| "release_region_walk (Suc fuel) env s start end p =
    (let h = p_store s in
     case deref h p of
       None \<Rightarrow> Inr (s, False)
     | Some res \<Rightarrow>
         if r_start (h ! res) \<le> start \<and> r_end (h ! res) \<ge> end then
           if r_flags (h ! res) AND IORESOURCE_BUSY = 0 then release_region_walk fuel env s start end (ChildOf res)
           else if r_start (h ! res) \<noteq> start \<or> r_end (h ! res) \<noteq> end then Inr (s, False)
           else Inr (free_resource env (s\<lparr>p_store := assign h p (r_sibling (h ! res))\<rparr>) (Some res), True)
         else release_region_walk fuel env s start end (SiblingOf res))"

definition release_region :: "slab \<Rightarrow> pool \<Rightarrow> nat \<Rightarrow> u64 \<Rightarrow> u64 \<Rightarrow> (pool \<times> bool) run" where
  "release_region env s parent start n =
    release_region_walk (store_fuel (p_store s)) env s start (u64_sub (u64_add start n) 1) (ChildOf parent)"

subsection \<open>Releasing part of a memory region\<close>

text \<open>The target has been found behind the link \<open>p\<close>; the last component is \<^verbatim>\<open>new_res\<close> afterwards.\<close>

definition release_adjust ::
  "slab \<Rightarrow> pool \<Rightarrow> u64 \<Rightarrow> u64 \<Rightarrow> link \<Rightarrow> nat \<Rightarrow> nat option \<Rightarrow> (pool \<times> int \<times> nat option) run" where
  "release_adjust env s start end p res new_res =
    (let h = p_store s in
     if r_start (h ! res) = start \<and> r_end (h ! res) = end then
       Inr (free_resource env (s\<lparr>p_store := assign h p (r_sibling (h ! res))\<rparr>) (Some res), 0, new_res)
     else if r_start (h ! res) = start \<and> r_end (h ! res) \<noteq> end then
       run_bind (do_adjust_resource h res (u64_add end 1) (u64_sub (r_end (h ! res)) end))
         (\<lambda>(h1, ret). Inr (s\<lparr>p_store := h1\<rparr>, ret, new_res))
     else if r_start (h ! res) \<noteq> start \<and> r_end (h ! res) = end then
       run_bind (do_adjust_resource h res (r_start (h ! res)) (u64_sub start (r_start (h ! res))))
         (\<lambda>(h1, ret). Inr (s\<lparr>p_store := h1\<rparr>, ret, new_res))
     else
       case new_res of
         None \<Rightarrow> Inr (s, - ENOMEM, new_res)
       | Some new \<Rightarrow>
           let h1 = h[new := (h ! new)\<lparr>r_name := r_name (h ! res), r_start := u64_add end 1, r_end := r_end (h ! res),
                       r_flags := r_flags (h ! res), r_desc := r_desc (h ! res), r_parent := r_parent (h ! res),
                       r_sibling := r_sibling (h ! res), r_child := None\<rparr>]
           in run_bind (do_adjust_resource h1 res (r_start (h ! res)) (u64_sub start (r_start (h ! res))))
                (\<lambda>(h2, ret).
                   if ret \<noteq> 0 then Inr (s\<lparr>p_store := h2\<rparr>, ret, new_res)
                   else Inr (s\<lparr>p_store := assign h2 (SiblingOf res) (Some new)\<rparr>, ret, None)))"

primrec adjustable_walk ::
  "nat \<Rightarrow> slab \<Rightarrow> pool \<Rightarrow> u64 \<Rightarrow> u64 \<Rightarrow> link \<Rightarrow> nat option \<Rightarrow> (pool \<times> int \<times> nat option) run" where
  "adjustable_walk 0 env s start end p new_res = Inl No_fuel"
| "adjustable_walk (Suc fuel) env s start end p new_res =
    (let h = p_store s in
     case deref h p of
       None \<Rightarrow> Inr (s, - EINVAL, new_res)
     | Some res \<Rightarrow>
         if r_start (h ! res) \<ge> end then Inr (s, - EINVAL, new_res)
         else if r_start (h ! res) > start \<or> r_end (h ! res) < end then
           adjustable_walk fuel env s start end (SiblingOf res) new_res
         else if r_flags (h ! res) AND IORESOURCE_SYSRAM = 0 then Inr (s, 0, new_res)
         else if r_flags (h ! res) AND IORESOURCE_MEM = 0 then Inr (s, - EINVAL, new_res)
         else if r_flags (h ! res) AND IORESOURCE_BUSY = 0 then
           adjustable_walk fuel env s start end (ChildOf res) new_res
         else release_adjust env s start end p res new_res)"

definition release_mem_region_adjustable :: "slab \<Rightarrow> pool \<Rightarrow> nat \<Rightarrow> u64 \<Rightarrow> u64 \<Rightarrow> (pool \<times> int) run" where
  "release_mem_region_adjustable env s parent start sz =
    (let end = u64_sub (u64_add start sz) 1 in
     if start < r_start (p_store s ! parent) \<or> end > r_end (p_store s ! parent) then Inr (s, - EINVAL)
     else
       let (s1, new_res) = alloc_resource env s in
       run_bind (adjustable_walk (store_fuel (p_store s1)) env s1 start end (ChildOf parent) new_res)
         (\<lambda>(s2, ret, new_res'). Inr (free_resource env s2 new_res', ret)))"

subsection \<open>Reserving around what is there\<close>

definition busy_cell :: "rstore \<Rightarrow> nat \<Rightarrow> string \<Rightarrow> u64 \<Rightarrow> u64 \<Rightarrow> nat \<Rightarrow> rstore" where
  "busy_cell h r name start end type =
    h[r := (h ! r)\<lparr>r_name := name, r_start := start, r_end := end, r_flags := type OR IORESOURCE_BUSY, r_desc := IORES_DESC_NONE\<rparr>]"

primrec split_loop :: "nat \<Rightarrow> slab \<Rightarrow> pool \<Rightarrow> nat \<Rightarrow> string \<Rightarrow> nat \<Rightarrow> nat \<Rightarrow> nat option \<Rightarrow> pool run" where
  "split_loop 0 env s parent name type res next_res = Inl No_fuel"
| "split_loop (Suc fuel) env s parent name type res next_res =
    run_bind (do_request_resource (p_store s) parent res)
      (\<lambda>(h, conflict).
         let s1 = s\<lparr>p_store := h\<rparr> in
         case conflict of
           None \<Rightarrow> (case next_res of None \<Rightarrow> Inr s1 | Some r \<Rightarrow> split_loop fuel env s1 parent name type r None)
         | Some c \<Rightarrow>
             if r_start (h ! c) \<le> r_start (h ! res) \<and> r_end (h ! c) \<ge> r_end (h ! res)
             then Inr (free_resource env s1 (Some res))
             else if r_start (h ! c) > r_start (h ! res) then
               let end = r_end (h ! res);
                   s2 = s1\<lparr>p_store := set_range h res (r_start (h ! res)) (u64_sub (r_start (h ! c)) 1)\<rparr>
               in if r_end (h ! c) < end then
                    (case alloc_resource env s2 of
                       (s3, None) \<Rightarrow> Inr (free_resource env s3 (Some res))
                     | (s3, Some r) \<Rightarrow>
                         split_loop fuel env
                           (s3\<lparr>p_store := busy_cell (p_store s3) r name (u64_add (r_end (p_store s3 ! c)) 1) end type\<rparr>)
                           parent name type res (Some r))
                  else split_loop fuel env s2 parent name type res next_res
             else split_loop fuel env
                    (s1\<lparr>p_store := set_range h res (u64_add (r_end (h ! c)) 1) (r_end (h ! res))\<rparr>)
                    parent name type res next_res)"

definition do_reserve_region_with_split :: "slab \<Rightarrow> pool \<Rightarrow> nat \<Rightarrow> u64 \<Rightarrow> u64 \<Rightarrow> string \<Rightarrow> pool run" where
  "do_reserve_region_with_split env s root start end name =
    (let type = resource_type (p_store s ! root) in
     case alloc_resource env s of
       (s1, None) \<Rightarrow> Inr s1
     | (s1, Some res) \<Rightarrow>
         split_loop (3 * store_fuel (p_store s)) env (s1\<lparr>p_store := busy_cell (p_store s1) res name start end type\<rparr>)
           root name type res None)"

definition reserve_region_with_split :: "slab \<Rightarrow> pool \<Rightarrow> nat \<Rightarrow> u64 \<Rightarrow> u64 \<Rightarrow> string \<Rightarrow> pool run" where
  "reserve_region_with_split env s root start end name =
    (let r = p_store s ! root in
     if r_start r > start \<or> r_end r < end then
       if start > r_end r \<or> end < r_start r then Inr s
       else do_reserve_region_with_split env s root (if start < r_start r then r_start r else start)
              (if end > r_end r then r_end r else end) name
     else do_reserve_region_with_split env s root start end name)"

subsection \<open>Round trip\<close>

lemma region_flags_busy: "region_flags parent flags AND IORESOURCE_BUSY \<noteq> 0"
proof -
  have b: "IORESOURCE_BUSY = 2 ^ 31" by (simp add: IORESOURCE_BUSY_def)
  have set: "bit (region_flags parent flags AND IORESOURCE_BUSY) 31"
    unfolding region_flags_def bit_and_iff bit_or_iff b bit_exp_iff by simp
  show ?thesis
  proof
    assume "region_flags parent flags AND IORESOURCE_BUSY = 0"
    then have "bit (0::nat) 31" using set by (simp only:)
    then show False by simp
  qed
qed

lemma release_region_walk_spec:
  assumes "level (p_store s) root (pre @ skip @ res # suf)" "length skip < fuel"
    and "\<forall>x\<in>set skip. \<not> (r_start (p_store s ! x) \<le> start \<and> r_end (p_store s ! x) \<ge> end)"
    and "r_flags (p_store s ! res) AND IORESOURCE_BUSY \<noteq> 0" "r_start (p_store s ! res) = start" "r_end (p_store s ! res) = end"
  shows "release_region_walk fuel env s start end (link_after root pre) =
    Inr (free_resource env (s\<lparr>p_store := assign (p_store s) (link_after root (pre @ skip)) (r_sibling (p_store s ! res))\<rparr>) (Some res), True)"
  using assms
proof (induction skip arbitrary: pre fuel)
  case Nil
  then obtain f where "fuel = Suc f" by (cases fuel) auto
  then show ?case using level_deref [OF Nil.prems(1)] Nil.prems by (simp add: Let_def)
next
  case (Cons x skip)
  then obtain f where f: "fuel = Suc f" by (cases fuel) auto
  have d: "deref (p_store s) (link_after root pre) = Some x" using level_deref [OF Cons.prems(1)] by simp
  have "link_after root (pre @ [x]) = SiblingOf x" by (simp add: link_after_def)
  moreover have nc: "\<not> (r_start (p_store s ! x) \<le> start \<and> r_end (p_store s ! x) \<ge> end)" using Cons.prems(3) by simp
  moreover have "release_region_walk fuel env s start end (link_after root pre) = release_region_walk f env s start end (SiblingOf x)"
    unfolding f release_region_walk.simps Let_def d option.case if_not_P [OF nc] ..
  ultimately show ?case using Cons.IH [of "pre @ [x]" f] Cons.prems f by simp
qed

text \<open>
  The store a request puts into the tree: the cell from the allocator with its name, range, flags
  and descriptor.
\<close>

definition region_cell :: "rstore \<Rightarrow> nat \<Rightarrow> string \<Rightarrow> u64 \<Rightarrow> u64 \<Rightarrow> nat \<Rightarrow> resource" where
  "region_cell h parent name start end flags =
    null_resource\<lparr>r_name := name, r_start := start, r_end := end,
      r_flags := region_flags (h ! parent) flags, r_desc := r_desc (h ! parent)\<rparr>"

lemma alloc_resource_cell:
  assumes "alloc_resource env s = (s1, Some new)" "new < length (p_store s)"
  shows "p_store s1 = (p_store s)[new := null_resource]"
  using assms by (auto simp: alloc_resource_def split: option.splits)

lemma request_region_run:
  assumes "alloc_resource env s = (s1, Some new)" "new < length (p_store s)" "parent \<noteq> new" "0 < n" "start + n \<le> u64_lim"
    and "do_request_resource ((p_store s)[new := region_cell (p_store s) parent name start (start + n - 1) flags]) parent new = Inr (h', None)"
  shows "request_region env s parent start n name flags = Inr (s1\<lparr>p_store := h'\<rparr>, Granted new)"
proof -
  have "request_region env s parent start n name flags = region_loop (Suc (length (p_store s))) env
      (s1\<lparr>p_store := (p_store s)[new := null_resource\<lparr>r_name := name, r_start := start, r_end := start + n - 1\<rparr>]\<rparr>) parent new flags"
    unfolding request_region_def assms(1) u64_last [OF assms(4,5)] using alloc_resource_cell [OF assms(1,2)] assms(2)
    by (simp add: store_fuel_def Let_def del: region_loop.simps)
  then show ?thesis using assms(2,3,6) by (simp add: Let_def region_cell_def)
qed

text \<open>
  C38: a region that is free inside its parent is granted, as a busy resource of the type of the
  parent with exactly the wanted range, and releasing it with the same numbers takes it out again:
  afterwards every cell but that of the region is as it was before the request.
\<close>

theorem request_release_region_roundtrip:
  assumes f: "forest (p_store s) N kids" "q \<in> N"
    and new: "alloc_resource env s = (s1, Some new)" "new \<notin> N" "new < length (p_store s)"
    and n: "0 < n" "start + n \<le> u64_lim"
    and rng: "r_start (p_store s ! q) \<le> start" "start + n - 1 \<le> r_end (p_store s ! q)"
      "\<forall>x\<in>set (kids q). r_end (p_store s ! x) < start \<or> start + n - 1 < r_start (p_store s ! x)"
  shows "\<exists>s2 s3. request_region env s q start n name flags = Inr (s2, Granted new) \<and>
    r_start (p_store s2 ! new) = start \<and> r_end (p_store s2 ! new) = start + n - 1 \<and> r_parent (p_store s2 ! new) = Some q \<and>
    r_flags (p_store s2 ! new) = region_flags (p_store s ! q) flags \<and>
    release_region env s2 q start n = Inr (s3, True) \<and>
    length (p_store s3) = length (p_store s) \<and> (\<forall>r. r \<noteq> new \<longrightarrow> p_store s3 ! r = p_store s ! r)"
proof -
  let ?h = "p_store s" and ?e = "start + n - 1"
  let ?h1 = "?h[new := region_cell ?h q name start ?e flags]"
  have f1: "forest ?h1 N kids" by (rule forest_frame [OF f(1)]) (use new(2) in \<open>auto simp: nth_update\<close>)
  have qn: "q \<noteq> new" "new \<noteq> q" "new \<notin> set (kids q)" using f(2) new(2) forestD(2) [OF f] by auto
  have l1: "new < length ?h1" using new(3) by simp
  have cell: "?h1 ! new = region_cell ?h q name start ?e flags" using new(3) by simp
  have same: "x \<noteq> new \<Longrightarrow> ?h1 ! x = ?h ! x" for x by simp
  have "in_range ?h1 q new \<and> (\<forall>x\<in>set (kids q). disjoint_res ?h1 x new)"
  proof -
    have "\<forall>x\<in>set (kids q). ?h1 ! x = ?h ! x" using qn same by metis
    then show ?thesis using rng n(1) same [OF qn(1)] unfolding in_range_def disjoint_res_def cell
      by (simp add: region_cell_def)
  qed
  with do_request_resource_spec [OF forestD(1) [OF f1 f(2)] l1 qn(2,3)] obtain pre suf where
    ps: "kids q = pre @ suf" "do_request_resource ?h1 q new = Inr (link_resource ?h1 q new (link_after q pre), None)"
      "level (link_resource ?h1 q new (link_after q pre)) q (pre @ new # suf)" by auto
  define h2 where "h2 = link_resource ?h1 q new (link_after q pre)"
  note lv2 = ps(3) [folded h2_def]
  have lv: "level ?h1 q (pre @ suf)" using forestD(1) [OF f1 f(2)] ps(1) by simp
  have ne: "link_after q pre \<noteq> SiblingOf new" using qn(3) ps(1) by (auto simp: link_after_def dest: last_in_set)
  note F = link_resource_fields [OF l1 level_deref [OF lv] ne, where root = q, folded h2_def]
  have fl: "r_flags (h2 ! x) = r_flags (?h1 ! x)" for x by (simp add: h2_def link_resource_def Let_def store_simps)
  have at: "r_start (h2 ! new) = start" "r_end (h2 ! new) = ?e" "r_parent (h2 ! new) = Some q" "r_flags (h2 ! new) = region_flags (?h ! q) flags"
    unfolding F fl cell by (simp_all add: region_cell_def)
  let ?s2 = "s1\<lparr>p_store := h2\<rparr>"
  have req: "request_region env s q start n name flags = Inr (?s2, Granted new)"
    using request_region_run [OF new(1,3) qn(1) n] ps(2) by (simp add: h2_def)
  let ?h3 = "assign h2 (link_after q pre) (r_sibling (h2 ! new))"
  have rel: "release_region env ?s2 q start n = Inr (free_resource env (?s2\<lparr>p_store := ?h3\<rparr>) (Some new), True)"
  proof -
    have "\<forall>x\<in>set pre. \<not> (r_start (h2 ! x) \<le> start \<and> r_end (h2 ! x) \<ge> ?e)"
    proof
      fix x
      assume "x \<in> set pre"
      then have "res_before h2 x new" using lv2 by (auto simp: level_def sorted_wrt_append)
      then show "\<not> (r_start (h2 ! x) \<le> start \<and> r_end (h2 ! x) \<ge> ?e)"
        using n(1) at by (auto simp: res_before_def)
    qed
    moreover have "length pre < store_fuel h2" using level_fuel [OF lv2] by simp
    moreover have "r_flags (h2 ! new) AND IORESOURCE_BUSY \<noteq> 0" unfolding fl cell by (simp add: region_cell_def region_flags_busy)
    moreover note at(1,2)
    ultimately show ?thesis
      unfolding release_region_def u64_last [OF n]
      using release_region_walk_spec [of ?s2 q "[]" pre new suf "store_fuel h2" start ?e env] lv2 by (simp add: link_after_def)
  qed
  have restored: "?h3 ! r = ?h ! r" if "r \<noteq> new" for r
  proof -
    have "r_sibling (h2 ! new) = deref ?h1 (link_after q pre)" using F(5) [of new] level_deref [OF lv] by simp
    then show ?thesis using that ne same [OF that]
      by (cases "link_after q pre") (auto simp: h2_def link_resource_def Let_def assign.simps set_parent_def nth_update)
  qed
  let ?s3 = "free_resource env (?s2\<lparr>p_store := ?h3\<rparr>) (Some new)"
  have "p_store ?s3 ! r = ?h3 ! r" if "r \<noteq> new" for r using that by (simp add: free_resource_def assign.simps)
  moreover have "length (p_store ?s3) = length ?h" by (simp add: free_resource_def F)
  moreover note at
  ultimately show ?thesis using req rel restored by (intro exI [of _ ?s2] exI [of _ ?s3]) simp
qed

definition demo_slab :: slab where
  "demo_slab = \<lparr>sl_kzalloc = (\<lambda>h. Some 5), sl_PageSlab = (\<lambda>r. r \<noteq> 4)\<rparr>"

definition demo_pool :: pool where
  "demo_pool = \<lparr>p_store = demo_store, bootmem_resource_free = Some 4\<rparr>"

theorem request_release_region_roundtrip_witness:
  "\<exists>s2 s3. request_region demo_slab demo_pool 0 0x200 0x80 ''uart'' 0 = Inr (s2, Granted 4) \<and>
    release_region demo_slab s2 0 0x200 0x80 = Inr (s3, True) \<and> (\<forall>r. r \<noteq> 4 \<longrightarrow> p_store s3 ! r = demo_store ! r)"
proof -
  have st: "p_store demo_pool = demo_store" by (simp add: demo_pool_def)
  have a: "alloc_resource demo_slab demo_pool = (demo_pool\<lparr>p_store := demo_store[4 := null_resource], bootmem_resource_free := None\<rparr>, Some 4)"
    by (simp add: alloc_resource_def demo_pool_def demo_store_def demo_cell_def null_resource_def)
  have f: "forest (p_store demo_pool) {0, 1, 2, 3} demo_kids" "4 < length (p_store demo_pool)" using demo_forest demo_new(5) st by simp_all
  have n: "0 < (0x80::nat)" "0x200 + 0x80 \<le> u64_lim" by (simp_all add: u64_lim_def)
  have r: "r_start (p_store demo_pool ! 0) \<le> 0x200" "0x200 + 0x80 - 1 \<le> r_end (p_store demo_pool ! 0)"
    "\<forall>x\<in>set (demo_kids 0). r_end (p_store demo_pool ! x) < 0x200 \<or> 0x200 + 0x80 - 1 < r_start (p_store demo_pool ! x)"
    unfolding st by (simp_all add: demo_kids_def demo_store_def demo_cell_def)
  from request_release_region_roundtrip [OF f(1) demo_new(1) a demo_new(2) f(2) n r, of "''uart''" 0]
  show ?thesis unfolding st by blast
qed

end
