(* ===== verification/Resource_Walk.thy ===== *)
theory Resource_Walk
  imports Resource_Ops
begin

text \<open>
  Reading the tree: the iterators of \<^verbatim>\<open>kernel/resource.c\<close> over \<^verbatim>\<open>iomem_resource\<close>, whose cell is the
  argument \<open>iomem\<close> of the model.  A callback with its \<^verbatim>\<open>arg\<close> is a function from the state of the
  caller to the answer and the new state.  The result buffers of \<^verbatim>\<open>find_next_iomem_res\<close> are never
  \<^verbatim>\<open>NULL\<close> in this file, so the check for it has no counterpart.
\<close>

definition PAGE_SHIFT :: nat where "PAGE_SHIFT = 12"

primrec next_up :: "nat \<Rightarrow> rstore \<Rightarrow> nat \<Rightarrow> nat option run" where
  "next_up 0 h p = Inl No_fuel"
| "next_up (Suc fuel) h p =
    (case r_sibling (h ! p) of
       Some s \<Rightarrow> Inr (Some s)
     | None \<Rightarrow> (case r_parent (h ! p) of None \<Rightarrow> Inr None | Some q \<Rightarrow> next_up fuel h q))"

definition next_resource :: "rstore \<Rightarrow> nat \<Rightarrow> bool \<Rightarrow> nat option run" where
  "next_resource h p sibling_only =
    (if sibling_only then Inr (r_sibling (h ! p))
     else case r_child (h ! p) of
            Some c \<Rightarrow> Inr (Some c)
          | None \<Rightarrow> next_up (store_fuel h) h p)"

definition r_next :: "rstore \<Rightarrow> nat \<Rightarrow> nat option run" where
  "r_next h v = next_resource h v False"

text \<open>The position \<^verbatim>\<open>pos\<close> of a sequence file over the tree below \<open>p\<close>.\<close>

primrec r_start_walk :: "nat \<Rightarrow> rstore \<Rightarrow> nat option \<Rightarrow> nat option run" where
  "r_start_walk 0 h p = Inr p"
| "r_start_walk (Suc pos) h p =
    (case p of
       None \<Rightarrow> Inr None
     | Some x \<Rightarrow> run_bind (r_next h x) (r_start_walk pos h))"

definition seq_r_start :: "rstore \<Rightarrow> nat \<Rightarrow> nat \<Rightarrow> nat option run" where
  "seq_r_start h p pos = r_start_walk pos h (r_child (h ! p))"

subsection \<open>Searching\<close>

definition res_matches :: "nat \<Rightarrow> nat \<Rightarrow> resource \<Rightarrow> bool" where
  "res_matches flags desc p \<longleftrightarrow> r_flags p AND flags = flags \<and> \<not> (desc \<noteq> IORES_DESC_NONE \<and> desc \<noteq> r_desc p)"

primrec find_next_walk ::
  "nat \<Rightarrow> rstore \<Rightarrow> u64 \<Rightarrow> u64 \<Rightarrow> nat \<Rightarrow> nat \<Rightarrow> bool \<Rightarrow> nat option \<Rightarrow> nat option run" where
  "find_next_walk 0 h start end flags desc first_lvl p = Inl No_fuel"
| "find_next_walk (Suc fuel) h start end flags desc first_lvl p =
    (case p of
       None \<Rightarrow> Inr None
     | Some x \<Rightarrow>
         if res_matches flags desc (h ! x) \<and> r_start (h ! x) > end then Inr None
         else if res_matches flags desc (h ! x) \<and> r_end (h ! x) \<ge> start \<and> r_start (h ! x) \<le> end then Inr (Some x)
         else run_bind (next_resource h x first_lvl) (find_next_walk fuel h start end flags desc first_lvl))"

definition find_next_iomem_res ::
  "rstore \<Rightarrow> nat \<Rightarrow> u64 \<Rightarrow> u64 \<Rightarrow> nat \<Rightarrow> nat \<Rightarrow> bool \<Rightarrow> (int + resource) run" where
  "find_next_iomem_res h iomem start end flags desc first_lvl =
    (if start \<ge> end then Inr (Inl (- EINVAL))
     else
       run_bind (find_next_walk (store_fuel h) h start end flags desc first_lvl (r_child (h ! iomem)))
         (\<lambda>p. case p of
                None \<Rightarrow> Inr (Inl (- 1))
              | Some x \<Rightarrow>
                  Inr (Inr (null_resource\<lparr>r_start := max start (r_start (h ! x)), r_end := min end (r_end (h ! x)),
                              r_flags := r_flags (h ! x), r_desc := r_desc (h ! x)\<rparr>))))"

subsection \<open>Walking\<close>

type_synonym 's callback = "resource \<Rightarrow> 's \<Rightarrow> int \<times> 's"

primrec walk_loop ::
  "nat \<Rightarrow> rstore \<Rightarrow> nat \<Rightarrow> u64 \<Rightarrow> u64 \<Rightarrow> nat \<Rightarrow> nat \<Rightarrow> bool \<Rightarrow> 's callback \<Rightarrow> int \<Rightarrow> 's \<Rightarrow> (int \<times> 's) run" where
  "walk_loop 0 h iomem start end flags desc first_lvl func ret arg = Inl No_fuel"
| "walk_loop (Suc fuel) h iomem start end flags desc first_lvl func ret arg =
    (if \<not> start < end then Inr (ret, arg)
     else
       run_bind (find_next_iomem_res h iomem start end flags desc first_lvl)
         (\<lambda>r. case r of
                Inl e \<Rightarrow> Inr (ret, arg)
              | Inr res \<Rightarrow>
                  let (ret', arg') = func res arg in
                  if ret' \<noteq> 0 then Inr (ret', arg')
                  else walk_loop fuel h iomem (u64_add (r_end res) 1) end flags desc first_lvl func ret' arg'))"

definition do_walk_iomem_res_desc ::
  "rstore \<Rightarrow> nat \<Rightarrow> u64 \<Rightarrow> u64 \<Rightarrow> nat \<Rightarrow> nat \<Rightarrow> bool \<Rightarrow> 's \<Rightarrow> 's callback \<Rightarrow> (int \<times> 's) run" where
  "do_walk_iomem_res_desc h iomem start end flags desc first_lvl arg func =
    walk_loop (store_fuel h) h iomem start end flags desc first_lvl func (- 1) arg"

definition walk_iomem_res_desc ::
  "rstore \<Rightarrow> nat \<Rightarrow> nat \<Rightarrow> nat \<Rightarrow> u64 \<Rightarrow> u64 \<Rightarrow> 's \<Rightarrow> 's callback \<Rightarrow> (int \<times> 's) run" where
  "walk_iomem_res_desc h iomem desc flags start end arg func =
    do_walk_iomem_res_desc h iomem start end flags desc False arg func"

definition walk_system_ram_res :: "rstore \<Rightarrow> nat \<Rightarrow> u64 \<Rightarrow> u64 \<Rightarrow> 's \<Rightarrow> 's callback \<Rightarrow> (int \<times> 's) run" where
  "walk_system_ram_res h iomem start end arg func =
    do_walk_iomem_res_desc h iomem start end (IORESOURCE_SYSTEM_RAM OR IORESOURCE_BUSY) IORES_DESC_NONE True arg func"

definition walk_mem_res :: "rstore \<Rightarrow> nat \<Rightarrow> u64 \<Rightarrow> u64 \<Rightarrow> 's \<Rightarrow> 's callback \<Rightarrow> (int \<times> 's) run" where
  "walk_mem_res h iomem start end arg func =
    do_walk_iomem_res_desc h iomem start end (IORESOURCE_MEM OR IORESOURCE_BUSY) IORES_DESC_NONE True arg func"

type_synonym 's pfn_callback = "u64 \<Rightarrow> u64 \<Rightarrow> 's \<Rightarrow> int \<times> 's"

primrec ram_range_loop ::
  "nat \<Rightarrow> rstore \<Rightarrow> nat \<Rightarrow> u64 \<Rightarrow> u64 \<Rightarrow> nat \<Rightarrow> 's pfn_callback \<Rightarrow> int \<Rightarrow> 's \<Rightarrow> (int \<times> 's) run" where
  "ram_range_loop 0 h iomem start end flags func ret arg = Inl No_fuel"
| "ram_range_loop (Suc fuel) h iomem start end flags func ret arg =
    (if \<not> start < end then Inr (ret, arg)
     else
       run_bind (find_next_iomem_res h iomem start end flags IORES_DESC_NONE True)
         (\<lambda>r. case r of
                Inl e \<Rightarrow> Inr (ret, arg)
              | Inr res \<Rightarrow>
                  let pfn = drop_bit PAGE_SHIFT (u64_sub (u64_add (r_start res) PAGE_SIZE) 1);
                      end_pfn = drop_bit PAGE_SHIFT (u64_add (r_end res) 1);
                      (ret', arg') = (if end_pfn > pfn then func pfn (u64_sub end_pfn pfn) arg else (ret, arg))
                  in if ret' \<noteq> 0 then Inr (ret', arg')
                     else ram_range_loop fuel h iomem (u64_add (r_end res) 1) end flags func ret' arg'))"

definition walk_system_ram_range ::
  "rstore \<Rightarrow> nat \<Rightarrow> u64 \<Rightarrow> u64 \<Rightarrow> 's \<Rightarrow> 's pfn_callback \<Rightarrow> (int \<times> 's) run" where
  "walk_system_ram_range h iomem start_pfn nr_pages arg func =
    (let start = push_bit PAGE_SHIFT start_pfn mod u64_lim;
         end = u64_sub (push_bit PAGE_SHIFT (u64_add start_pfn nr_pages) mod u64_lim) 1
     in ram_range_loop (store_fuel h) h iomem start end (IORESOURCE_SYSTEM_RAM OR IORESOURCE_BUSY) func (- 1) arg)"

definition is_ram :: "unit pfn_callback" where
  "is_ram pfn nr_pages arg = (1, arg)"

definition page_is_ram :: "rstore \<Rightarrow> nat \<Rightarrow> u64 \<Rightarrow> bool run" where
  "page_is_ram h iomem pfn =
    run_bind (walk_system_ram_range h iomem pfn 1 () is_ram) (\<lambda>(ret, arg). Inr (ret = 1))"

subsection \<open>Intersections\<close>

datatype region_class = REGION_INTERSECTS | REGION_DISJOINT | REGION_MIXED

definition hits :: "u64 \<Rightarrow> u64 \<Rightarrow> resource \<Rightarrow> nat" where
  "hits start end p =
    (if start \<ge> r_start p \<and> start \<le> r_end p then 1 else 0) +
    (if end \<ge> r_start p \<and> end \<le> r_end p then 1 else 0) +
    (if r_start p \<ge> start \<and> r_end p \<le> end then 1 else 0)"

primrec intersect_walk ::
  "nat \<Rightarrow> rstore \<Rightarrow> u64 \<Rightarrow> u64 \<Rightarrow> nat \<Rightarrow> nat \<Rightarrow> nat option \<Rightarrow> nat \<Rightarrow> nat \<Rightarrow> (nat \<times> nat) run" where
  "intersect_walk 0 h start end flags desc p type other = Inl No_fuel"
| "intersect_walk (Suc fuel) h start end flags desc p type other =
    (case p of
       None \<Rightarrow> Inr (type, other)
     | Some x \<Rightarrow>
         let is_type = (r_flags (h ! x) AND flags = flags \<and> (desc = IORES_DESC_NONE \<or> desc = r_desc (h ! x)));
             n = hits start end (h ! x)
         in intersect_walk fuel h start end flags desc (r_sibling (h ! x))
              (if is_type then type + n else type) (if is_type then other else other + n))"

definition region_intersects :: "rstore \<Rightarrow> nat \<Rightarrow> u64 \<Rightarrow> u64 \<Rightarrow> nat \<Rightarrow> nat \<Rightarrow> region_class run" where
  "region_intersects h iomem start sz flags desc =
    run_bind (intersect_walk (store_fuel h) h start (u64_sub (u64_add start sz) 1) flags desc (r_child (h ! iomem)) 0 0)
      (\<lambda>(type, other).
         Inr (if other = 0 then (if type \<noteq> 0 then REGION_INTERSECTS else REGION_DISJOINT)
              else if type \<noteq> 0 then REGION_MIXED
              else REGION_DISJOINT))"

subsection \<open>Checks of a mapping\<close>

primrec sanity_walk :: "nat \<Rightarrow> rstore \<Rightarrow> u64 \<Rightarrow> u64 \<Rightarrow> nat option \<Rightarrow> int run" where
  "sanity_walk 0 h addr sz p = Inl No_fuel"
| "sanity_walk (Suc fuel) h addr sz p =
    (case p of
       None \<Rightarrow> Inr 0
     | Some x \<Rightarrow>
         if r_start (h ! x) \<ge> u64_add addr sz \<or> r_end (h ! x) < addr \<or>
            (PFN_DOWN (r_start (h ! x)) \<le> PFN_DOWN addr \<and> PFN_DOWN (r_end (h ! x)) \<ge> PFN_DOWN (u64_sub (u64_add addr sz) 1)) \<or>
            r_flags (h ! x) AND IORESOURCE_BUSY \<noteq> 0
         then run_bind (r_next h x) (sanity_walk fuel h addr sz)
         else Inr (- 1))"

definition iomem_map_sanity_check :: "rstore \<Rightarrow> nat \<Rightarrow> u64 \<Rightarrow> u64 \<Rightarrow> int run" where
  "iomem_map_sanity_check h iomem addr sz = sanity_walk (store_fuel h) h addr sz (r_child (h ! iomem))"

primrec exclusive_walk :: "nat \<Rightarrow> bool \<Rightarrow> rstore \<Rightarrow> u64 \<Rightarrow> nat option \<Rightarrow> bool run" where
  "exclusive_walk 0 strict_devmem h addr p = Inl No_fuel"
| "exclusive_walk (Suc fuel) strict_devmem h addr p =
    (case p of
       None \<Rightarrow> Inr False
     | Some x \<Rightarrow>
         if r_start (h ! x) \<ge> u64_add addr PAGE_SIZE then Inr False
         else if r_end (h ! x) < addr \<or> r_flags (h ! x) AND IORESOURCE_BUSY = 0
         then run_bind (r_next h x) (exclusive_walk fuel strict_devmem h addr)
         else if strict_devmem \<or> r_flags (h ! x) AND IORESOURCE_EXCLUSIVE \<noteq> 0 then Inr True
         else run_bind (r_next h x) (exclusive_walk fuel strict_devmem h addr))"

text \<open>
  \<open>strict_iomem_checks\<close> is the variable of that name, \<open>strict_devmem\<close> whether the kernel is built with
  \<^verbatim>\<open>CONFIG_IO_STRICT_DEVMEM\<close>.
\<close>

definition iomem_is_exclusive :: "bool \<Rightarrow> bool \<Rightarrow> rstore \<Rightarrow> nat \<Rightarrow> u64 \<Rightarrow> bool run" where
  "iomem_is_exclusive strict_iomem_checks strict_devmem h iomem addr =
    (if \<not> strict_iomem_checks then Inr False
     else exclusive_walk (store_fuel h) strict_devmem h (addr AND u64_not (PAGE_SIZE - 1)) (r_child (h ! iomem)))"

end
