(* ===== verification/Resource_Walk_Proofs.thy ===== *)
theory Resource_Walk_Proofs
  imports Resource_Walk
begin

text \<open>
  What the walks over the first level of \<^verbatim>\<open>iomem_resource\<close> visit, that they end, and where they do
  not do what their description says.
\<close>

subsection \<open>The next resource\<close>

definition touches :: "rstore \<Rightarrow> nat \<Rightarrow> nat \<Rightarrow> u64 \<Rightarrow> u64 \<Rightarrow> nat \<Rightarrow> bool" where
  "touches h flags desc start end x \<longleftrightarrow>
    res_matches flags desc (h ! x) \<and> r_end (h ! x) \<ge> start \<and> r_start (h ! x) \<le> end"

definition clipped :: "rstore \<Rightarrow> u64 \<Rightarrow> u64 \<Rightarrow> nat \<Rightarrow> resource" where
  "clipped h start end x =
    null_resource\<lparr>r_start := max start (r_start (h ! x)), r_end := min end (r_end (h ! x)),
      r_flags := r_flags (h ! x), r_desc := r_desc (h ! x)\<rparr>"

definition first_of :: "'a list \<Rightarrow> 'a option" where
  "first_of xs = (case xs of [] \<Rightarrow> None | x # _ \<Rightarrow> Some x)"

lemma first_of_simps [simp]: "first_of [] = None" "first_of (x # xs) = Some x"
  by (simp_all add: first_of_def)

lemma find_next_walk_spec:
  assumes "path h p xs None" "length xs < fuel" "sorted_wrt (res_before h) xs" "\<forall>x\<in>set xs. r_start (h ! x) \<le> r_end (h ! x)"
  shows "find_next_walk fuel h start end flags desc True p = Inr (first_of (filter (touches h flags desc start end) xs))"
  using assms
proof (induction xs arbitrary: p fuel)
  case Nil
  then obtain f where "fuel = Suc f" by (cases fuel) auto
  then show ?case using Nil.prems by simp
next
  case (Cons x xs)
  then obtain f where f: "fuel = Suc f" by (cases fuel) auto
  have IH: "find_next_walk f h start end flags desc True (r_sibling (h ! x)) = Inr (first_of (filter (touches h flags desc start end) xs))"
    using Cons.IH [of "r_sibling (h ! x)" f] Cons.prems f by simp
  have rest: "filter (touches h flags desc start end) xs = []" if "r_start (h ! x) > end"
    using that Cons.prems(3,4) by (auto simp: touches_def res_before_def filter_empty_conv)
  show ?case
    using Cons.prems(1) IH rest by (auto simp: f next_resource_def touches_def [of h flags desc start "end" x])
qed

lemma find_next_iomem_res_spec:
  assumes "level h iomem xs" "start < end"
  shows "find_next_iomem_res h iomem start end flags desc True =
    Inr (case filter (touches h flags desc start end) xs of [] \<Rightarrow> Inl (- 1) | x # _ \<Rightarrow> Inr (clipped h start end x))"
proof -
  have "find_next_walk (store_fuel h) h start end flags desc True (r_child (h ! iomem)) =
      Inr (first_of (filter (touches h flags desc start end) xs))"
    by (rule find_next_walk_spec) (use assms(1) level_fuel [OF assms(1)] in \<open>auto simp: level_def in_range_def\<close>)
  then show ?thesis using assms(2) by (auto simp: find_next_iomem_res_def clipped_def split: list.split)
qed

subsection \<open>Walks end and visit every match\<close>

text \<open>The reference: the callback runs on one range after the other until an answer is not 0.\<close>

primrec call_each :: "'s callback \<Rightarrow> resource list \<Rightarrow> int \<Rightarrow> 's \<Rightarrow> int \<times> 's" where
  "call_each func [] ret arg = (ret, arg)"
| "call_each func (r # rs) ret arg =
    (let (ret', arg') = func r arg in if ret' \<noteq> 0 then (ret', arg') else call_each func rs ret' arg')"

lemma filter_touches_step:
  assumes "sorted_wrt (res_before h) xs" "\<forall>x\<in>set xs. r_start (h ! x) \<le> r_end (h ! x)"
    and "filter (touches h flags desc start end) xs = y # ys"
  shows "ys = filter (touches h flags desc (r_end (h ! y) + 1) end) xs" "\<forall>z\<in>set ys. r_end (h ! y) < r_start (h ! z)" "y \<in> set xs"
    "touches h flags desc start end y"
proof -
  obtain us vs where xs: "xs = us @ y # vs" "\<forall>u\<in>set us. \<not> touches h flags desc start end u"
      "touches h flags desc start end y" "ys = filter (touches h flags desc start end) vs"
    using filter_eq_ConsD [OF assms(3)] by blast
  have before: "\<forall>u\<in>set us. r_end (h ! u) < r_start (h ! y)" and after: "\<forall>v\<in>set vs. r_end (h ! y) < r_start (h ! v)"
    using assms(1) xs(1) by (auto simp: sorted_wrt_append res_before_def)
  have "filter (touches h flags desc (r_end (h ! y) + 1) end) us = []"
    using before assms(2) xs(1) by (fastforce simp: filter_empty_conv touches_def)
  moreover have "filter (touches h flags desc (r_end (h ! y) + 1) end) vs = filter (touches h flags desc start end) vs"
  proof (rule filter_cong [OF refl])
    fix v
    assume "v \<in> set vs"
    then have "r_end (h ! y) < r_start (h ! v)" "r_start (h ! v) \<le> r_end (h ! v)" "start \<le> r_end (h ! y)"
      using after assms(2) xs(1,3) by (auto simp: touches_def)
    then show "touches h flags desc (r_end (h ! y) + 1) end v = touches h flags desc start end v" by (auto simp: touches_def)
  qed
  ultimately show "ys = filter (touches h flags desc (r_end (h ! y) + 1) end) xs" by (simp add: xs touches_def)
  show "\<forall>z\<in>set ys. r_end (h ! y) < r_start (h ! z)" using after xs(4) by simp
  show "y \<in> set xs" "touches h flags desc start end y" using xs(1,3) by simp_all
qed

definition visited :: "rstore \<Rightarrow> nat \<Rightarrow> nat \<Rightarrow> u64 \<Rightarrow> u64 \<Rightarrow> nat list \<Rightarrow> nat list" where
  "visited h flags desc start end xs = (if start < end then filter (touches h flags desc start end) xs else [])"

lemma visited_step:
  assumes srt: "sorted_wrt (res_before h) xs" "\<forall>x\<in>set xs. r_start (h ! x) \<le> r_end (h ! x)"
    and edge: "\<forall>x\<in>set xs. r_start (h ! x) \<noteq> end"
    and Cons: "visited h flags desc start end xs = y # ys"
  shows "ys = visited h flags desc (min end (r_end (h ! y)) + 1) end xs"
    "map (clipped h (min end (r_end (h ! y)) + 1) end) ys = map (clipped h start end) ys"
proof -
  have f: "filter (touches h flags desc start end) xs = y # ys" using Cons by (auto simp: visited_def split: if_splits)
  note st = filter_touches_step [OF srt f]
  have none: "ys = []" if e: "\<not> r_end (h ! y) + 1 < end"
  proof -
    have "z \<notin> set ys" for z
    proof
      assume z: "z \<in> set ys"
      then have zx: "z \<in> set xs" "r_start (h ! z) \<le> end" unfolding st(1) by (auto simp: touches_def)
      moreover have "r_end (h ! y) < r_start (h ! z)" using st(2) z by blast
      ultimately have "r_start (h ! z) = end" using e by linarith
      then show False using edge zx(1) by blast
    qed
    then show ?thesis by (cases ys) auto
  qed
  show "ys = visited h flags desc (min end (r_end (h ! y)) + 1) end xs"
  proof (cases "r_end (h ! y) + 1 < end")
    case True
    then show ?thesis using st(1) by (simp add: visited_def min_def)
  next
    case False
    then show ?thesis using none by (auto simp: visited_def min_def)
  qed
  show "map (clipped h (min end (r_end (h ! y)) + 1) end) ys = map (clipped h start end) ys"
  proof (rule map_cong [OF refl])
    fix z
    assume "z \<in> set ys"
    then have "r_end (h ! y) < r_start (h ! z)" "start \<le> r_end (h ! y)" using st(2,4) by (auto simp: touches_def)
    then show "clipped h (min end (r_end (h ! y)) + 1) end z = clipped h start end z" by (simp add: clipped_def max_def)
  qed
qed

lemma walk_loop_spec:
  assumes lv: "level h iomem xs" and lim: "end + 1 < u64_lim" and edge: "\<forall>x\<in>set xs. r_start (h ! x) \<noteq> end"
    and fuel: "length (visited h flags desc start end xs) < fuel"
  shows "walk_loop fuel h iomem start end flags desc True func ret arg =
    Inr (call_each func (map (clipped h start end) (visited h flags desc start end xs)) ret arg)"
  using fuel
proof (induction fuel arbitrary: start ret arg)
  case (Suc fuel)
  have srt: "sorted_wrt (res_before h) xs" "\<forall>x\<in>set xs. r_start (h ! x) \<le> r_end (h ! x)"
    using lv by (auto simp: level_def in_range_def)
  show ?case
  proof (cases "visited h flags desc start end xs")
    case Nil
    then show ?thesis using find_next_iomem_res_spec [OF lv, of start "end"] by (auto simp: visited_def split: if_splits)
  next
    case (Cons y ys)
    then have lt: "start < end" and f: "filter (touches h flags desc start end) xs = y # ys"
      by (auto simp: visited_def split: if_splits)
    note st = visited_step [OF srt edge Cons]
    have nxt: "u64_add (r_end (clipped h start end y)) 1 = min end (r_end (h ! y)) + 1"
      using lim by (simp add: clipped_def u64_add_eq)
    have "walk_loop fuel h iomem (min end (r_end (h ! y)) + 1) end flags desc True func r a =
        Inr (call_each func (map (clipped h start end) ys) r a)" for r a
      using Suc.IH [of "min end (r_end (h ! y)) + 1" r a] Suc.prems Cons
      unfolding st(1) [symmetric] st(2) by simp
    then show ?thesis
      using lt find_next_iomem_res_spec [OF lv lt] f Cons nxt by (auto split: prod.split)
  qed
qed simp

text \<open>
  C11: a walk over the first level of the tree always ends when the range stops short of the last
  address: it runs the callback once for every matching resource that meets the range, in the order
  of the addresses and clipped to the range, until an answer is not 0, and returns the last answer.
  (No resource may start exactly at the last address of the range: the loop condition excludes a
  rest of one byte.)
\<close>

theorem walk_iomem_res_terminates:
  assumes "level h iomem xs" "start < end" "end < ULLONG_MAX" "\<forall>x\<in>set xs. r_start (h ! x) \<noteq> end"
  shows "do_walk_iomem_res_desc h iomem start end flags desc True arg func =
    Inr (call_each func (map (clipped h start end) (filter (touches h flags desc start end) xs)) (- 1) arg)"
proof -
  have "length (visited h flags desc start end xs) < store_fuel h"
    using le_less_trans [OF length_filter_le level_fuel [OF assms(1)]] by (simp add: visited_def store_fuel_def)
  moreover have "end + 1 < u64_lim" using assms(3) by (simp add: ULLONG_MAX_def u64_lim_def)
  moreover have "visited h flags desc start end xs = filter (touches h flags desc start end) xs" using assms(2) by (simp add: visited_def)
  ultimately show ?thesis
    unfolding do_walk_iomem_res_desc_def using walk_loop_spec [OF assms(1) _ assms(4), of flags desc start "store_fuel h"] by simp
qed

text \<open>A tree with two pieces of memory: two whole pages with a half page in front, and one whole page.\<close>

definition demo_ram_flags :: nat where
  "demo_ram_flags = IORESOURCE_SYSTEM_RAM OR IORESOURCE_BUSY"

definition demo_iomem :: rstore where
  "demo_iomem =
    [demo_cell 0 ULLONG_MAX None None (Some 1),
     (demo_cell 0x1000 0x17ff (Some 0) (Some 2) None)\<lparr>r_flags := demo_ram_flags\<rparr>,
     (demo_cell 0x2000 0x5fff (Some 0) None None)\<lparr>r_flags := demo_ram_flags\<rparr>]"

lemma demo_iomem_level: "level demo_iomem 0 [1, 2]"
  by (simp add: level_def demo_iomem_def demo_cell_def null_resource_def res_before_def in_range_def ULLONG_MAX_def u64_lim_def)

lemma demo_ram: "res_matches demo_ram_flags IORES_DESC_NONE (demo_iomem ! 1)" "res_matches demo_ram_flags IORES_DESC_NONE (demo_iomem ! 2)"
  by (simp_all add: res_matches_def demo_iomem_def)

definition count_bytes :: "nat callback" where
  "count_bytes r n = (0, n + (r_end r - r_start r + 1))"

theorem walk_iomem_res_terminates_witness:
  "do_walk_iomem_res_desc demo_iomem 0 0x1400 0x2fff demo_ram_flags IORES_DESC_NONE True 0 count_bytes = Inr (0, 0x1400)"
proof -
  have e: "0x1400 < (0x2fff::nat)" "0x2fff < ULLONG_MAX" "\<forall>x\<in>set [1, 2]. r_start (demo_iomem ! x) \<noteq> 0x2fff"
    by (simp_all add: ULLONG_MAX_def u64_lim_def demo_iomem_def demo_cell_def)
  have "filter (touches demo_iomem demo_ram_flags IORES_DESC_NONE 0x1400 0x2fff) [1, 2] = [1, 2]"
    using demo_ram by (simp add: touches_def) (simp add: demo_iomem_def demo_cell_def)
  then show ?thesis
    using walk_iomem_res_terminates [OF demo_iomem_level e, of demo_ram_flags IORES_DESC_NONE 0 count_bytes]
    by (simp add: clipped_def count_bytes_def demo_iomem_def demo_cell_def)
qed

subsection \<open>A walk up to the last address\<close>

text \<open>
  When the range ends at the last address and a matching resource reaches it, \<open>res.end + 1\<close> is 0 and
  the walk starts over: with a callback that always answers 0 no number of rounds is enough.
\<close>

theorem walk_loop_never_ends:
  assumes lv: "level h iomem xs" and x: "x \<in> set xs" "res_matches flags desc (h ! x)" "r_end (h ! x) = ULLONG_MAX" "r_start (h ! x) < ULLONG_MAX"
    and func: "\<And>r a. fst (func r a) = 0" and start: "start < ULLONG_MAX"
  shows "walk_loop fuel h iomem start ULLONG_MAX flags desc True func ret arg = Inl No_fuel"
  using start
proof (induction fuel arbitrary: start ret arg)
  case (Suc fuel)
  have srt: "sorted_wrt (res_before h) xs" "\<forall>x\<in>set xs. r_start (h ! x) \<le> r_end (h ! x)"
    using lv by (auto simp: level_def in_range_def)
  have "x \<in> set (filter (touches h flags desc start ULLONG_MAX) xs)" using x Suc.prems by (simp add: touches_def)
  then obtain y ys where y: "filter (touches h flags desc start ULLONG_MAX) xs = y # ys"
    by (cases "filter (touches h flags desc start ULLONG_MAX) xs") auto
  note st = filter_touches_step [OF srt y]
  have "u64_add (r_end (clipped h start ULLONG_MAX y)) 1 < ULLONG_MAX"
  proof (cases "r_end (h ! y) < ULLONG_MAX")
    case True
    then have "x \<noteq> y" using x(3) by auto
    then have "x \<in> set ys" using \<open>x \<in> set (filter _ xs)\<close> y by simp
    then have "r_end (h ! y) < r_start (h ! x)" using st(2) by blast
    moreover from this have "r_end (h ! y) + 1 < u64_lim" using x(4) by (simp add: ULLONG_MAX_def)
    ultimately show ?thesis using True x(4) by (simp add: clipped_def u64_add_eq min_def)
  next
    case False
    then show ?thesis by (simp add: clipped_def min_def u64_add_def ULLONG_MAX_def u64_lim_def)
  qed
  then have "walk_loop fuel h iomem (u64_add (r_end (clipped h start ULLONG_MAX y)) 1) ULLONG_MAX flags desc True func r a = Inl No_fuel" for r a
    by (rule Suc.IH)
  then show ?case
    using Suc.prems find_next_iomem_res_spec [OF lv Suc.prems] y func by (auto split: prod.split) (metis fst_conv)
qed simp

subsection \<open>Page frames\<close>

definition whole_pages :: "resource \<Rightarrow> bool" where
  "whole_pages r \<longleftrightarrow> drop_bit PAGE_SHIFT (u64_sub (u64_add (r_start r) PAGE_SIZE) 1) < drop_bit PAGE_SHIFT (u64_add (r_end r) 1)"

lemma ram_range_loop_short:
  assumes "level h iomem xs" "start < end" "filter (touches h flags IORES_DESC_NONE start end) xs = y # ys"
    and "\<not> whole_pages (clipped h start end y)"
  shows "ram_range_loop (Suc fuel) h iomem start end flags func (- 1) arg = Inr (- 1, arg)"
  using assms(2,4) find_next_iomem_res_spec [OF assms(1,2), of flags IORES_DESC_NONE] assms(3)
  by (simp add: whole_pages_def)

text \<open>
  C40: \<open>walk_system_ram_range\<close> gives up at a resource without a whole page.  Its variable \<open>ret\<close> starts
  as \<open>- 1\<close> and the loop stops when \<open>ret\<close> is not 0, also when the callback has not run: if the first
  memory of the range is smaller than a page, the callback runs for no page at all and the answer is
  \<open>- 1\<close>, no matter how much memory follows.
\<close>

theorem walk_system_ram_range_stops_short:
  assumes "level h iomem xs" "start_pfn + nr_pages < 2 ^ 52" "0 < nr_pages"
    and "filter (touches h (IORESOURCE_SYSTEM_RAM OR IORESOURCE_BUSY) IORES_DESC_NONE (start_pfn * PAGE_SIZE) ((start_pfn + nr_pages) * PAGE_SIZE - 1)) xs = y # ys"
    and "\<not> whole_pages (clipped h (start_pfn * PAGE_SIZE) ((start_pfn + nr_pages) * PAGE_SIZE - 1) y)"
  shows "walk_system_ram_range h iomem start_pfn nr_pages arg func = Inr (- 1, arg)"
proof -
  have "start_pfn * PAGE_SIZE < u64_lim" "(start_pfn + nr_pages) * PAGE_SIZE < u64_lim" "start_pfn + nr_pages < u64_lim"
    using assms(2) by (simp_all add: PAGE_SIZE_def u64_lim_def)
  then have "push_bit PAGE_SHIFT start_pfn mod u64_lim = start_pfn * PAGE_SIZE"
    "u64_sub (push_bit PAGE_SHIFT (u64_add start_pfn nr_pages) mod u64_lim) 1 = (start_pfn + nr_pages) * PAGE_SIZE - 1"
    using assms(3) by (simp_all add: push_bit_eq_mult PAGE_SHIFT_def PAGE_SIZE_def u64_add_eq u64_sub_eq)
  moreover have "start_pfn * PAGE_SIZE < (start_pfn + nr_pages) * PAGE_SIZE - 1" using assms(3) by (simp add: PAGE_SIZE_def)
  ultimately show ?thesis
    using ram_range_loop_short [OF assms(1) _ assms(4,5), of "length h" func arg]
    by (simp add: walk_system_ram_range_def store_fuel_def)
qed

theorem walk_system_ram_range_stops_short_witness:
  "walk_system_ram_range demo_iomem 0 1 5 0 (\<lambda>pfn nr n. (0, n + nr)) = Inr (- 1, 0)"
proof -
  have a: "filter (touches demo_iomem (IORESOURCE_SYSTEM_RAM OR IORESOURCE_BUSY) IORES_DESC_NONE (1 * PAGE_SIZE) ((1 + 5) * PAGE_SIZE - 1)) [1, 2] = 1 # [2]"
    using demo_ram unfolding demo_ram_flags_def
    by (simp add: touches_def PAGE_SIZE_def) (simp add: demo_iomem_def demo_cell_def)
  have b: "\<not> whole_pages (clipped demo_iomem (1 * PAGE_SIZE) ((1 + 5) * PAGE_SIZE - 1) 1)"
    by (simp add: whole_pages_def clipped_def demo_iomem_def demo_cell_def PAGE_SIZE_def PAGE_SHIFT_def u64_add_def u64_sub_def u64_lim_def drop_bit_eq_div)
  show ?thesis by (rule walk_system_ram_range_stops_short [OF demo_iomem_level _ _ a b]) simp_all
qed

text \<open>A resource holds a whole page of the clipped range exactly when it covers one.\<close>

lemma whole_page_covered:
  assumes "pfn + 1 < 2 ^ 52" "r_start (h ! x) \<le> pfn * PAGE_SIZE + 4095" "pfn * PAGE_SIZE \<le> r_end (h ! x)"
  shows "whole_pages (clipped h (pfn * PAGE_SIZE) (pfn * PAGE_SIZE + 4095) x) \<longleftrightarrow>
    r_start (h ! x) \<le> pfn * PAGE_SIZE \<and> pfn * PAGE_SIZE + 4095 \<le> r_end (h ! x)"
proof -
  define a b where "a = max (pfn * 4096) (r_start (h ! x))" and "b = min (pfn * 4096 + 4095) (r_end (h ! x))"
  have ab: "pfn * 4096 \<le> a" "b \<le> pfn * 4096 + 4095" "a \<le> pfn * 4096 + 4095" using assms by (auto simp: a_def b_def PAGE_SIZE_def)
  have w: "u64_sub (u64_add a 4096) 1 = a + 4095" "u64_add b 1 = b + 1"
    using ab assms(1) by (simp_all add: u64_add_eq u64_sub_eq u64_lim_def)
  have "(a + 4095) div 4096 < (b + 1) div 4096 \<longleftrightarrow> a = pfn * 4096 \<and> b = pfn * 4096 + 4095"
  proof
    assume lt: "(a + 4095) div 4096 < (b + 1) div 4096"
    have "pfn \<le> (a + 4095) div 4096" "(b + 1) div 4096 \<le> pfn + 1" using ab by simp_all
    with lt have "(a + 4095) div 4096 = pfn" "(b + 1) div 4096 = pfn + 1" by linarith+
    then show "a = pfn * 4096 \<and> b = pfn * 4096 + 4095" using ab by linarith
  qed auto
  moreover have "r_start (clipped h (pfn * PAGE_SIZE) (pfn * PAGE_SIZE + 4095) x) = a" "r_end (clipped h (pfn * PAGE_SIZE) (pfn * PAGE_SIZE + 4095) x) = b"
    by (simp_all add: clipped_def a_def b_def PAGE_SIZE_def)
  then have "whole_pages (clipped h (pfn * PAGE_SIZE) (pfn * PAGE_SIZE + 4095) x) \<longleftrightarrow> (a + 4095) div 4096 < (b + 1) div 4096"
    unfolding whole_pages_def PAGE_SHIFT_def drop_bit_eq_div by (simp only: PAGE_SIZE_def w) simp
  ultimately show ?thesis using assms(2,3) unfolding a_def b_def PAGE_SIZE_def by linarith
qed

text \<open>
  C39: \<open>page_is_ram\<close> answers yes exactly when one busy System RAM resource on the first level of the
  tree covers the whole page.
\<close>

theorem page_is_ram_correct:
  assumes lv: "level h iomem xs" and pfn: "pfn + 1 < 2 ^ 52"
  shows "page_is_ram h iomem pfn = Inr (\<exists>x\<in>set xs.
    res_matches (IORESOURCE_SYSTEM_RAM OR IORESOURCE_BUSY) IORES_DESC_NONE (h ! x) \<and>
    r_start (h ! x) \<le> pfn * PAGE_SIZE \<and> pfn * PAGE_SIZE + 4095 \<le> r_end (h ! x))"
proof -
  let ?f = "IORESOURCE_SYSTEM_RAM OR IORESOURCE_BUSY" and ?s = "pfn * PAGE_SIZE" and ?e = "pfn * PAGE_SIZE + 4095"
  have lims: "?s < u64_lim" "(pfn + 1) * PAGE_SIZE < u64_lim" "pfn + 1 < u64_lim" using pfn by (simp_all add: PAGE_SIZE_def u64_lim_def)
  then have args: "push_bit PAGE_SHIFT pfn mod u64_lim = ?s" "u64_sub (push_bit PAGE_SHIFT (u64_add pfn 1) mod u64_lim) 1 = ?e"
    by (simp_all add: push_bit_eq_mult PAGE_SHIFT_def PAGE_SIZE_def u64_add_eq u64_sub_eq)
  have srt: "sorted_wrt (res_before h) xs" "\<forall>x\<in>set xs. r_start (h ! x) \<le> r_end (h ! x)"
    using lv by (auto simp: level_def in_range_def)
  have run: "page_is_ram h iomem pfn = run_bind (ram_range_loop (Suc (length h)) h iomem ?s ?e ?f is_ram (- 1) ()) (\<lambda>(ret, arg). Inr (ret = 1))"
    unfolding page_is_ram_def walk_system_ram_range_def Let_def args store_fuel_def Suc_eq_plus1 ..
  have lt: "?s < ?e" by simp
  show ?thesis
  proof (cases "filter (touches h ?f IORES_DESC_NONE ?s ?e) xs")
    case Nil
    then have "\<not> touches h ?f IORES_DESC_NONE ?s ?e x" if "x \<in> set xs" for x using that by (simp add: filter_empty_conv)
    then have "\<not> (\<exists>x\<in>set xs. res_matches ?f IORES_DESC_NONE (h ! x) \<and> r_start (h ! x) \<le> ?s \<and> ?e \<le> r_end (h ! x))"
      by (fastforce simp: touches_def)
    then show ?thesis using run lt find_next_iomem_res_spec [OF lv lt] Nil by simp
  next
    case (Cons y ys)
    note st = filter_touches_step [OF srt Cons]
    have y: "r_start (h ! y) \<le> ?e" "?s \<le> r_end (h ! y)" "res_matches ?f IORES_DESC_NONE (h ! y)" using st(4) by (auto simp: touches_def)
    have only: "x = y" if "x \<in> set xs" "res_matches ?f IORES_DESC_NONE (h ! x)" "r_start (h ! x) \<le> ?s" "?e \<le> r_end (h ! x)" for x
    proof (rule ccontr)
      assume "x \<noteq> y"
      moreover have "x \<in> set (y # ys)" unfolding Cons [symmetric] using that by (simp add: touches_def)
      ultimately have "r_end (h ! y) < r_start (h ! x)" using st(2) by simp
      then show False using that(3) y(2) by simp
    qed
    have "page_is_ram h iomem pfn = Inr (whole_pages (clipped h ?s ?e y))"
    proof (cases "whole_pages (clipped h ?s ?e y)")
      case True
      then show ?thesis
        using run lt find_next_iomem_res_spec [OF lv lt, of ?f IORES_DESC_NONE] Cons by (simp add: whole_pages_def is_ram_def)
    next
      case False
      then show ?thesis using run ram_range_loop_short [OF lv lt Cons False, of "length h" is_ram "()"] by simp
    qed
    moreover have "(\<exists>x\<in>set xs. res_matches ?f IORES_DESC_NONE (h ! x) \<and> r_start (h ! x) \<le> ?s \<and> ?e \<le> r_end (h ! x)) \<longleftrightarrow>
        r_start (h ! y) \<le> ?s \<and> ?e \<le> r_end (h ! y)"
      using only y(3) st(3) by blast
    ultimately show ?thesis using whole_page_covered [OF pfn y(1,2)] by (simp only:)
  qed
qed

theorem page_is_ram_correct_witness: "page_is_ram demo_iomem 0 1 = Inr False \<and> page_is_ram demo_iomem 0 3 = Inr True"
proof -
  have b: "1 + 1 < (2::nat) ^ 52" "3 + 1 < (2::nat) ^ 52" by simp_all
  note P = page_is_ram_correct [OF demo_iomem_level b(1)] page_is_ram_correct [OF demo_iomem_level b(2)]
  show ?thesis
    unfolding P using demo_ram unfolding demo_ram_flags_def
    by (simp add: PAGE_SIZE_def) (simp add: demo_iomem_def demo_cell_def)
qed

subsection \<open>Intersections\<close>

lemma hits_overlap:
  "start \<le> end \<Longrightarrow> r_start p \<le> r_end p \<Longrightarrow> hits start end p > 0 \<longleftrightarrow> r_start p \<le> end \<and> start \<le> r_end p"
  by (auto simp: hits_def)

lemma intersect_walk_spec:
  assumes "path h p xs None" "length xs < fuel" "start \<le> end" "\<forall>x\<in>set xs. r_start (h ! x) \<le> r_end (h ! x)"
  shows "\<exists>t' o'. intersect_walk fuel h start end flags desc p t oth = Inr (t', o') \<and>
    (t' > 0 \<longleftrightarrow> t > 0 \<or> (\<exists>x\<in>set xs. touches h flags desc start end x)) \<and>
    (o' > 0 \<longleftrightarrow> oth > 0 \<or> (\<exists>x\<in>set xs. \<not> res_matches flags desc (h ! x) \<and> r_start (h ! x) \<le> end \<and> start \<le> r_end (h ! x)))"
  using assms
proof (induction xs arbitrary: p fuel t oth)
  case Nil
  then obtain f where "fuel = Suc f" by (cases fuel) auto
  then show ?case using Nil.prems by simp
next
  case (Cons x xs)
  then obtain f where f: "fuel = Suc f" by (cases fuel) auto
  have m: "(r_flags (h ! x) AND flags = flags \<and> (desc = IORES_DESC_NONE \<or> desc = r_desc (h ! x))) \<longleftrightarrow> res_matches flags desc (h ! x)"
    by (auto simp: res_matches_def)
  let ?t = "if res_matches flags desc (h ! x) then t + hits start end (h ! x) else t"
  let ?o = "if res_matches flags desc (h ! x) then oth else oth + hits start end (h ! x)"
  have h: "hits start end (h ! x) > 0 \<longleftrightarrow> r_start (h ! x) \<le> end \<and> start \<le> r_end (h ! x)"
    using hits_overlap Cons.prems(3,4) by simp
  have step: "intersect_walk fuel h start end flags desc p t oth = intersect_walk f h start end flags desc (r_sibling (h ! x)) ?t ?o"
    using Cons.prems(1) by (simp add: f Let_def m)
  have "\<exists>t' o'. intersect_walk f h start end flags desc (r_sibling (h ! x)) ?t ?o = Inr (t', o') \<and>
      (t' > 0 \<longleftrightarrow> ?t > 0 \<or> (\<exists>x\<in>set xs. touches h flags desc start end x)) \<and>
      (o' > 0 \<longleftrightarrow> ?o > 0 \<or> (\<exists>x\<in>set xs. \<not> res_matches flags desc (h ! x) \<and> r_start (h ! x) \<le> end \<and> start \<le> r_end (h ! x)))"
    by (rule Cons.IH) (use Cons.prems f in auto)
  then obtain t' o' where IH: "intersect_walk f h start end flags desc (r_sibling (h ! x)) ?t ?o = Inr (t', o')"
      "t' > 0 \<longleftrightarrow> ?t > 0 \<or> (\<exists>x\<in>set xs. touches h flags desc start end x)"
      "o' > 0 \<longleftrightarrow> ?o > 0 \<or> (\<exists>x\<in>set xs. \<not> res_matches flags desc (h ! x) \<and> r_start (h ! x) \<le> end \<and> start \<le> r_end (h ! x))"
    by (elim exE conjE)
  have c: "?t > 0 \<longleftrightarrow> t > 0 \<or> touches h flags desc start end x" using h by (auto simp: touches_def)
  have d: "?o > 0 \<longleftrightarrow> oth > 0 \<or> \<not> res_matches flags desc (h ! x) \<and> r_start (h ! x) \<le> end \<and> start \<le> r_end (h ! x)"
    using h by auto
  have "t' > 0 \<longleftrightarrow> t > 0 \<or> (\<exists>z\<in>set (x # xs). touches h flags desc start end z)"
    unfolding IH(2) c list.set(2) bex_simps(5) disj_assoc ..
  moreover have "o' > 0 \<longleftrightarrow> oth > 0 \<or> (\<exists>z\<in>set (x # xs). \<not> res_matches flags desc (h ! z) \<and> r_start (h ! z) \<le> end \<and> start \<le> r_end (h ! z))"
    unfolding IH(3) d list.set(2) bex_simps(5) disj_assoc ..
  ultimately show ?case unfolding step IH(1) by (intro exI [of _ t'] exI [of _ o'] conjI refl)
qed

text \<open>\<open>region_intersects\<close> classifies a region by the first-level resources it overlaps.\<close>

lemma region_intersects_spec:
  fixes flags desc :: nat
  assumes "level h iomem xs" "0 < sz" "start + sz \<le> u64_lim"
  defines "hit \<equiv> \<exists>x\<in>set xs. touches h flags desc start (start + sz - 1) x"
    and "foreign \<equiv> \<exists>x\<in>set xs. \<not> res_matches flags desc (h ! x) \<and> r_start (h ! x) \<le> start + sz - 1 \<and> start \<le> r_end (h ! x)"
  shows "region_intersects h iomem start sz flags desc =
    Inr (if \<not> hit then REGION_DISJOINT else if foreign then REGION_MIXED else REGION_INTERSECTS)"
proof -
  have "path h (r_child (h ! iomem)) xs None" "length xs < store_fuel h" "\<forall>x\<in>set xs. r_start (h ! x) \<le> r_end (h ! x)"
    using assms(1) level_fuel [OF assms(1)] by (auto simp: level_def in_range_def)
  moreover have "start \<le> start + sz - 1" using assms(2) by simp
  ultimately obtain t o' where w: "intersect_walk (store_fuel h) h start (start + sz - 1) flags desc (r_child (h ! iomem)) 0 0 = Inr (t, o')"
      "t > 0 \<longleftrightarrow> hit" "o' > 0 \<longleftrightarrow> foreign"
    unfolding hit_def foreign_def using intersect_walk_spec [of h "r_child (h ! iomem)" xs "store_fuel h" start "start + sz - 1" flags desc 0 0] by auto
  show ?thesis unfolding region_intersects_def u64_last [OF assms(2,3)] w(1) using w(2,3) by auto
qed

end
