(* ===== verification/Spec2Isabelle.thy ===== *)
theory Spec2Isabelle
  imports Memblock_Boot Memblock_Iter Memblock_Limits Memblock_Grow Bootmem_Alloc Bootmem_Release Nobootmem Resource_Region Resource_Walk_Proofs
begin

text \<open>
  A verification library for the annotated Linux kernel sources of this repository: the boot-time
  memory allocators and the tree of I/O resources, in the arm64 configuration.

  \<^bold>\<open>The program.\<close>  The parts that are modelled, and how they interact:

  \<^item> \<^verbatim>\<open>src/new/mm/memblock.c\<close> with \<^verbatim>\<open>src/new/include/linux/memblock.h\<close> keeps two sorted arrays of
    address ranges, the memory of the machine and the reserved part of it.  It serves every
    allocation before the page allocator exists.
  \<^item> \<^verbatim>\<open>src/bootmem.c\<close> with \<^verbatim>\<open>src/bootmem.h\<close> is the older boot allocator, one bitmap of page frames per node.
  \<^item> \<^verbatim>\<open>src/nobootmem.c\<close> offers the interface of bootmem on top of memblock, and hands all
    unreserved memory to the page allocator at the end of boot.
  \<^item> \<^verbatim>\<open>src/new/kernel/resource.c\<close> with \<^verbatim>\<open>src/new/include/linux/ioport.h\<close> keeps the tree of address ranges that
    devices and memory banks claim, and the walks over it.

  \<^bold>\<open>Conventions.\<close>  A \<^verbatim>\<open>u64\<close>, \<^verbatim>\<open>phys_addr_t\<close>, \<^verbatim>\<open>unsigned long\<close> or \<^verbatim>\<open>resource_size_t\<close> is a natural number, and each addition or
  subtraction that may overflow is written with the wrapping operations of \<open>Kernel_Prelude\<close>
  (\<open>u64_add\<close>, \<open>u64_sub\<close>); flags of memory regions and words of bitmaps are machine words.  An operation on a state
  returns \<open>fault + result\<close>: \<open>Bug_on\<close>, \<open>Panic\<close> and \<open>Bad_access\<close> (an access outside an array, or through a null pointer) are values, and
  \<open>No_fuel\<close> is a loop that has not ended.  A C error code is an \<open>int\<close> in the result.  A name of the
  source is kept where possible; a leading \<^verbatim>\<open>__\<close> or \<^verbatim>\<open>___\<close> is dropped or becomes \<open>do_\<close>, and the functions of
  \<^verbatim>\<open>nobootmem.c\<close> carry \<open>nb_\<close>, since \<^verbatim>\<open>bootmem.c\<close> has functions with the same names.

  \<^bold>\<open>The theories.\<close>

  \<^item> \<open>Kernel_Prelude\<close>: the result type, wrapping arithmetic, page frame numbers, \<^verbatim>\<open>round_up\<close>, \<^verbatim>\<open>round_down\<close>,
    \<^verbatim>\<open>ALIGN\<close> and the lemmas about them that the components share.
  \<^item> \<open>Memblock_Types\<close>: \<^verbatim>\<open>struct memblock_region\<close>, \<^verbatim>\<open>memblock_type\<close> and \<^verbatim>\<open>memblock\<close> as records; inserting, removing,
    merging and searching regions.  The abstraction is \<open>amap\<close>, from an address to its node and flags, and the invariant is
    \<open>wf_type\<close> (array length, exact total, regions sorted, disjoint, below \<^verbatim>\<open>PHYS_ADDR_MAX\<close>, not empty unless the array
    holds its dummy region).
  \<^item> \<open>Memblock_Find\<close>, \<open>Memblock_Iter\<close>: the iterators \<^verbatim>\<open>__next_mem_range\<close> and \<^verbatim>\<open>__next_mem_range_rev\<close> with their packed
    index, and the search for free areas.  The locale \<open>range_iterator\<close> is the contract of an iterator; both are
    interpretations of it, and the loops over ranges are proved once inside it.  Shown: the walks end and cover exactly the
    unreserved memory that matches; the search is sound and complete in both directions.
  \<^item> \<open>Memblock_Update\<close>: \<^verbatim>\<open>memblock_add_range\<close>, \<^verbatim>\<open>memblock_isolate_range\<close>, \<^verbatim>\<open>memblock_remove_range\<close>, flags and nodes, and
    \<^verbatim>\<open>memblock_double_array\<close>.  Shown: each refines the obvious change of \<open>amap\<close> and keeps the invariant; the \<^verbatim>\<open>-ENOMEM\<close> path changes nothing.
  \<^item> \<open>Memblock_Alloc\<close>: the allocation functions with their fallbacks, limits and queries; an allocation is sound, complete,
    reserves exactly its area, and is undone by \<^verbatim>\<open>memblock_free\<close>.
  \<^item> \<open>Memblock_Limits\<close>: trimming and capping, exactly, with the two places where the code loses information.
    \<open>Memblock_Grow\<close>: when an array grows, what growing does, and where the new array may end up.
    \<open>Memblock_Boot\<close>: early boot as a state machine; the invariant holds in every reachable state and no call of the machine fails.
  \<^item> \<open>Bootmem\<close>, \<open>Bootmem_Nodes\<close>, \<open>Bootmem_Alloc\<close>, \<open>Bootmem_Release\<close>: \<^verbatim>\<open>bootmem_data_t\<close> with its bitmap, marking ranges on one node and
    across nodes, the allocator, and the hand-over.  Shown: reservations are all or nothing, freeing takes exactly the pages
    inside the range, allocations are complete and pairwise disjoint, and which pages the hand-over releases or loses.
  \<^item> \<open>Nobootmem\<close>: \<^verbatim>\<open>src/nobootmem.c\<close> over the memblock theories.  Shown: the page allocator gets exactly the pages that are
    entirely unreserved, mapped memory, each once and in aligned blocks; an allocation on a node panics only if no node has room.
  \<^item> \<open>Resource\<close>, \<open>Resource_Alloc\<close>, \<open>Resource_Walk\<close>, \<open>Resource_Region\<close>: \<^verbatim>\<open>struct resource\<close> as a cell of a store, the pointers
    \<^verbatim>\<open>parent\<close>, \<^verbatim>\<open>sibling\<close> and \<^verbatim>\<open>child\<close> as optional cell numbers, and the C loops over \<^verbatim>\<open>struct resource **p\<close> as loops over links.
    \<open>Resource_Tree\<close> and \<open>Resource_Forest\<close> hold the abstraction: \<open>level\<close> says that the children of a cell are a given ordered list,
    \<open>forest\<close> that a set of cells forms trees.  \<open>Resource_Ops\<close> proves the exported operations against it; the
    locale \<open>tree_operation\<close> is their common contract, interpreted for all five, and the invariant of any sequence of
    them follows from it.  \<open>Resource_Alloc\<close> shows first fit, \<open>Resource_Walk_Proofs\<close> what the walks visit, and \<open>Resource_Region\<close> the round trip of
    busy regions through the pool of free cells.

  \<^bold>\<open>Parameters.\<close>  Code that is not in the repository is an argument: the slab allocator, the end of the kernel image and the
  cache line size (\<open>boot_env\<close>), the search for a zero bit and the zone limits of bootmem, the find-first-set instruction, callbacks of walks, and the
  alignment function of an allocation.  The hypotheses on them say what is documented: the bit that is found is the first one.
  The witnesses give them concrete values.

  \<^bold>\<open>Fuel.\<close>  A loop that is not structural and has no measure of its own takes fuel, and the theorems about an operation show that what its
  definition passes is enough, as they conclude with a result and not with \<open>No_fuel\<close>.  One loop of the code may really run for ever, the walk
  over resources up to the last address (\<open>Resource_Walk_Proofs\<close>), and no fuel is enough for it.  A loop over siblings or down the tree takes
  one more than the number of cells (\<open>store_fuel\<close>), since no cell occurs twice in a level and the rank falls on the way down.  The iterators take the sum
  of both counts plus three (\<open>range_steps\<close>), since each step passes a region or a gap.  Isolating takes the count plus three, trimming the count
  plus two.  Growing takes 65 rounds, since each doubles a 64-bit number.  The recursion of \<^verbatim>\<open>memblock_double_array\<close> through
  \<^verbatim>\<open>memblock_reserve\<close> is bounded by \<open>env_fuel\<close>, of which one round is used where the new array fits.
  The search of bootmem takes one round per page of the node, plus two, and its hand-over one round per page, plus one.

  \<^bold>\<open>What the theorems leave open.\<close>  Hypotheses that bound a statement are named in its text: free slots in an array that must not grow,
  sizes greater than 0, alignments that are powers of two.  \<^verbatim>\<open>memblock_trim_memory\<close> is not a step of the machine of
  \<open>Memblock_Boot\<close>, since the total it leaves behind is wrong.  Growth is proved for the first move out of the static arrays.
  The NULL check of the first argument in \<^verbatim>\<open>find_next_iomem_res\<close> has no counterpart: no caller in the file passes NULL.

  \<^bold>\<open>Not modelled.\<close>  In the modelled files: debug output, kmemleak, the contents of memory, locks (the code is sequential under its
  lock), \<^verbatim>\<open>__memblock_free_late\<close>, the debugfs and proc files, \<^verbatim>\<open>devm_*\<close> and \<^verbatim>\<open>resource_list_*\<close>, and the boot
  parameters.  The rest of the tree under \<^verbatim>\<open>src/new\<close> (scheduler, page allocator, drivers, file systems, architecture code)
  is concurrent code or access to hardware, of which only annotated fragments are present.  \<^verbatim>\<open>src/bak\<close> holds
  older kernels, \<^verbatim>\<open>src/tools\<close> a vendored tool, and the remaining files are scripts and patches for the build.
\<close>

end
